(* ===== verification/Prelude.thy ===== *)
theory Prelude
  imports Main "HOL-Library.Word" "HOL-Library.Monad_Syntax"
begin

unbundle bit_operations_syntax

section \<open>Shared vocabulary of the Redis development\<close>

text \<open>
  Types, memory primitives and lemmas that every component theory uses: byte strings, reads and
  writes of byte buffers with their bounds, little-endian integers, and a few facts on lists and
  words. The collection \<open>buf_simps\<close> holds the rewriting rules for buffers.

  A computation of type \<^typ>\<open>'a option\<close> that models C code returns \<^const>\<open>None\<close> exactly where
  the process would abort or leave the memory it owns: a failed \<open>assert\<close> or a read or write
  outside of the buffer. A theorem that such a function returns \<^const>\<open>Some\<close> is therefore also a
  statement of memory safety.
\<close>

named_theorems buf_simps \<open>reads and writes of buffers\<close>

type_synonym byte = "8 word"
type_synonym bytes = "byte list"
type_synonym u32 = "32 word"
type_synonym u64 = "64 word"

text \<open>The bytes of a C string literal, without its terminator.\<close>

definition asc :: "string \<Rightarrow> bytes" where
  "asc s = map of_char s"

text \<open>Ranges of the fixed-width signed types.\<close>

definition int16_range :: "int \<Rightarrow> bool" where
  "int16_range v \<longleftrightarrow> - (2 ^ 15) \<le> v \<and> v < 2 ^ 15"

definition int32_range :: "int \<Rightarrow> bool" where
  "int32_range v \<longleftrightarrow> - (2 ^ 31) \<le> v \<and> v < 2 ^ 31"

definition int64_range :: "int \<Rightarrow> bool" where
  "int64_range v \<longleftrightarrow> - (2 ^ 63) \<le> v \<and> v < 2 ^ 63"

text \<open>\<open>tolower\<close> of the C locale, on one byte.\<close>

definition tolower :: "byte \<Rightarrow> byte" where
  "tolower c = (if 65 \<le> c \<and> c \<le> 90 then c + 32 else c)"

subsection \<open>Buffers\<close>

definition get_at :: "'a list \<Rightarrow> nat \<Rightarrow> 'a option" where
  "get_at xs i = (if i < length xs then Some (xs ! i) else None)"

definition put_at :: "'a list \<Rightarrow> int \<Rightarrow> 'a \<Rightarrow> 'a list option" where
  "put_at xs i x = (if 0 \<le> i \<and> nat i < length xs then Some (xs[nat i := x]) else None)"

text \<open>
  \<open>memcpy\<close> of \<open>src\<close> into \<open>buf\<close> at offset \<open>off\<close>, \<open>memmove\<close> of \<open>n\<close> bytes inside one
  buffer (the source is read before anything is written), and \<open>realloc\<close> of a buffer to a new
  size (fresh bytes read as \<open>z\<close>).
\<close>

definition memcpy :: "'a list \<Rightarrow> nat \<Rightarrow> 'a list \<Rightarrow> 'a list" where
  "memcpy buf off src = take off buf @ src @ drop (off + length src) buf"

definition memmove :: "'a list \<Rightarrow> nat \<Rightarrow> nat \<Rightarrow> nat \<Rightarrow> 'a list" where
  "memmove buf dst src n = memcpy buf dst (take n (drop src buf))"

definition realloc :: "'a \<Rightarrow> 'a list \<Rightarrow> nat \<Rightarrow> 'a list" where
  "realloc z buf n = take n buf @ replicate (n - length buf) z"

lemma get_at_Some [simp]: "i < length xs \<Longrightarrow> get_at xs i = Some (xs ! i)"
  by (simp add: get_at_def)

lemma get_at_None [simp]: "length xs \<le> i \<Longrightarrow> get_at xs i = None"
  by (simp add: get_at_def)

lemma get_at_eq_Some: "get_at xs i = Some x \<longleftrightarrow> i < length xs \<and> xs ! i = x"
  by (auto simp: get_at_def)

lemma length_memcpy [simp]:
  "off + length src \<le> length buf \<Longrightarrow> length (memcpy buf off src) = length buf"
  by (simp add: memcpy_def)

lemma length_memmove [simp]:
  "dst + n \<le> length buf \<Longrightarrow> src + n \<le> length buf \<Longrightarrow> length (memmove buf dst src n) = length buf"
  by (simp add: memmove_def)

lemma length_realloc [simp]: "length (realloc z buf n) = n"
  by (simp add: realloc_def)

lemma nth_memcpy:
  assumes "off + length src \<le> length buf" and "i < length buf"
  shows "memcpy buf off src ! i =
    (if off \<le> i \<and> i < off + length src then src ! (i - off) else buf ! i)"
  using assms by (auto simp: memcpy_def nth_append min_def)

lemma nth_realloc: "i < n \<Longrightarrow> i < length buf \<Longrightarrow> realloc z buf n ! i = buf ! i"
  by (simp add: realloc_def nth_append)

lemma realloc_same [simp]: "realloc z buf (length buf) = buf"
  by (simp add: realloc_def)

lemma take_realloc: "k \<le> n \<Longrightarrow> k \<le> length buf \<Longrightarrow> take k (realloc z buf n) = take k buf"
  by (simp add: realloc_def min_def)

lemma memcpy_append_mid [buf_simps]:
  "length mid = length src \<Longrightarrow> memcpy (pre @ mid @ post) (length pre) src = pre @ src @ post"
  by (simp add: memcpy_def)

lemma memcpy_at [buf_simps]:
  "off = length pre \<Longrightarrow> length mid = length src \<Longrightarrow> memcpy (pre @ mid @ post) off src = pre @ src @ post"
  by (simp add: memcpy_def)

subsection \<open>Little-endian integers\<close>

text \<open>
  \<open>put_le n v\<close> is the two's complement of \<open>v\<close> on \<open>n\<close> bytes, low byte first; \<open>get_le\<close>
  reads bytes back as an unsigned number and \<open>get_le_signed\<close> as a signed one.
\<close>

primrec put_le :: "nat \<Rightarrow> int \<Rightarrow> bytes" where
  "put_le 0 v = []"
| "put_le (Suc n) v = word_of_int v # put_le n (v div 256)"

primrec get_le :: "bytes \<Rightarrow> int" where
  "get_le [] = 0"
| "get_le (b # bs) = uint b + 256 * get_le bs"

definition get_le_signed :: "bytes \<Rightarrow> int" where
  "get_le_signed bs = signed_take_bit (8 * length bs - 1) (get_le bs)"

lemma length_put_le [simp]: "length (put_le n v) = n"
  by (induction n arbitrary: v) auto

lemma get_le_put_le: "get_le (put_le n v) = v mod 256 ^ n"
proof (induction n arbitrary: v)
  case (Suc n)
  have "v mod 256 ^ Suc n = v mod 256 + 256 * (v div 256 mod 256 ^ n)"
    using mod_mult2_eq' [of v 256 "256 ^ n"] by (simp add: zmod_zmult2_eq)
  with Suc show ?case
    by (simp add: uint_word_of_int)
qed simp

lemma get_le_bounds: "0 \<le> get_le bs" "get_le bs < 256 ^ length bs"
proof (induction bs)
  case (Cons b bs)
  have "uint b < 256" using uint_lt2p [of b] by simp
  then show "0 \<le> get_le (b # bs)" "get_le (b # bs) < 256 ^ length (b # bs)"
    using Cons by auto
qed auto

lemma get_le_signed_put_le:
  assumes "0 < n" and "- (2 ^ (8 * n - 1)) \<le> v" and "v < 2 ^ (8 * n - 1)"
  shows "get_le_signed (put_le n v) = v"
proof -
  have "256 ^ n = (2::int) ^ (8 * n)"
    by (simp add: power_mult)
  then have "get_le_signed (put_le n v) = signed_take_bit (8 * n - 1) (take_bit (8 * n) v)"
    by (simp add: get_le_signed_def get_le_put_le take_bit_eq_mod)
  also have "\<dots> = signed_take_bit (8 * n - 1) v"
    using assms(1) by (cases n) (simp_all add: signed_take_bit_take_bit)
  also have "\<dots> = v"
    using assms by (simp add: signed_take_bit_int_eq_self)
  finally show ?thesis .
qed

lemma byte_of_int_low: "(word_of_int (a + 256 * b) :: byte) = word_of_int a"
  by (simp add: word_of_int_eq_iff take_bit_eq_mod del: of_int_add of_int_mult)

lemma put_le_mod: "put_le n (v mod 256 ^ n) = put_le n v"
proof (induction n arbitrary: v)
  case (Suc n)
  have "v mod 256 ^ Suc n = v mod 256 + 256 * (v div 256 mod 256 ^ n)"
    using mod_mult2_eq' [of v 256 "256 ^ n"] by (simp add: zmod_zmult2_eq)
  moreover have "(word_of_int (v mod 256) :: byte) = word_of_int v"
    by (simp add: word_of_int_eq_iff take_bit_eq_mod)
  ultimately show ?case
    using Suc [of "v div 256"] by (simp add: byte_of_int_low del: of_int_add of_int_mult)
qed simp

lemma put_le_get_le: "put_le (length bs) (get_le bs) = bs"
proof (induction bs)
  case (Cons b bs)
  have "uint b < 256" using uint_lt2p [of b] by simp
  with Cons show ?case by (simp add: byte_of_int_low del: of_int_add of_int_mult)
qed simp

lemma put_le_get_le_signed:
  assumes "bs \<noteq> []"
  shows "put_le (length bs) (get_le_signed bs) = bs"
proof -
  let ?n = "length bs"
  have n: "8 * ?n \<le> Suc (8 * ?n - 1)" "0 < ?n" using assms by (cases bs; simp)+
  have "take_bit (8 * ?n) (get_le_signed bs) = take_bit (8 * ?n) (get_le bs)"
    unfolding get_le_signed_def by (rule take_bit_signed_take_bit [OF n(1)])
  then have "get_le_signed bs mod 256 ^ ?n = get_le bs mod 256 ^ ?n"
    by (simp add: take_bit_eq_mod power_mult)
  then show ?thesis using put_le_mod [of ?n "get_le_signed bs"] put_le_mod [of ?n "get_le bs"]
    by (simp add: put_le_get_le)
qed

lemma get_le_signed_range:
  assumes "bs \<noteq> []"
  shows "- (2 ^ (8 * length bs - 1)) \<le> get_le_signed bs" and "get_le_signed bs < 2 ^ (8 * length bs - 1)"
  unfolding get_le_signed_def
  by (rule signed_take_bit_int_greater_eq_minus_exp, rule signed_take_bit_int_less_exp)

subsection \<open>Words\<close>

lemma unat_byte_less: "unat (c :: byte) < 256"
  using unsigned_less [of c, where 'a = nat] by simp

lemma unat_ucast_u64 [simp]: "unat (ucast (c :: byte) :: u64) = unat c"
  using unat_byte_less [of c] by (simp add: unsigned_ucast_eq take_bit_nat_eq_self_iff)

lemma unat_ucast_u32 [simp]: "unat (ucast (c :: byte) :: u32) = unat c"
  using unat_byte_less [of c] by (simp add: unsigned_ucast_eq take_bit_nat_eq_self_iff)

lemma unat_of_nat_u64: "n < 2 ^ 64 \<Longrightarrow> unat (of_nat n :: u64) = n"
  by (simp add: unat_of_nat)

lemma unat_of_nat_u32: "n < 2 ^ 32 \<Longrightarrow> unat (of_nat n :: u32) = n"
  by (simp add: unat_of_nat)

lemma sint_word_of_int_u64: "int64_range v \<Longrightarrow> sint (word_of_int v :: u64) = v"
  by (simp add: int64_range_def sint_sbintrunc' signed_take_bit_int_eq_self)

lemma int64_range_nat:
  "n \<le> 2 ^ 63 \<Longrightarrow> int64_range (- int n)" "n < 2 ^ 63 \<Longrightarrow> int64_range (int n)"
  by (simp_all add: int64_range_def)

lemma sint_neg_u64: "unat v \<le> 2 ^ 63 \<Longrightarrow> sint (- v :: u64) = - int (unat v)"
  using sint_word_of_int_u64 [OF int64_range_nat(1), of "unat v"] by simp

lemma sint_pos_u64: "unat v < 2 ^ 63 \<Longrightarrow> sint (v :: u64) = int (unat v)"
  using sint_word_of_int_u64 [OF int64_range_nat(2), of "unat v"] by simp

subsection \<open>Lists\<close>

lemma take_drop_append: "take n xs @ drop n xs = xs"
  by (rule append_take_drop_id)

lemma sorted_wrt_nth_less_iff:
  "sorted_wrt (<) (xs :: 'a :: linorder list) \<Longrightarrow> i < length xs \<Longrightarrow> j < length xs \<Longrightarrow>
    xs ! i < xs ! j \<longleftrightarrow> i < j"
  by (metis linorder_neqE_nat order_less_asym sorted_wrt_nth_less)

end
