(* ===== verification/Interfaces.thy ===== *)
theory Interfaces
  imports Prelude
begin

text \<open>
  The contracts that one part of the server relies on and another provides. A provider's operations
  are the parameters; \<open>None\<close> is a failed assertion or an access outside the memory block, so the
  laws state that the operations of a well-formed structure never fail.

  \<^item> \<open>set_store\<close>: the contract of a set of elements (\<open>intset.c\<close> behind \<open>setTypeAdd\<close>,
    \<open>setTypeRemove\<close> and \<open>setTypeIsMember\<close>).
  \<^item> \<open>map_store\<close>: the contract of a dictionary from keys to values, where keys with the same class
    \<open>canon\<close> are the same key (\<open>dict.c\<close> behind the keyspace and the hash type).
\<close>

locale set_store =
  fixes ok :: "'s \<Rightarrow> bool" and elems :: "'s \<Rightarrow> 'a set" and admits :: "'s \<Rightarrow> 'a \<Rightarrow> bool"
    and add :: "'s \<Rightarrow> 'a \<Rightarrow> ('s \<times> bool) option"
    and rem :: "'s \<Rightarrow> 'a \<Rightarrow> ('s \<times> bool) option"
    and mem :: "'s \<Rightarrow> 'a \<Rightarrow> bool option"
  assumes add_law: "ok s \<Longrightarrow> admits s x \<Longrightarrow>
      \<exists>s'. add s x = Some (s', x \<notin> elems s) \<and> ok s' \<and> elems s' = insert x (elems s)"
    and rem_law: "ok s \<Longrightarrow> \<exists>s'. rem s x = Some (s', x \<in> elems s) \<and> ok s' \<and> elems s' = elems s - {x}"
    and mem_law: "ok s \<Longrightarrow> mem s x = Some (x \<in> elems s)"
begin

lemma add_then_mem:
  assumes "ok s" and "admits s x"
  shows "do { (s', b) \<leftarrow> add s x; mem s' y } = Some (y = x \<or> y \<in> elems s)"
proof -
  obtain s' where "add s x = Some (s', x \<notin> elems s)" "ok s'" "elems s' = insert x (elems s)"
    using add_law [OF assms] by blast
  then show ?thesis by (simp add: mem_law)
qed

lemma rem_then_mem:
  assumes "ok s"
  shows "do { (s', b) \<leftarrow> rem s x; mem s' y } = Some (y \<noteq> x \<and> y \<in> elems s)"
proof -
  obtain s' where "rem s x = Some (s', x \<in> elems s)" "ok s'" "elems s' = elems s - {x}"
    using rem_law [OF assms, of x] by blast
  then show ?thesis by (auto simp: mem_law)
qed

lemma add_then_rem:
  assumes "ok s" and "admits s x" and "x \<notin> elems s"
  shows "\<exists>s1 s2. add s x = Some (s1, True) \<and> rem s1 x = Some (s2, True) \<and> ok s2 \<and> elems s2 = elems s"
proof -
  obtain s1 where s1: "add s x = Some (s1, True)" "ok s1" "elems s1 = insert x (elems s)"
    using add_law [OF assms(1,2)] assms(3) by (elim exE conjE) simp
  then obtain s2 where "rem s1 x = Some (s2, True)" "ok s2" "elems s2 = elems s"
    using rem_law [OF s1(2), of x] assms(3) by auto
  then show ?thesis using s1 by blast
qed

end

locale map_store =
  fixes ok :: "'s \<Rightarrow> bool" and view :: "'s \<Rightarrow> 'c \<Rightarrow> 'v option" and admits :: "'s \<Rightarrow> bool"
    and okkey :: "'k \<Rightarrow> bool" and canon :: "'k \<Rightarrow> 'c"
    and find :: "'s \<Rightarrow> 'k \<Rightarrow> ('s \<times> 'v option) option"
    and replace :: "'s \<Rightarrow> 'k \<Rightarrow> 'v \<Rightarrow> ('s \<times> bool) option"
    and delete :: "'s \<Rightarrow> 'k \<Rightarrow> ('s \<times> 'r) option" and found :: "'r \<Rightarrow> bool"
  assumes find_law: "ok s \<Longrightarrow> okkey k \<Longrightarrow> \<exists>s'. find s k = Some (s', view s (canon k)) \<and> ok s' \<and> view s' = view s"
    and replace_law: "ok s \<Longrightarrow> okkey k \<Longrightarrow> admits s \<Longrightarrow>
      \<exists>s'. replace s k v = Some (s', view s (canon k) = None) \<and> ok s' \<and> view s' = (view s)(canon k \<mapsto> v)"
    and delete_law: "ok s \<Longrightarrow> okkey k \<Longrightarrow>
      \<exists>s' r. delete s k = Some (s', r) \<and> found r = (view s (canon k) \<noteq> None) \<and> ok s' \<and> view s' = (view s)(canon k := None)"
begin

lemma replace_then_find:
  assumes "ok s" and "okkey k" and "okkey k'" and "admits s"
  shows "do { (s', b) \<leftarrow> replace s k v; map_option snd (find s' k') } =
    Some (if canon k' = canon k then Some v else view s (canon k'))"
proof -
  obtain s' where s': "replace s k v = Some (s', view s (canon k) = None)" "ok s'" "view s' = (view s)(canon k \<mapsto> v)"
    using replace_law [OF assms(1,2,4)] by blast
  obtain s'' where "find s' k' = Some (s'', view s' (canon k'))" using find_law [OF s'(2) assms(3)] by blast
  then show ?thesis using s' by simp
qed

lemma delete_then_find:
  assumes "ok s" and "okkey k" and "okkey k'"
  shows "do { (s', r) \<leftarrow> delete s k; map_option snd (find s' k') } =
    Some (if canon k' = canon k then None else view s (canon k'))"
proof -
  obtain s' r where s': "delete s k = Some (s', r)" "ok s'" "view s' = (view s)(canon k := None)"
    using delete_law [OF assms(1,2)] by blast
  obtain s'' where "find s' k' = Some (s'', view s' (canon k'))" using find_law [OF s'(2) assms(3)] by blast
  then show ?thesis using s' by simp
qed

end

end
