(* ===== verification/Intset.thy ===== *)
theory Intset
  imports Interfaces
begin

section \<open>Integer sets (\<open>intset.c\<close>)\<close>

text \<open>
  Models \<open>redis/redis-6.2.7/src/intset.c\<close>: the sorted array of 16, 32 or 64 bit integers that
  stores small sets. The record holds the header fields (the values after \<open>intrev32ifbe\<close>) and the
  bytes of \<open>contents\<close>, which are little endian on every host. An \<open>int64_t\<close> is an \<^typ>\<open>int\<close> in
  range. A read or write outside of \<open>contents\<close> and a failed \<open>assert\<close> are \<^const>\<open>None\<close>.
\<close>

record intset =
  is_encoding :: u32
  is_length :: u32
  is_contents :: bytes

abbreviation "INTSET_ENC_INT16 \<equiv> 2 :: u32"
abbreviation "INTSET_ENC_INT32 \<equiv> 4 :: u32"
abbreviation "INTSET_ENC_INT64 \<equiv> 8 :: u32"

definition intsetValueEncoding :: "int \<Rightarrow> u32" where
  "intsetValueEncoding v =
    (if v < - (2 ^ 31) \<or> v > 2 ^ 31 - 1 then INTSET_ENC_INT64
     else if v < - (2 ^ 15) \<or> v > 2 ^ 15 - 1 then INTSET_ENC_INT32
     else INTSET_ENC_INT16)"

text \<open>The three branches of the accessors differ in the width of the element type only.\<close>

definition enc_width :: "u32 \<Rightarrow> nat" where
  "enc_width enc = (if enc = INTSET_ENC_INT64 then 8 else if enc = INTSET_ENC_INT32 then 4 else 2)"

definition intsetGetEncoded :: "intset \<Rightarrow> int \<Rightarrow> u32 \<Rightarrow> int option" where
  "intsetGetEncoded is pos enc =
    (let w = enc_width enc; off = nat pos * w
     in if 0 \<le> pos \<and> off + w \<le> length (is_contents is)
        then Some (get_le_signed (take w (drop off (is_contents is)))) else None)"

definition intsetGetRaw :: "intset \<Rightarrow> int \<Rightarrow> int option" where
  "intsetGetRaw is pos = intsetGetEncoded is pos (is_encoding is)"

definition intsetSet :: "intset \<Rightarrow> int \<Rightarrow> int \<Rightarrow> intset option" where
  "intsetSet is pos value =
    (let w = enc_width (is_encoding is); off = nat pos * w
     in if 0 \<le> pos \<and> off + w \<le> length (is_contents is)
        then Some (is\<lparr>is_contents := memcpy (is_contents is) off (put_le w value)\<rparr>) else None)"

definition intsetNew :: intset where
  "intsetNew = \<lparr>is_encoding = INTSET_ENC_INT16, is_length = 0, is_contents = []\<rparr>"

definition intsetResize :: "intset \<Rightarrow> u32 \<Rightarrow> intset option" where
  "intsetResize is len =
    (let size = unat len * unat (is_encoding is)
     in if size \<le> 2 ^ 64 - 1 - 8
        then Some (is\<lparr>is_contents := realloc 0 (is_contents is) size\<rparr>) else None)"

text \<open>
  \<open>intsetSearch\<close>: whether the value was found, and the position. The loop returns \<open>min\<close> (here \<open>mn\<close>),
  \<open>mid\<close> and \<open>cur\<close> at its exit; \<open>mid\<close> is computed on \<open>unsigned int\<close>.
\<close>

partial_function (option) intsetSearch_loop ::
  "intset \<Rightarrow> int \<Rightarrow> int \<Rightarrow> int \<Rightarrow> int \<Rightarrow> int \<Rightarrow> (int \<times> int \<times> int) option" where
  "intsetSearch_loop is value mn mx mid cur =
    (if mx \<ge> mn then do {
       let mid = uint (drop_bit 1 (word_of_int mn + word_of_int mx :: u32));
       cur \<leftarrow> intsetGetRaw is mid;
       if value > cur then intsetSearch_loop is value (mid + 1) mx mid cur
       else if value < cur then intsetSearch_loop is value mn (mid - 1) mid cur
       else Some (mn, mid, cur)
     } else Some (mn, mid, cur))"

definition intsetSearch :: "intset \<Rightarrow> int \<Rightarrow> (bool \<times> u32) option" where
  "intsetSearch is value =
    (let mx = sint (is_length is - 1)
     in if is_length is = 0 then Some (False, 0)
     else do {
       last \<leftarrow> intsetGetRaw is mx;
       if value > last then Some (False, is_length is)
       else do {
         first \<leftarrow> intsetGetRaw is 0;
         if value < first then Some (False, 0)
         else do {
           (mn, mid, cur) \<leftarrow> intsetSearch_loop is value 0 mx (- 1) (- 1);
           Some (if value = cur then (True, word_of_int mid) else (False, word_of_int mn))
         }
       }
     })"

fun intsetUpgrade_loop :: "intset \<Rightarrow> nat \<Rightarrow> int \<Rightarrow> u32 \<Rightarrow> intset option" where
  "intsetUpgrade_loop is 0 prepend curenc = Some is"
| "intsetUpgrade_loop is (Suc len) prepend curenc = do {
     v \<leftarrow> intsetGetEncoded is (int len) curenc;
     is \<leftarrow> intsetSet is (int len + prepend) v;
     intsetUpgrade_loop is len prepend curenc }"

definition intsetUpgradeAndAdd :: "intset \<Rightarrow> int \<Rightarrow> intset option" where
  "intsetUpgradeAndAdd is value = do {
     let curenc = is_encoding is;
     let newenc = intsetValueEncoding value;
     let len = unat (is_length is);
     let prepend = (if value < 0 then 1 else 0);
     is \<leftarrow> intsetResize (is\<lparr>is_encoding := newenc\<rparr>) (is_length is + 1);
     is \<leftarrow> intsetUpgrade_loop is len prepend curenc;
     is \<leftarrow> (if prepend \<noteq> 0 then intsetSet is 0 value
           else intsetSet is (uint (is_length is)) value);
     Some (is\<lparr>is_length := is_length is + 1\<rparr>) }"

text \<open>\<open>intsetMoveTail\<close>: the number of bytes to move is a \<open>uint32_t\<close>.\<close>

definition intsetMoveTail :: "intset \<Rightarrow> u32 \<Rightarrow> u32 \<Rightarrow> intset option" where
  "intsetMoveTail is from to =
    (let w = enc_width (is_encoding is);
         bytes = unat ((is_length is - from) * of_nat w);
         src = unat from * w; dst = unat to * w
     in if src + bytes \<le> length (is_contents is) \<and> dst + bytes \<le> length (is_contents is)
        then Some (is\<lparr>is_contents := memmove (is_contents is) dst src bytes\<rparr>) else None)"

definition intsetAdd :: "intset \<Rightarrow> int \<Rightarrow> (intset \<times> bool) option" where
  "intsetAdd is value =
    (let valenc = intsetValueEncoding value
     in if valenc > is_encoding is then do {
       is \<leftarrow> intsetUpgradeAndAdd is value;
       Some (is, True)
     } else do {
       (found, pos) \<leftarrow> intsetSearch is value;
       if found then Some (is, False)
       else do {
         is \<leftarrow> intsetResize is (is_length is + 1);
         is \<leftarrow> (if pos < is_length is then intsetMoveTail is pos (pos + 1) else Some is);
         is \<leftarrow> intsetSet is (uint pos) value;
         Some (is\<lparr>is_length := is_length is + 1\<rparr>, True)
       }
     })"

definition intsetRemove :: "intset \<Rightarrow> int \<Rightarrow> (intset \<times> bool) option" where
  "intsetRemove is value =
    (let valenc = intsetValueEncoding value
     in if valenc \<le> is_encoding is then do {
       (found, pos) \<leftarrow> intsetSearch is value;
       if found then do {
         let len = is_length is;
         is \<leftarrow> (if pos < len - 1 then intsetMoveTail is (pos + 1) pos else Some is);
         is \<leftarrow> intsetResize is (len - 1);
         Some (is\<lparr>is_length := len - 1\<rparr>, True)
       } else Some (is, False)
     } else Some (is, False))"

definition intsetFind :: "intset \<Rightarrow> int \<Rightarrow> bool option" where
  "intsetFind is value =
    (let valenc = intsetValueEncoding value
     in if valenc \<le> is_encoding is then map_option fst (intsetSearch is value) else Some False)"

text \<open>\<open>intsetRandom\<close> with the value of \<open>rand()\<close> as a parameter.\<close>

definition intsetRandom :: "nat \<Rightarrow> intset \<Rightarrow> int option" where
  "intsetRandom rand is =
    (let len = unat (is_length is)
     in if len \<noteq> 0 then intsetGetRaw is (int (rand mod len)) else None)"

text \<open>\<open>intsetGet\<close>: \<open>Some None\<close> where the C function returns 0.\<close>

definition intsetGet :: "intset \<Rightarrow> u32 \<Rightarrow> int option option" where
  "intsetGet is pos = (if pos < is_length is then map_option Some (intsetGetRaw is (uint pos)) else Some None)"

definition intsetLen :: "intset \<Rightarrow> u32" where
  "intsetLen is = is_length is"





subsection \<open>Arrays of fixed-width integers\<close>

definition enc_vals :: "nat \<Rightarrow> int list \<Rightarrow> bytes" where
  "enc_vals w vs = concat (map (put_le w) vs)"

definition fits :: "nat \<Rightarrow> int \<Rightarrow> bool" where
  "fits w v \<longleftrightarrow> - (2 ^ (8 * w - 1)) \<le> v \<and> v < 2 ^ (8 * w - 1)"

lemma enc_vals_simps [simp]:
  "enc_vals w [] = []"
  "enc_vals w (v # vs) = put_le w v @ enc_vals w vs"
  "enc_vals w (us @ vs) = enc_vals w us @ enc_vals w vs"
  by (simp_all add: enc_vals_def)

lemma length_enc_vals [simp]: "length (enc_vals w vs) = length vs * w"
  by (induction vs) auto

lemma drop_enc_vals: "drop (i * w) (enc_vals w vs) = enc_vals w (drop i vs)"
proof (cases "i \<le> length vs")
  case True
  have "enc_vals w vs = enc_vals w (take i vs) @ enc_vals w (drop i vs)"
    by (simp flip: enc_vals_simps)
  with True show ?thesis by (simp add: min_def)
qed simp

lemma take_enc_vals: "take (i * w) (enc_vals w vs) = enc_vals w (take i vs)"
proof (cases "i \<le> length vs")
  case True
  have "enc_vals w vs = enc_vals w (take i vs) @ enc_vals w (drop i vs)"
    by (simp flip: enc_vals_simps)
  with True show ?thesis by (simp add: min_def)
qed simp

lemma chunk_enc_vals: "i < length vs \<Longrightarrow> take w (drop (i * w) (enc_vals w vs)) = put_le w (vs ! i)"
  by (simp add: drop_enc_vals Cons_nth_drop_Suc [symmetric])

lemma get_fits: "0 < w \<Longrightarrow> fits w v \<Longrightarrow> get_le_signed (put_le w v) = v"
  by (rule get_le_signed_put_le) (auto simp: fits_def)

lemma fits_mono: "fits w v \<Longrightarrow> w \<le> w' \<Longrightarrow> fits w' v"
proof -
  assume "fits w v" "w \<le> w'"
  moreover have "(2::int) ^ (8 * w - 1) \<le> 2 ^ (8 * w' - 1)"
    using \<open>w \<le> w'\<close> by (intro power_increasing) auto
  ultimately show ?thesis unfolding fits_def by linarith
qed

lemma sint_of_unat_u32:
  assumes "unat w = n" and "n < 2 ^ 31"
  shows "sint (w :: u32) = int n"
proof -
  have "sint (word_of_int (int n) :: u32) = int n"
    unfolding sint_sbintrunc' using assms(2) by (simp add: signed_take_bit_int_eq_self)
  moreover have "word_of_int (int n) = w"
    using assms(1) by auto
  ultimately show ?thesis by simp
qed

subsection \<open>Representation\<close>

text \<open>
  \<open>intset_rep is vs\<close>: the intset holds the strictly increasing list \<open>vs\<close>, each value
  representable in the encoding. The array is smaller than \<open>2^32\<close> bytes, the bound under which
  the 32 bit byte count of \<open>intsetMoveTail\<close> is exact.
\<close>

definition intset_rep :: "intset \<Rightarrow> int list \<Rightarrow> bool" where
  "intset_rep is vs \<longleftrightarrow>
    is_encoding is \<in> {INTSET_ENC_INT16, INTSET_ENC_INT32, INTSET_ENC_INT64} \<and>
    unat (is_length is) = length vs \<and>
    is_contents is = enc_vals (enc_width (is_encoding is)) vs \<and>
    list_all (fits (enc_width (is_encoding is))) vs \<and>
    sorted_wrt (<) vs \<and>
    length vs * enc_width (is_encoding is) < 2 ^ 32"

lemma enc_width_cases: "enc_width enc \<in> {2, 4, 8}"
  by (simp add: enc_width_def)

lemma enc_width_pos [simp]: "0 < enc_width enc"
  by (simp add: enc_width_def)

lemma enc_width_unat:
  "enc \<in> {INTSET_ENC_INT16, INTSET_ENC_INT32, INTSET_ENC_INT64} \<Longrightarrow> enc_width enc = unat enc"
  by (auto simp: enc_width_def)

lemma intset_rep_unat: "intset_rep s vs \<Longrightarrow> unat (is_length s) = length vs"
  by (simp add: intset_rep_def)

lemma intset_rep_len:
  assumes "intset_rep is vs"
  shows "length vs < 2 ^ 31"
proof -
  have "length vs * 2 \<le> length vs * enc_width (is_encoding is)"
    using enc_width_cases [of "is_encoding is"] by (intro mult_le_mono2) auto
  also have "\<dots> < 2 ^ 31 * 2"
    using assms by (simp add: intset_rep_def)
  finally show ?thesis by (simp only: mult_less_cancel2)
qed

lemma intsetGetEncoded_enc:
  assumes "is_contents is = enc_vals (enc_width enc) vs @ rest" and "i < length vs"
    and "fits (enc_width enc) (vs ! i)"
  shows "intsetGetEncoded is (int i) enc = Some (vs ! i)"
proof -
  let ?w = "enc_width enc"
  have le: "i * ?w + ?w \<le> length vs * ?w"
    using assms(2) by (metis Suc_leI add.commute mult_Suc mult_le_mono1)
  have "take ?w (drop (i * ?w) (enc_vals ?w vs @ rest)) = put_le ?w (vs ! i)"
    using le chunk_enc_vals [OF assms(2), of ?w] by simp
  then show ?thesis
    using assms le by (simp add: intsetGetEncoded_def Let_def get_fits)
qed

lemma intsetGetRaw_rep:
  "intset_rep is vs \<Longrightarrow> i < length vs \<Longrightarrow> intsetGetRaw is (int i) = Some (vs ! i)"
  unfolding intsetGetRaw_def
  by (rule intsetGetEncoded_enc [where rest = "[]"]) (auto simp: intset_rep_def list_all_length)

subsection \<open>Binary search\<close>

lemma mid_word:
  assumes "0 \<le> mn" "mn < 2 ^ 31" "0 \<le> mx" "mx < 2 ^ 31"
  shows "uint (drop_bit (Suc 0) (word_of_int mn + word_of_int mx :: u32)) = (mn + mx) div 2"
  using assms
  by (simp add: unsigned_drop_bit_eq uint_word_ariths uint_word_of_int) (simp add: drop_bit_eq_div take_bit_eq_mod)

lemma intsetSearch_loop_correct:
  assumes rep: "intset_rep is vs"
    and "0 \<le> mn" "mx < int (length vs)" "mn \<le> mx + 1"
    and "\<And>i. i < length vs \<Longrightarrow> int i < mn \<Longrightarrow> vs ! i < v"
    and "\<And>i. i < length vs \<Longrightarrow> mx < int i \<Longrightarrow> v < vs ! i"
    and "mx < mn \<Longrightarrow> cur \<noteq> v"
  shows "\<exists>mn' mid' cur'. intsetSearch_loop is v mn mx mid cur = Some (mn', mid', cur') \<and>
    (if v \<in> set vs then cur' = v \<and> 0 \<le> mid' \<and> mid' < int (length vs) \<and> vs ! nat mid' = v
     else cur' \<noteq> v \<and> 0 \<le> mn' \<and> mn' \<le> int (length vs) \<and>
       (\<forall>i < length vs. if int i < mn' then vs ! i < v else v < vs ! i))"
  using assms(2-)
proof (induction "nat (mx - mn + 1)" arbitrary: mn mx mid cur rule: less_induct)
  case less
  note sorted = sorted_wrt_nth_less_iff [of vs]
  show ?case
  proof (cases "mx < mn")
    case True
    with less.prems have "v \<notin> set vs"
      by (force simp: in_set_conv_nth)
    moreover have "intsetSearch_loop is v mn mx mid cur = Some (mn, mid, cur)"
      using True by (subst intsetSearch_loop.simps) simp
    ultimately show ?thesis
      using less.prems True by auto
  next
    case False
    let ?m = "(mn + mx) div 2"
    have m: "mn \<le> ?m" "?m \<le> mx" using False by auto
    have rng: "mn < 2 ^ 31" "mx < 2 ^ 31"
      using False less.prems intset_rep_len [OF rep] by auto
    have get: "intsetGetRaw is ?m = Some (vs ! nat ?m)"
      using intsetGetRaw_rep [OF rep, of "nat ?m"] m less.prems by simp
    have sorted: "sorted_wrt (<) vs" using rep by (simp add: intset_rep_def)
    have step: "intsetSearch_loop is v mn mx mid cur =
        (let cur = vs ! nat ?m in
         if v > cur then intsetSearch_loop is v (?m + 1) mx ?m cur
         else if v < cur then intsetSearch_loop is v mn (?m - 1) ?m cur
         else Some (mn, ?m, cur))"
      using False rng less.prems
      by (subst intsetSearch_loop.simps) (simp add: mid_word get Let_def)
    consider "v > vs ! nat ?m" | "v < vs ! nat ?m" | "v = vs ! nat ?m" by linarith
    then show ?thesis
    proof cases
      case 1
      have "vs ! i < v" if "i < length vs" "int i < ?m + 1" for i
      proof (cases "i = nat ?m")
        case False
        with that have "i < nat ?m" by linarith
        then have "vs ! i < vs ! nat ?m"
          using m less.prems by (intro sorted_wrt_nth_less [OF sorted]) linarith+
        with 1 show ?thesis by simp
      qed (use 1 in simp)
      then show ?thesis
        unfolding step Let_def if_P [OF 1]
      proof (intro less.hyps, goal_cases)
        case 7
        show ?case using 1 by simp
      qed (use m less.prems False in simp_all)
    next
      case 2
      have "v < vs ! i" if "i < length vs" "?m - 1 < int i" for i
      proof (cases "i = nat ?m")
        case False
        with that have "nat ?m < i" using m less.prems by linarith
        then have "vs ! nat ?m < vs ! i"
          using that by (intro sorted_wrt_nth_less [OF sorted])
        with 2 show ?thesis by simp
      qed (use 2 in simp)
      then show ?thesis
        unfolding step Let_def if_P [OF 2] if_not_P [OF not_less_iff_gr_or_eq [THEN iffD2, OF disjI1 [OF 2]]]
      proof (intro less.hyps, goal_cases)
        case 7
        show ?case using 2 by simp
      qed (use m less.prems False in simp_all)
    next
      case 3
      have "nat ?m < length vs" using m less.prems by linarith
      with 3 have "v \<in> set vs" by simp
      with 3 show ?thesis unfolding step using m less.prems by auto
    qed
  qed
qed

text \<open>
  The position \<open>intsetSearch\<close> reports: where the value is, or where it has to be inserted.
\<close>

lemma intset_rep_last_index:
  assumes "intset_rep is vs" and "vs \<noteq> []"
  shows "sint (is_length is - 1) = int (length vs - 1)" and "is_length is \<noteq> 0"
proof -
  have len: "unat (is_length is) = length vs" "0 < length vs"
    using assms by (auto simp: intset_rep_def)
  then show "is_length is \<noteq> 0" by auto
  then have "unat (is_length is - 1) = length vs - 1"
    using len by (subst unat_sub) (simp_all add: word_le_nat_alt Suc_le_eq)
  moreover have "length vs - 1 < 2 ^ 31"
    using intset_rep_len [OF assms(1)] by simp
  ultimately show "sint (is_length is - 1) = int (length vs - 1)"
    by (rule sint_of_unat_u32)
qed

lemma intsetSearch_correct:
  assumes rep: "intset_rep is vs"
  shows "\<exists>pos. intsetSearch is v = Some (v \<in> set vs, of_nat pos) \<and> pos \<le> length vs \<and>
    (if v \<in> set vs then pos < length vs \<and> vs ! pos = v
     else (\<forall>i < length vs. if i < pos then vs ! i < v else v < vs ! i))"
proof (cases "vs = []")
  case True
  with rep have "is_length is = 0" by (simp add: intset_rep_def unat_eq_0)
  then show ?thesis using True by (simp add: intsetSearch_def)
next
  case False
  let ?n = "length vs"
  have n: "0 < ?n" using False by simp
  note len = intset_rep_last_index [OF rep False]
  have sorted: "sorted_wrt (<) vs" using rep by (simp add: intset_rep_def)
  have le_last: "vs ! i \<le> vs ! (?n - 1)" if "i < ?n" for i
  proof (cases "i = ?n - 1")
    case False
    with that have "i < ?n - 1" by linarith
    with sorted_wrt_nth_less [OF sorted, of i "?n - 1"] n show ?thesis by simp
  qed simp
  have ge_first: "vs ! 0 \<le> vs ! i" if "i < ?n" for i
    using sorted_wrt_nth_less [OF sorted, of 0 i] that by (cases "i = 0") auto
  have last: "intsetGetRaw is (int (?n - 1)) = Some (vs ! (?n - 1))"
    and first: "intsetGetRaw is 0 = Some (vs ! 0)"
    using intsetGetRaw_rep [OF rep, of "?n - 1"] intsetGetRaw_rep [OF rep, of 0] n
    by (simp_all del: of_nat_diff)
  have is_len: "is_length is = of_nat ?n"
    using rep by (metis intset_rep_def of_nat_unat ucast_id)
  consider "v > vs ! (?n - 1)" | "v \<le> vs ! (?n - 1)" "v < vs ! 0" | "v \<le> vs ! (?n - 1)" "vs ! 0 \<le> v"
    by linarith
  then show ?thesis
  proof cases
    case 1
    then have "vs ! i < v" if "i < ?n" for i using le_last [OF that] by simp
    moreover from this have "v \<notin> set vs" by (force simp: in_set_conv_nth)
    ultimately show ?thesis
      using 1 len last is_len by (auto simp: intsetSearch_def simp del: of_nat_diff intro!: exI [of _ ?n])
  next
    case 2
    then have "v < vs ! i" if "i < ?n" for i using ge_first [OF that] by simp
    moreover from this have "v \<notin> set vs" by (force simp: in_set_conv_nth)
    ultimately show ?thesis
      using 2 len last first by (auto simp: intsetSearch_def simp del: of_nat_diff intro!: exI [of _ 0])
  next
    case 3
    obtain mn mid cur where loop: "intsetSearch_loop is v 0 (int (?n - 1)) (- 1) (- 1) = Some (mn, mid, cur)"
      and res: "if v \<in> set vs then cur = v \<and> 0 \<le> mid \<and> mid < int ?n \<and> vs ! nat mid = v
       else cur \<noteq> v \<and> 0 \<le> mn \<and> mn \<le> int ?n \<and>
         (\<forall>i < ?n. if int i < mn then vs ! i < v else v < vs ! i)"
      using intsetSearch_loop_correct [OF rep, of 0 "int (?n - 1)" v "- 1" "- 1"] n by auto
    have eq: "intsetSearch is v =
        Some (if v = cur then (True, word_of_int mid) else (False, word_of_int mn))"
      using 3 len last first loop by (simp add: intsetSearch_def del: of_nat_diff)
    show ?thesis
    proof (cases "v \<in> set vs")
      case True
      with res eq have "intsetSearch is v = Some (True, of_nat (nat mid))" by simp
      with True res show ?thesis by (intro exI [of _ "nat mid"]) auto
    next
      case False
      with res eq have "intsetSearch is v = Some (False, of_nat (nat mn))" by simp
      moreover have "\<forall>i < ?n. if i < nat mn then vs ! i < v else v < vs ! i"
        using False res by (auto split: if_splits)
      ultimately show ?thesis using False res by (intro exI [of _ "nat mn"]) auto
    qed
  qed
qed

subsection \<open>Encodings and ranges\<close>

lemma valueEncoding_in: "intsetValueEncoding v \<in> {INTSET_ENC_INT16, INTSET_ENC_INT32, INTSET_ENC_INT64}"
  by (simp add: intsetValueEncoding_def)

lemma valueEncoding_fits: "int64_range v \<Longrightarrow> fits (enc_width (intsetValueEncoding v)) v"
  by (simp add: intsetValueEncoding_def enc_width_def fits_def int64_range_def)

lemma valueEncoding_le:
  assumes "enc \<in> {INTSET_ENC_INT16, INTSET_ENC_INT32, INTSET_ENC_INT64}" and "int64_range v"
  shows "intsetValueEncoding v \<le> enc \<longleftrightarrow> fits (enc_width enc) v"
  using assms by (auto simp: intsetValueEncoding_def enc_width_def fits_def int64_range_def)

lemma fits_int64: "fits (enc_width enc) v \<Longrightarrow> int64_range v"
  using fits_mono [of "enc_width enc" v 8] enc_width_cases [of enc]
  by (auto simp: fits_def int64_range_def)

lemma enc_width_less:
  assumes "enc \<in> {INTSET_ENC_INT16, INTSET_ENC_INT32, INTSET_ENC_INT64}"
    and "enc' \<in> {INTSET_ENC_INT16, INTSET_ENC_INT32, INTSET_ENC_INT64}" and "enc < enc'"
  shows "enc_width enc < enc_width enc'"
  using assms by (auto simp: enc_width_def)

lemma unfit_outside:
  "\<not> fits w v \<Longrightarrow> fits w x \<Longrightarrow> if v < 0 then v < x else x < v"
  by (auto simp: fits_def)

lemma sorted_wrt_insert_at:
  fixes v :: int
  assumes "sorted_wrt (<) vs" and "\<forall>i < length vs. if i < pos then vs ! i < v else v < vs ! i"
  shows "sorted_wrt (<) (take pos vs @ v # drop pos vs)"
proof -
  have "\<forall>x\<in>set (take pos vs). x < v"
    using assms(2) by (auto simp: in_set_conv_nth)
  moreover have "\<forall>x\<in>set (drop pos vs). v < x"
    using assms(2) by (auto simp: in_set_conv_nth)
  moreover have "sorted_wrt (<) (take pos vs @ drop pos vs)" using assms(1) by simp
  ultimately show ?thesis
    unfolding sorted_wrt_append by (auto intro: order_less_trans)
qed

subsection \<open>Insertion\<close>

lemma is_length_rep: "intset_rep is vs \<Longrightarrow> is_length is = of_nat (length vs)"
  by (metis intset_rep_def of_nat_unat ucast_id)

lemma intsetSet_at:
  assumes "is_contents is = pre @ mid @ post" and "length pre = i * enc_width (is_encoding is)"
    and "length mid = enc_width (is_encoding is)"
  shows "intsetSet is (int i) v =
    Some (is\<lparr>is_contents := pre @ put_le (enc_width (is_encoding is)) v @ post\<rparr>)"
  using assms by (simp add: intsetSet_def Let_def memcpy_at)

lemma intsetResize_grow:
  assumes rep: "intset_rep is vs"
  shows "intsetResize is (is_length is + 1) =
    Some (is\<lparr>is_contents := is_contents is @ replicate (enc_width (is_encoding is)) 0\<rparr>)"
proof -
  let ?w = "enc_width (is_encoding is)"
  have w: "unat (is_encoding is) = ?w"
    using rep enc_width_unat [of "is_encoding is"] by (simp add: intset_rep_def)
  have "Suc (length vs) < 2 ^ 32"
    using intset_rep_len [OF rep] by simp
  then have n: "unat (is_length is + 1) = Suc (length vs)"
    using unat_of_nat_u32 [of "Suc (length vs)"] by (simp add: is_length_rep [OF rep] add.commute)
  have "Suc (length vs) * ?w \<le> 2 ^ 32 * 8"
    using \<open>Suc (length vs) < 2 ^ 32\<close> enc_width_cases [of "is_encoding is"]
    by (intro mult_le_mono) auto
  then show ?thesis
    using rep by (simp add: intsetResize_def Let_def n w realloc_def intset_rep_def)
qed

lemma intsetMoveTail_up:
  assumes rep: "intset_rep is vs" and "pos < length vs"
    and c: "is_contents is' = is_contents is @ slack" and "length slack = enc_width (is_encoding is)"
    and h: "is_encoding is' = is_encoding is" "is_length is' = is_length is"
  shows "\<exists>hole. length hole = enc_width (is_encoding is) \<and>
    intsetMoveTail is' (of_nat pos) (of_nat pos + 1) =
    Some (is'\<lparr>is_contents := enc_vals (enc_width (is_encoding is)) (take pos vs) @ hole @
      enc_vals (enc_width (is_encoding is)) (drop pos vs)\<rparr>)"
proof -
  let ?w = "enc_width (is_encoding is)" and ?n = "length vs"
  let ?buf = "is_contents is'"
  have buf: "?buf = enc_vals ?w vs @ slack" using rep c by (simp add: intset_rep_def)
  have n: "?n < 2 ^ 31" by (rule intset_rep_len [OF rep])
  have pos: "unat (of_nat pos :: u32) = pos" "unat (of_nat pos + 1 :: u32) = Suc pos"
    using n assms(2) unat_of_nat_u32 [of "Suc pos"] unat_of_nat_u32 [of pos] by (simp_all add: add.commute)
  have "is_length is' - of_nat pos = of_nat (?n - pos)"
    using assms(2) h(2) is_length_rep [OF rep] by simp
  then have "unat ((is_length is' - of_nat pos) * of_nat ?w) = (?n - pos) * ?w mod 2 ^ 32"
    by (simp add: unat_of_nat del: of_nat_diff flip: of_nat_mult)
  moreover have "(?n - pos) * ?w < 2 ^ 32"
    using rep le_less_trans [OF mult_le_mono1 [of "?n - pos" ?n ?w]] by (simp add: intset_rep_def)
  ultimately have bytes: "unat ((is_length is' - of_nat pos) * of_nat ?w) = (?n - pos) * ?w"
    by simp
  have len: "length ?buf = ?n * ?w + ?w" using buf assms(4) by simp
  have src: "take ((?n - pos) * ?w) (drop (pos * ?w) ?buf) = enc_vals ?w (drop pos vs)"
    unfolding buf using assms(2)
    by (simp add: drop_enc_vals take_enc_vals diff_mult_distrib mult_le_mono1)
  have split: "pos * ?w + ((?n - pos) * ?w) = ?n * ?w"
    using assms(2) by (simp flip: add_mult_distrib)
  let ?hole = "take ?w (drop (pos * ?w) ?buf)"
  have "take (Suc pos * ?w) ?buf = take (pos * ?w) ?buf @ ?hole"
    by (simp add: take_add add.commute [of ?w])
  moreover have "take (pos * ?w) ?buf = enc_vals ?w (take pos vs)"
    unfolding buf using assms(2) by (simp add: take_enc_vals mult_le_mono1)
  ultimately have "memmove ?buf (Suc pos * ?w) (pos * ?w) ((?n - pos) * ?w) =
      enc_vals ?w (take pos vs) @ ?hole @ enc_vals ?w (drop pos vs)"
    using len split by (simp add: memmove_def memcpy_def src)
  moreover have "length ?hole = ?w"
    unfolding length_take length_drop using len assms(2) mult_le_mono1 [of pos ?n ?w] by linarith
  moreover have "Suc pos * ?w + (?n - pos) * ?w \<le> length ?buf" "pos * ?w + (?n - pos) * ?w \<le> length ?buf"
    using split len by simp_all
  ultimately show ?thesis
    unfolding intsetMoveTail_def h(1) Let_def pos bytes by (intro exI [of _ ?hole]) simp
qed

lemma intsetAdd_same_encoding:
  assumes rep: "intset_rep is vs" and fits: "fits (enc_width (is_encoding is)) v"
    and new: "v \<notin> set vs" and room: "Suc (length vs) * enc_width (is_encoding is) < 2 ^ 32"
  shows "\<exists>is' pos. intsetAdd is v = Some (is', True) \<and> intset_rep is' (take pos vs @ v # drop pos vs)"
proof -
  let ?w = "enc_width (is_encoding is)"
  let ?is1 = "is\<lparr>is_contents := is_contents is @ replicate ?w 0\<rparr>"
  have cont: "is_contents is = enc_vals ?w vs" using rep by (simp add: intset_rep_def)
  obtain pos where search: "intsetSearch is v = Some (False, of_nat pos)" and pos: "pos \<le> length vs"
    "\<forall>i < length vs. if i < pos then vs ! i < v else v < vs ! i"
    using intsetSearch_correct [OF rep, of v] new by auto
  have u: "unat (of_nat pos :: u32) = pos" "uint (of_nat pos :: u32) = int pos"
    using pos(1) intset_rep_len [OF rep] by (simp_all add: unat_of_nat uint_nat)
  have less: "of_nat pos < is_length ?is1 \<longleftrightarrow> pos < length vs"
    using rep u(1) by (simp add: word_less_nat_alt intset_rep_def)
  obtain hole where hole: "length hole = ?w"
    "(if of_nat pos < is_length ?is1 then intsetMoveTail ?is1 (of_nat pos) (of_nat pos + 1) else Some ?is1) =
     Some (?is1\<lparr>is_contents := enc_vals ?w (take pos vs) @ hole @ enc_vals ?w (drop pos vs)\<rparr>)"
  proof (cases "pos < length vs")
    case True
    then show ?thesis
      using that intsetMoveTail_up [OF rep True, of ?is1 "replicate ?w 0"] less by auto
  next
    case False
    then show ?thesis using that [of "replicate ?w 0"] pos(1) less cont by simp
  qed
  let ?is2 = "?is1\<lparr>is_contents := enc_vals ?w (take pos vs) @ hole @ enc_vals ?w (drop pos vs)\<rparr>"
  have set: "intsetSet ?is2 (int pos) v =
      Some (?is2\<lparr>is_contents := enc_vals ?w (take pos vs) @ put_le ?w v @ enc_vals ?w (drop pos vs)\<rparr>)"
    using intsetSet_at [of ?is2 "enc_vals ?w (take pos vs)" hole "enc_vals ?w (drop pos vs)" pos v]
      pos(1) hole(1) by simp
  have "\<not> intsetValueEncoding v > is_encoding is"
    using valueEncoding_le [of "is_encoding is" v] fits_int64 [OF fits] fits rep
    by (simp add: intset_rep_def not_less)
  then have "intsetAdd is v = Some (is\<lparr>is_contents := enc_vals ?w (take pos vs @ v # drop pos vs),
      is_length := is_length is + 1\<rparr>, True)"
    using search intsetResize_grow [OF rep] hole(2) set u(2)
    by (simp add: intsetAdd_def Let_def del: of_nat_diff)
  moreover have "unat (is_length is + 1) = Suc (length vs)"
    using intset_rep_len [OF rep] unat_of_nat_u32 [of "Suc (length vs)"]
    by (simp add: is_length_rep [OF rep] add.commute)
  moreover have "list_all (fits ?w) (take pos vs @ v # drop pos vs)"
    using rep fits by (auto simp: intset_rep_def list_all_iff dest: in_set_takeD in_set_dropD)
  moreover have "sorted_wrt (<) (take pos vs @ v # drop pos vs)"
    using rep pos(2) by (intro sorted_wrt_insert_at) (auto simp: intset_rep_def)
  ultimately show ?thesis
    using rep room pos(1) by (auto simp: intset_rep_def)
qed

subsection \<open>Upgrading the encoding\<close>

text \<open>
  The loop runs from the back, so that a value is read in the old width before the wider copies
  reach it: below index \<open>n\<close> the old array is intact and from \<open>n + prepend\<close> on the new one is
  complete.
\<close>

lemma intsetUpgrade_loop_correct:
  assumes "n \<le> length vs" and "w \<le> enc_width (is_encoding s)" and "w = enc_width curenc"
    and "list_all (fits w) vs" and "pre \<le> 1"
    and "length (is_contents s) = Suc (length vs) * enc_width (is_encoding s)"
    and "take (n * w) (is_contents s) = enc_vals w (take n vs)"
    and "take ((length vs - n) * enc_width (is_encoding s))
      (drop ((n + pre) * enc_width (is_encoding s)) (is_contents s)) =
      enc_vals (enc_width (is_encoding s)) (drop n vs)"
  shows "\<exists>buf. intsetUpgrade_loop s n (int pre) curenc = Some (s\<lparr>is_contents := buf\<rparr>) \<and>
    length buf = Suc (length vs) * enc_width (is_encoding s) \<and>
    take (length vs * enc_width (is_encoding s)) (drop (pre * enc_width (is_encoding s)) buf) =
    enc_vals (enc_width (is_encoding s)) vs"
  using assms
proof (induction n arbitrary: s)
  case 0
  then show ?case by (intro exI [of _ "is_contents s"]) simp
next
  case (Suc n)
  let ?w' = "enc_width (is_encoding s)" and ?buf = "is_contents s" and ?N = "length vs"
  let ?off = "(n + pre) * ?w'"
  have n: "n < ?N" using Suc.prems(1) by simp
  have fit: "fits w (vs ! n)" using Suc.prems(4) n by (simp add: list_all_length)
  have old: "?buf = enc_vals w (take (Suc n) vs) @ drop (Suc n * w) ?buf"
    using Suc.prems(7) by (metis append_take_drop_id)
  have get: "intsetGetEncoded s (int n) curenc = Some (vs ! n)"
    using intsetGetEncoded_enc [of s curenc "take (Suc n) vs" "drop (Suc n * w) ?buf" n] old n fit Suc.prems(3)
    by simp
  have room: "?off + ?w' \<le> length ?buf"
    using Suc.prems(5,6) n mult_le_mono1 [of "Suc (n + pre)" "Suc ?N" ?w'] by simp
  let ?new = "memcpy ?buf ?off (put_le ?w' (vs ! n))"
  have set: "intsetSet s (int n + int pre) (vs ! n) = Some (s\<lparr>is_contents := ?new\<rparr>)"
    using room by (simp add: intsetSet_def Let_def nat_add_distrib)
  have "n * w \<le> ?off"
    using Suc.prems(2) by (intro mult_le_mono) auto
  then have low: "take (n * w) ?new = enc_vals w (take n vs)"
  proof -
    have "take (n * w) ?new = take (n * w) (take (Suc n * w) ?buf)"
      using \<open>n * w \<le> ?off\<close> room by (simp add: memcpy_def min_def)
    also have "\<dots> = enc_vals w (take n vs)"
      using Suc.prems(7) by (simp add: take_enc_vals min_def)
    finally show ?thesis .
  qed
  have "drop ?off ?new = put_le ?w' (vs ! n) @ drop (?off + ?w') ?buf"
    using room by (simp add: memcpy_def)
  moreover have "(?N - n) * ?w' = ?w' + (?N - Suc n) * ?w'"
    using n by (simp flip: mult_Suc add: Suc_diff_Suc)
  moreover have "?off + ?w' = (Suc n + pre) * ?w'" by simp
  ultimately have high: "take ((?N - n) * ?w') (drop ?off ?new) = enc_vals ?w' (drop n vs)"
    using Suc.prems(8) n by (simp add: Cons_nth_drop_Suc [symmetric])
  have "\<exists>buf. intsetUpgrade_loop (s\<lparr>is_contents := ?new\<rparr>) n (int pre) curenc =
      Some (s\<lparr>is_contents := ?new\<rparr>\<lparr>is_contents := buf\<rparr>) \<and>
    length buf = Suc ?N * ?w' \<and> take (?N * ?w') (drop (pre * ?w') buf) = enc_vals ?w' vs"
    using Suc.IH [of "s\<lparr>is_contents := ?new\<rparr>"] Suc.prems low high room n by simp
  then show ?case using get set by simp
qed

lemma intsetUpgradeAndAdd_correct:
  assumes rep: "intset_rep s vs" and v: "int64_range v" and enc: "is_encoding s < intsetValueEncoding v"
    and room: "Suc (length vs) * enc_width (intsetValueEncoding v) < 2 ^ 32"
  shows "\<exists>s'. intsetUpgradeAndAdd s v = Some s' \<and> intset_rep s' (if v < 0 then v # vs else vs @ [v])"
proof -
  let ?w = "enc_width (is_encoding s)" and ?w' = "enc_width (intsetValueEncoding v)"
  let ?N = "length vs" and ?pre = "if v < 0 then 1 else 0 :: nat"
  let ?s0 = "s\<lparr>is_encoding := intsetValueEncoding v\<rparr>"
  let ?buf0 = "realloc 0 (is_contents s) (Suc ?N * ?w')"
  have encs: "is_encoding s \<in> {INTSET_ENC_INT16, INTSET_ENC_INT32, INTSET_ENC_INT64}"
    and cont: "is_contents s = enc_vals ?w vs" and fit: "list_all (fits ?w) vs"
    using rep by (simp_all add: intset_rep_def)
  have w: "?w < ?w'" using enc_width_less [OF encs valueEncoding_in enc] .
  have unfit: "\<not> fits ?w v" using valueEncoding_le [OF encs v] enc by (metis not_le)
  have n1: "unat (is_length s + 1) = Suc ?N"
    using intset_rep_len [OF rep] unat_of_nat_u32 [of "Suc ?N"]
    by (simp add: is_length_rep [OF rep] add.commute)
  have resize: "intsetResize ?s0 (is_length s + 1) = Some (?s0\<lparr>is_contents := ?buf0\<rparr>)"
    using room n1 enc_width_unat [OF valueEncoding_in, of v]
    by (simp add: intsetResize_def Let_def)
  have le: "?N * ?w \<le> Suc ?N * ?w'" using w by (intro mult_le_mono) auto
  then have "take (?N * ?w) ?buf0 = enc_vals ?w vs"
    by (subst take_realloc) (simp_all add: cont)
  then obtain buf where loop: "intsetUpgrade_loop (?s0\<lparr>is_contents := ?buf0\<rparr>) ?N (int ?pre) (is_encoding s) =
      Some (?s0\<lparr>is_contents := buf\<rparr>)" and len: "length buf = Suc ?N * ?w'"
    and buf: "take (?N * ?w') (drop (?pre * ?w') buf) = enc_vals ?w' vs"
    using intsetUpgrade_loop_correct [of ?N vs ?w "?s0\<lparr>is_contents := ?buf0\<rparr>" "is_encoding s" ?pre] w fit
    by (cases "v < 0") auto
  let ?s1 = "?s0\<lparr>is_contents := buf\<rparr>" and ?vs' = "if v < 0 then v # vs else vs @ [v]"
  have set: "(if ?pre \<noteq> 0 then intsetSet ?s1 0 v else intsetSet ?s1 (uint (is_length s)) v) =
      Some (?s1\<lparr>is_contents := enc_vals ?w' ?vs'\<rparr>)"
  proof (cases "v < 0")
    case True
    then have "buf = take ?w' buf @ enc_vals ?w' vs"
      using buf len append_take_drop_id [of ?w' buf] by simp
    with True intsetSet_at [of ?s1 "[]" "take ?w' buf" "enc_vals ?w' vs" 0 v] len show ?thesis
      by simp
  next
    case False
    then have b: "buf = enc_vals ?w' vs @ drop (?N * ?w') buf"
      using buf append_take_drop_id [of "?N * ?w'" buf] by simp
    have "uint (is_length s) = int ?N" using rep by (simp add: intset_rep_def uint_nat)
    with False b intsetSet_at [of ?s1 "enc_vals ?w' vs" "drop (?N * ?w') buf" "[]" ?N v] len show ?thesis
      by simp
  qed
  have "intsetUpgradeAndAdd s v =
      Some (?s1\<lparr>is_contents := enc_vals ?w' ?vs', is_length := is_length s + 1\<rparr>)"
    using resize loop set intset_rep_unat [OF rep]
    by (cases "v < 0") (simp_all add: intsetUpgradeAndAdd_def Let_def)
  moreover have "list_all (fits ?w') ?vs'"
    using fit fits_mono [of ?w _ ?w'] w valueEncoding_fits [OF v] by (auto simp: list_all_iff)
  moreover have "\<forall>x \<in> set vs. if v < 0 then v < x else x < v"
    using unfit_outside [OF unfit] fit by (auto simp: list_all_iff)
  then have "sorted_wrt (<) ?vs'"
    using rep by (auto simp: intset_rep_def sorted_wrt_append)
  ultimately show ?thesis
    using n1 room valueEncoding_in [of v] by (auto simp: intset_rep_def simp del: enc_vals_simps)
qed

subsection \<open>Removal\<close>

lemma intsetMoveTail_down:
  assumes rep: "intset_rep s vs" and pos: "Suc pos < length vs"
  shows "\<exists>rest. length rest = enc_width (is_encoding s) \<and>
    intsetMoveTail s (of_nat pos + 1) (of_nat pos) =
    Some (s\<lparr>is_contents := enc_vals (enc_width (is_encoding s)) (take pos vs @ drop (Suc pos) vs) @ rest\<rparr>)"
proof -
  let ?w = "enc_width (is_encoding s)" and ?n = "length vs" and ?buf = "is_contents s"
  have buf: "?buf = enc_vals ?w vs" using rep by (simp add: intset_rep_def)
  have u: "unat (of_nat pos :: u32) = pos" "unat (of_nat pos + 1 :: u32) = Suc pos"
    using intset_rep_len [OF rep] pos unat_of_nat_u32 [of "Suc pos"] unat_of_nat_u32 [of pos]
    by (simp_all add: add.commute)
  have "is_length s - (of_nat pos + 1) = of_nat (?n - Suc pos)"
    using pos is_length_rep [OF rep] by simp
  then have "unat ((is_length s - (of_nat pos + 1)) * of_nat ?w) = (?n - Suc pos) * ?w mod 2 ^ 32"
    by (simp add: unat_of_nat del: of_nat_diff flip: of_nat_mult)
  moreover have "(?n - Suc pos) * ?w < 2 ^ 32"
    using rep le_less_trans [OF mult_le_mono1 [of "?n - Suc pos" ?n ?w]] by (simp add: intset_rep_def)
  ultimately have bytes: "unat ((is_length s - (of_nat pos + 1)) * of_nat ?w) = (?n - Suc pos) * ?w"
    by simp
  let ?b = "(?n - Suc pos) * ?w"
  have len: "length ?buf = pos * ?w + ?b + ?w"
  proof -
    have "?n = pos + (?n - Suc pos) + 1" using pos by simp
    then have "?n * ?w = (pos + (?n - Suc pos) + 1) * ?w" by (rule arg_cong)
    then show ?thesis using buf by (simp only: add_mult_distrib length_enc_vals mult_1)
  qed
  have src: "take ?b (drop (Suc pos * ?w) ?buf) = enc_vals ?w (drop (Suc pos) vs)"
    unfolding buf drop_enc_vals by (simp add: take_enc_vals)
  let ?rest = "drop (pos * ?w + ?b) ?buf"
  have "memmove ?buf (pos * ?w) (Suc pos * ?w) ?b = enc_vals ?w (take pos vs @ drop (Suc pos) vs) @ ?rest"
    unfolding memmove_def memcpy_def src using buf by (simp add: take_enc_vals)
  moreover have "length ?rest = ?w" using len by simp
  ultimately show ?thesis
    unfolding intsetMoveTail_def Let_def u bytes using len by (intro exI [of _ ?rest]) simp
qed

lemma intsetResize_shrink:
  assumes encs: "is_encoding s \<in> {INTSET_ENC_INT16, INTSET_ENC_INT32, INTSET_ENC_INT64}"
    and cont: "is_contents s = enc_vals (enc_width (is_encoding s)) vs @ rest"
    and n: "unat n = length vs" and room: "length vs * enc_width (is_encoding s) < 2 ^ 32"
  shows "intsetResize s n = Some (s\<lparr>is_contents := enc_vals (enc_width (is_encoding s)) vs\<rparr>)"
proof -
  have len: "unat n * unat (is_encoding s) = length (enc_vals (enc_width (is_encoding s)) vs)"
    using n enc_width_unat [OF encs] by simp
  show ?thesis
    unfolding intsetResize_def Let_def len cont using room by (simp add: realloc_def)
qed

lemma intset_remove_at:
  assumes rep: "intset_rep s vs" and pos: "pos < length vs"
  shows "list_all (fits (enc_width (is_encoding s))) (take pos vs @ drop (Suc pos) vs)"
    and "sorted_wrt (<) (take pos vs @ drop (Suc pos) vs)"
    and "length (take pos vs @ drop (Suc pos) vs) = length vs - 1"
    and "(length vs - 1) * enc_width (is_encoding s) < 2 ^ 32"
proof -
  have split: "vs = take pos vs @ vs ! pos # drop (Suc pos) vs" using pos by (rule id_take_nth_drop)
  have "list_all (fits (enc_width (is_encoding s))) vs" "sorted_wrt (<) vs"
    using rep by (simp_all add: intset_rep_def)
  then have "list_all (fits (enc_width (is_encoding s))) (take pos vs @ vs ! pos # drop (Suc pos) vs)"
    and "sorted_wrt (<) (take pos vs @ vs ! pos # drop (Suc pos) vs)"
    using split by metis+
  then show "list_all (fits (enc_width (is_encoding s))) (take pos vs @ drop (Suc pos) vs)"
    and "sorted_wrt (<) (take pos vs @ drop (Suc pos) vs)"
    by (simp_all add: sorted_wrt_append)
  show "length (take pos vs @ drop (Suc pos) vs) = length vs - 1" using pos by simp
  have "(length vs - 1) * enc_width (is_encoding s) \<le> length vs * enc_width (is_encoding s)"
    by (rule mult_le_mono1) simp
  also have "\<dots> < 2 ^ 32" using rep by (simp add: intset_rep_def)
  finally show "(length vs - 1) * enc_width (is_encoding s) < 2 ^ 32" .
qed

lemma intsetRemove_tail:
  assumes rep: "intset_rep s vs" and pos: "pos < length vs"
  shows "\<exists>rest. (if of_nat pos < is_length s - 1 then intsetMoveTail s (of_nat pos + 1) (of_nat pos) else Some s) =
    Some (s\<lparr>is_contents := enc_vals (enc_width (is_encoding s)) (take pos vs @ drop (Suc pos) vs) @ rest\<rparr>)"
    and "unat (is_length s - 1) = length vs - 1"
proof -
  let ?w = "enc_width (is_encoding s)" and ?vs' = "take pos vs @ drop (Suc pos) vs"
  have ne: "vs \<noteq> []" using pos by auto
  show n1: "unat (is_length s - 1) = length vs - 1"
    using intset_rep_last_index [OF rep ne] intset_rep_unat [OF rep] ne
    by (subst unat_sub) (simp_all add: word_le_nat_alt Suc_le_eq)
  have less: "of_nat pos < is_length s - 1 \<longleftrightarrow> Suc pos < length vs"
    using intset_rep_len [OF rep] pos by (simp add: word_less_nat_alt n1 unat_of_nat less_diff_conv)
  show "\<exists>rest. (if of_nat pos < is_length s - 1 then intsetMoveTail s (of_nat pos + 1) (of_nat pos) else Some s) =
    Some (s\<lparr>is_contents := enc_vals ?w ?vs' @ rest\<rparr>)"
  proof (cases "Suc pos < length vs")
    case True
    then show ?thesis using intsetMoveTail_down [OF rep True] less by auto
  next
    case False
    then have "vs = ?vs' @ [vs ! pos]"
      using pos by (metis append_Nil2 drop_all id_take_nth_drop not_less)
    then have "enc_vals ?w vs = enc_vals ?w (?vs' @ [vs ! pos])" by (rule arg_cong)
    then have "is_contents s = enc_vals ?w ?vs' @ put_le ?w (vs ! pos)"
      using rep by (simp add: intset_rep_def)
    then have "s = s\<lparr>is_contents := enc_vals ?w ?vs' @ put_le ?w (vs ! pos)\<rparr>" by (cases s) simp
    then show ?thesis using False less by (intro exI [of _ "put_le ?w (vs ! pos)"]) simp
  qed
qed

lemma intsetRemove_found:
  assumes rep: "intset_rep s vs" and mem: "v \<in> set vs"
  shows "\<exists>s' pos. intsetRemove s v = Some (s', True) \<and> pos < length vs \<and> vs ! pos = v \<and>
    intset_rep s' (take pos vs @ drop (Suc pos) vs)"
proof -
  let ?w = "enc_width (is_encoding s)"
  have encs: "is_encoding s \<in> {INTSET_ENC_INT16, INTSET_ENC_INT32, INTSET_ENC_INT64}"
    and fv: "fits ?w v"
    using rep mem by (simp_all add: intset_rep_def list_all_iff)
  obtain pos where search: "intsetSearch s v = Some (True, of_nat pos)" and pos: "pos < length vs" "vs ! pos = v"
    using intsetSearch_correct [OF rep, of v] mem by auto
  define vs' where "vs' = take pos vs @ drop (Suc pos) vs"
  note at = intset_remove_at [OF rep pos(1), folded vs'_def]
  obtain rest where move: "(if of_nat pos < is_length s - 1 then intsetMoveTail s (of_nat pos + 1) (of_nat pos) else Some s) =
      Some (s\<lparr>is_contents := enc_vals ?w vs' @ rest\<rparr>)" and n1: "unat (is_length s - 1) = length vs'"
    using intsetRemove_tail [OF rep pos(1), folded vs'_def] at(3) by auto
  have "intsetResize (s\<lparr>is_contents := enc_vals ?w vs' @ rest\<rparr>) (is_length s - 1) =
      Some (s\<lparr>is_contents := enc_vals ?w vs'\<rparr>)"
    using intsetResize_shrink [of "s\<lparr>is_contents := enc_vals ?w vs' @ rest\<rparr>" vs' rest "is_length s - 1"]
      encs n1 at(3,4) by simp
  moreover have "intsetValueEncoding v \<le> is_encoding s"
    using valueEncoding_le [OF encs fits_int64 [OF fv]] fv by simp
  ultimately have "intsetRemove s v =
      Some (s\<lparr>is_contents := enc_vals ?w vs', is_length := is_length s - 1\<rparr>, True)"
    using search move by (simp add: intsetRemove_def Let_def split del: if_split)
  moreover have "intset_rep (s\<lparr>is_contents := enc_vals ?w vs', is_length := is_length s - 1\<rparr>) vs'"
    using encs n1 at by (simp add: intset_rep_def)
  ultimately show ?thesis using pos vs'_def by blast
qed

subsection \<open>The set an intset holds\<close>

definition intset_vals :: "intset \<Rightarrow> int list" where
  "intset_vals s = map (\<lambda>i. the (intsetGetRaw s (int i))) [0..<unat (is_length s)]"

definition intset_wf :: "intset \<Rightarrow> bool" where
  "intset_wf s \<longleftrightarrow> intset_rep s (intset_vals s)"

definition intset_admits :: "intset \<Rightarrow> int \<Rightarrow> bool" where
  "intset_admits s v \<longleftrightarrow> int64_range v \<and>
     Suc (length (intset_vals s)) * max (enc_width (is_encoding s)) (enc_width (intsetValueEncoding v)) < 2 ^ 32"

lemma intset_vals_rep: "intset_rep s vs \<Longrightarrow> intset_vals s = vs"
  by (auto simp: intset_vals_def intset_rep_unat intsetGetRaw_rep intro!: nth_equalityI)

lemma intset_wf_iff: "intset_wf s \<longleftrightarrow> (\<exists>vs. intset_rep s vs)"
  unfolding intset_wf_def using intset_vals_rep by metis

lemma intset_wfI: "intset_rep s vs \<Longrightarrow> intset_wf s"
  by (auto simp: intset_wf_iff)

lemma intsetNew_rep: "intset_rep intsetNew []"
  by (simp add: intsetNew_def intset_rep_def)

lemma intsetAdd_rep:
  assumes wf: "intset_wf s" and adm: "intset_admits s v"
  shows "\<exists>s'. intsetAdd s v = Some (s', v \<notin> set (intset_vals s)) \<and> intset_wf s' \<and>
    set (intset_vals s') = insert v (set (intset_vals s))"
proof -
  let ?vs = "intset_vals s" and ?w = "enc_width (is_encoding s)" and ?w' = "enc_width (intsetValueEncoding v)"
  have rep: "intset_rep s ?vs" using wf by (simp add: intset_wf_def)
  then have encs: "is_encoding s \<in> {INTSET_ENC_INT16, INTSET_ENC_INT32, INTSET_ENC_INT64}"
    and fit: "list_all (fits ?w) ?vs" by (simp_all add: intset_rep_def)
  have v: "int64_range v" and room: "Suc (length ?vs) * ?w < 2 ^ 32" "Suc (length ?vs) * ?w' < 2 ^ 32"
    using adm le_less_trans [OF mult_le_mono2 [of _ "max ?w ?w'" "Suc (length ?vs)"]]
    by (auto simp: intset_admits_def)
  consider (up) "is_encoding s < intsetValueEncoding v" | (old) "\<not> is_encoding s < intsetValueEncoding v" "v \<in> set ?vs"
    | (new) "\<not> is_encoding s < intsetValueEncoding v" "v \<notin> set ?vs" by blast
  then show ?thesis
  proof cases
    case up
    then have "\<not> fits ?w v" using valueEncoding_le [OF encs v] by (metis not_le)
    then have "v \<notin> set ?vs" using fit by (auto simp: list_all_iff)
    then show ?thesis
      using intsetUpgradeAndAdd_correct [OF rep v up room(2)] up
      by (auto simp: intsetAdd_def Let_def intset_vals_rep intro: intset_wfI split: if_splits)
  next
    case old
    then show ?thesis
      using intsetSearch_correct [OF rep, of v] wf by (auto simp: intsetAdd_def Let_def)
  next
    case new
    then have "fits ?w v" using valueEncoding_le [OF encs v] by (metis not_le)
    then obtain s' pos where s': "intsetAdd s v = Some (s', True)" "intset_rep s' (take pos ?vs @ v # drop pos ?vs)"
      using intsetAdd_same_encoding [OF rep _ new(2) room(1)] by auto
    have "set (take pos ?vs @ v # drop pos ?vs) = insert v (set ?vs)"
      using append_take_drop_id [of pos ?vs] by (metis Un_insert_right list.simps(15) set_append)
    then show ?thesis using s' new intset_vals_rep [OF s'(2)] intset_wfI [OF s'(2)] by simp
  qed
qed

lemma intsetRemove_absent:
  assumes rep: "intset_rep s vs" and v: "v \<notin> set vs"
  shows "intsetRemove s v = Some (s, False)"
  using intsetSearch_correct [OF rep, of v] v by (auto simp: intsetRemove_def Let_def)

lemma sorted_wrt_less_distinct: "sorted_wrt (<) (vs :: int list) \<Longrightarrow> distinct vs"
  by (simp add: strict_sorted_iff)

lemma intsetRemove_rep:
  assumes wf: "intset_wf s"
  shows "\<exists>s'. intsetRemove s v = Some (s', v \<in> set (intset_vals s)) \<and> intset_wf s' \<and>
    set (intset_vals s') = set (intset_vals s) - {v}"
proof (cases "v \<in> set (intset_vals s)")
  case True
  let ?vs = "intset_vals s"
  have rep: "intset_rep s ?vs" using wf by (simp add: intset_wf_def)
  then have d: "distinct ?vs" using sorted_wrt_less_distinct by (simp add: intset_rep_def)
  obtain s' pos where s': "intsetRemove s v = Some (s', True)" "pos < length ?vs" "?vs ! pos = v"
    "intset_rep s' (take pos ?vs @ drop (Suc pos) ?vs)"
    using intsetRemove_found [OF rep True] by auto
  have split: "?vs = take pos ?vs @ v # drop (Suc pos) ?vs" using s' id_take_nth_drop by metis
  then have "distinct (take pos ?vs @ v # drop (Suc pos) ?vs)" using d by metis
  then have "v \<notin> set (take pos ?vs @ drop (Suc pos) ?vs)" by simp
  moreover have "set ?vs = insert v (set (take pos ?vs @ drop (Suc pos) ?vs))"
    using split by (metis Un_insert_right list.simps(15) set_append)
  ultimately show ?thesis using s' True intset_vals_rep [OF s'(4)] intset_wfI [OF s'(4)] by simp
next
  case False
  then show ?thesis using wf intsetRemove_absent [of s "intset_vals s" v] by (simp add: intset_wf_def)
qed

lemma intsetFind_rep:
  assumes wf: "intset_wf s"
  shows "intsetFind s v = Some (v \<in> set (intset_vals s))"
proof -
  let ?vs = "intset_vals s" and ?w = "enc_width (is_encoding s)"
  have rep: "intset_rep s ?vs" using wf by (simp add: intset_wf_def)
  then have encs: "is_encoding s \<in> {INTSET_ENC_INT16, INTSET_ENC_INT32, INTSET_ENC_INT64}"
    and fit: "list_all (fits ?w) ?vs" by (simp_all add: intset_rep_def)
  have "v \<notin> set ?vs" if "\<not> intsetValueEncoding v \<le> is_encoding s"
  proof
    assume "v \<in> set ?vs"
    then have "fits ?w v" using fit by (simp add: list_all_iff)
    then show False using that valueEncoding_le [OF encs fits_int64] by simp
  qed
  then show ?thesis using intsetSearch_correct [OF rep, of v] by (auto simp: intsetFind_def Let_def)
qed

interpretation intset_store: set_store intset_wf "\<lambda>s. set (intset_vals s)" intset_admits intsetAdd intsetRemove intsetFind
  by unfold_locales (simp_all only: intsetAdd_rep intsetRemove_rep intsetFind_rep)

lemma intsetSearch_insert_position:
  assumes rep: "intset_rep s vs"
  shows "\<exists>pos. intsetSearch s v = Some (v \<in> set vs, of_nat pos) \<and> pos \<le> length vs \<and>
    (if v \<in> set vs then pos < length vs \<and> vs ! pos = v
     else sorted_wrt (<) (take pos vs @ v # drop pos vs))"
proof -
  obtain pos where pos: "intsetSearch s v = Some (v \<in> set vs, of_nat pos)" "pos \<le> length vs"
    "if v \<in> set vs then pos < length vs \<and> vs ! pos = v
     else (\<forall>i < length vs. if i < pos then vs ! i < v else v < vs ! i)"
    using intsetSearch_correct [OF rep, of v] by blast
  have "sorted_wrt (<) (take pos vs @ v # drop pos vs)" if "v \<notin> set vs"
    using pos that rep sorted_wrt_insert_at [of vs pos v] by (simp add: intset_rep_def)
  then show ?thesis using pos by auto
qed

subsection \<open>Validation\<close>











subsection \<open>Properties\<close>

text \<open>
  C18. \<open>intsetAdd\<close> on a well-formed intset and a 64-bit value, with the resulting block below 4 GiB,
  performs no access outside the block, reports whether the value was new, keeps the records sorted,
  duplicate-free and correctly encoded (whether or not the encoding had to be widened), and the set it
  holds is the old one with the value inserted.
\<close>

theorem intset_add_correct:
  assumes "intset_wf s" and "int64_range v"
    and "Suc (length (intset_vals s)) * max (enc_width (is_encoding s)) (enc_width (intsetValueEncoding v)) < 2 ^ 32"
  shows "\<exists>s'. intsetAdd s v = Some (s', v \<notin> set (intset_vals s)) \<and> intset_wf s' \<and>
    set (intset_vals s') = insert v (set (intset_vals s))"
  using intset_store.add_law assms by (simp add: intset_admits_def)

definition intset_5_70000 :: intset where
  "intset_5_70000 = \<lparr>is_encoding = INTSET_ENC_INT32, is_length = 2, is_contents = put_le 4 5 @ put_le 4 70000\<rparr>"

lemma intset_5_70000_rep: "intset_rep intset_5_70000 [5, 70000]"
  by (simp add: intset_rep_def intset_5_70000_def enc_width_def fits_def)

theorem intset_add_correct_witness:
  "\<exists>s'. intsetAdd intset_5_70000 (- 5000000000) = Some (s', True) \<and> intset_wf s' \<and>
    set (intset_vals s') = {- 5000000000, 5, 70000}"
  using intset_add_correct [of intset_5_70000 "- 5000000000"] intset_vals_rep [OF intset_5_70000_rep]
    intset_wfI [OF intset_5_70000_rep]
  by (simp add: int64_range_def intset_5_70000_def intsetValueEncoding_def enc_width_def)

text \<open>
  C19. \<open>intsetRemove\<close> on a well-formed intset never fails, reports whether the value was a member,
  keeps the intset well-formed and removes exactly that value.
\<close>

theorem intset_remove_correct:
  assumes "intset_wf s"
  shows "\<exists>s'. intsetRemove s v = Some (s', v \<in> set (intset_vals s)) \<and> intset_wf s' \<and>
    set (intset_vals s') = set (intset_vals s) - {v}"
  by (rule intset_store.rem_law [OF assms])

theorem intset_remove_correct_witness:
  "\<exists>s'. intsetRemove intset_5_70000 5 = Some (s', True) \<and> intset_wf s' \<and> set (intset_vals s') = {70000}"
  using intset_remove_correct [OF intset_wfI [OF intset_5_70000_rep], of 5] intset_vals_rep [OF intset_5_70000_rep]
  by simp

text \<open>
  C20. The binary search of \<open>intsetSearch\<close> returns on every well-formed intset, its answer is
  membership, and the position it reports is the one of the value or the one that keeps the order.
\<close>

theorem intset_search_correct:
  assumes "intset_wf s"
  shows "\<exists>pos. intsetSearch s v = Some (v \<in> set (intset_vals s), of_nat pos) \<and> pos \<le> length (intset_vals s) \<and>
    (if v \<in> set (intset_vals s) then pos < length (intset_vals s) \<and> intset_vals s ! pos = v
     else sorted_wrt (<) (take pos (intset_vals s) @ v # drop pos (intset_vals s)))"
  using intsetSearch_insert_position [OF assms [unfolded intset_wf_def]] .

theorem intset_search_correct_witness:
  "\<exists>pos. intsetSearch intset_5_70000 6 = Some (False, of_nat pos) \<and> pos \<le> 2 \<and>
    sorted_wrt (<) (take pos [5, 70000 :: int] @ 6 # drop pos [5, 70000])"
  using intset_search_correct [OF intset_wfI [OF intset_5_70000_rep], of 6] intset_vals_rep [OF intset_5_70000_rep]
  by (simp add: numeral_2_eq_2)




text \<open>
  The byte count of \<open>intsetMoveTail\<close> is a \<open>uint32_t\<close>: with 2^29 records of 8 bytes it wraps to 0
  and the tail is not moved at all, so the value written next overwrites a record.
\<close>

lemma intsetMoveTail_wraps:
  assumes "is_encoding s = INTSET_ENC_INT64" and "is_length s = 2 ^ 29"
    and "length (is_contents s) = (2 ^ 29 + 1) * 8"
  shows "intsetMoveTail s 0 1 = Some s"
proof -
  have "unat ((is_length s - 0) * of_nat (enc_width (is_encoding s))) = 0"
    by (simp add: assms enc_width_def)
  then show ?thesis
    using assms by (simp add: intsetMoveTail_def enc_width_def memmove_def memcpy_def)
qed

end
