(* ===== verification/Dict.thy ===== *)
theory Dict
  imports Interfaces "HOL-Library.Multiset"
begin

section \<open>Hash tables (\<open>dict.c\<close>)\<close>

text \<open>
  Models \<open>redis/redis-6.2.7/src/dict.c\<close> and \<open>dict.h\<close>: the chained hash table with incremental
  rehashing between two bucket arrays that holds every keyspace, hash, set and command table of the
  server. A bucket array is a list of chains and a chain is a list of entries, head first; the null
  array of a table that was never allocated is the empty list. A \<open>dictEntry *\<close> handed to a caller is
  a position: table number, bucket and place in the chain. Reading a bucket outside of the array and
  a failed \<open>assert\<close> are \<^const>\<open>None\<close>. The destructors and the private data pointer only serve the
  allocator and are left out; the flag \<open>dict_can_resize\<close> is the argument \<open>can_resize\<close>, and what
  a fresh entry holds before its value is set is the argument \<open>junk\<close>.

  The abstraction of a dictionary is the finite map \<open>dict_map\<close> from key classes to values, where
  \<open>canon\<close> maps a key to its class under the comparison function of the type.
\<close>

subsection \<open>State\<close>

record ('k, 'v) dictEntry =
  de_key :: 'k
  de_val :: 'v

record ('k, 'v) dictType =
  hashFunction :: "'k \<Rightarrow> u64"
  keyDup :: "('k \<Rightarrow> 'k) option"
  valDup :: "('v \<Rightarrow> 'v) option"
  keyCompare :: "('k \<Rightarrow> 'k \<Rightarrow> bool) option"
  expandAllowed :: "(nat \<Rightarrow> nat \<times> nat \<Rightarrow> bool) option"

record ('k, 'v) dictht =
  table :: "('k, 'v) dictEntry list list"
  ht_size :: nat
  sizemask :: u64
  used :: nat

record ('k, 'v) dict =
  d_type :: "('k, 'v) dictType"
  ht0 :: "('k, 'v) dictht"
  ht1 :: "('k, 'v) dictht"
  rehashidx :: int
  pauserehash :: int

datatype dict_result = DICT_OK | DICT_ERR

abbreviation (input) DICT_HT_INITIAL_SIZE :: nat where "DICT_HT_INITIAL_SIZE \<equiv> 4"

abbreviation (input) LONG_MAX :: nat where "LONG_MAX \<equiv> 2 ^ 63 - 1"

type_synonym de_ref = "nat \<times> nat \<times> nat"

subsection \<open>Macros of \<open>dict.h\<close>\<close>

definition dictSetKey :: "('k, 'v) dict \<Rightarrow> 'k \<Rightarrow> 'k" where
  "dictSetKey d key = (case keyDup (d_type d) of Some dup \<Rightarrow> dup key | None \<Rightarrow> key)"

definition dictDupVal :: "('k, 'v) dict \<Rightarrow> 'v \<Rightarrow> 'v" where
  "dictDupVal d v = (case valDup (d_type d) of Some dup \<Rightarrow> dup v | None \<Rightarrow> v)"

definition dictCompareKeys :: "('k, 'v) dict \<Rightarrow> 'k \<Rightarrow> 'k \<Rightarrow> bool" where
  "dictCompareKeys d key1 key2 = (case keyCompare (d_type d) of Some cmp \<Rightarrow> cmp key1 key2 | None \<Rightarrow> key1 = key2)"

definition dictHashKey :: "('k, 'v) dict \<Rightarrow> 'k \<Rightarrow> u64" where
  "dictHashKey d key = hashFunction (d_type d) key"

definition dictSlots :: "('k, 'v) dict \<Rightarrow> nat" where
  "dictSlots d = ht_size (ht0 d) + ht_size (ht1 d)"

definition dictSize :: "('k, 'v) dict \<Rightarrow> nat" where
  "dictSize d = used (ht0 d) + used (ht1 d)"

definition dictIsRehashing :: "('k, 'v) dict \<Rightarrow> bool" where
  "dictIsRehashing d \<longleftrightarrow> rehashidx d \<noteq> - 1"

text \<open>\<open>dictSetVal\<close> through an entry reference.\<close>

definition upd_bucket :: "(('k, 'v) dictEntry list \<Rightarrow> ('k, 'v) dictEntry list) \<Rightarrow> nat \<Rightarrow> ('k, 'v) dictht \<Rightarrow> ('k, 'v) dictht" where
  "upd_bucket f i h = h\<lparr>table := (table h)[i := f (table h ! i)]\<rparr>"

fun dictSetVal :: "('k, 'v) dict \<Rightarrow> de_ref \<Rightarrow> 'v \<Rightarrow> ('k, 'v) dict" where
  "dictSetVal d (t, i, p) v =
    (let f = (\<lambda>chain. chain[p := (chain ! p)\<lparr>de_val := dictDupVal d v\<rparr>])
     in if t = 0 then d\<lparr>ht0 := upd_bucket f i (ht0 d)\<rparr> else d\<lparr>ht1 := upd_bucket f i (ht1 d)\<rparr>)"

fun deref :: "('k, 'v) dict \<Rightarrow> de_ref \<Rightarrow> ('k, 'v) dictEntry" where
  "deref d (t, i, p) = table (if t = 0 then ht0 d else ht1 d) ! i ! p"

subsection \<open>Creation and resizing\<close>

definition dictReset :: "('k, 'v) dictht" where
  "dictReset = \<lparr>table = [], ht_size = 0, sizemask = 0, used = 0\<rparr>"

definition dictInit :: "('k, 'v) dictType \<Rightarrow> ('k, 'v) dict" where
  "dictInit ty = \<lparr>d_type = ty, ht0 = dictReset, ht1 = dictReset, rehashidx = - 1, pauserehash = 0\<rparr>"

definition dictCreate :: "('k, 'v) dictType \<Rightarrow> ('k, 'v) dict" where
  "dictCreate ty = dictInit ty"

text \<open>\<open>_dictNextPower\<close>: \<open>i\<close> doubles from the initial size until it reaches \<open>size\<close>.\<close>

function next_power_loop :: "nat \<Rightarrow> nat \<Rightarrow> nat" where
  "next_power_loop i sz = (if i \<ge> sz then i else if i = 0 then 0 else next_power_loop (i * 2) sz)"
  by pat_completeness auto
termination
  by (relation "measure (\<lambda>(i, sz). sz - i)") auto

declare next_power_loop.simps [simp del]

definition dictNextPower :: "nat \<Rightarrow> nat" where
  "dictNextPower sz =
    (if sz \<ge> LONG_MAX then LONG_MAX + 1 else next_power_loop DICT_HT_INITIAL_SIZE sz)"

text \<open>
  \<open>_dictExpand\<close>: \<open>malloc\<close> is \<^const>\<open>None\<close> when the caller accepts to abort on a failed allocation,
  and otherwise tells whether \<open>ztrycalloc\<close> succeeds. The last component of the result is
  \<open>*malloc_failed\<close>.
\<close>

definition dictExpand_gen :: "bool option \<Rightarrow> ('k, 'v) dict \<Rightarrow> nat \<Rightarrow> ('k, 'v) dict \<times> dict_result \<times> bool" where
  "dictExpand_gen malloc d sz =
    (if dictIsRehashing d \<or> used (ht0 d) > sz then (d, DICT_ERR, False)
     else
       (let realsize = dictNextPower sz
        in if realsize < sz \<or> (realsize * 8) mod 2 ^ 64 < realsize then (d, DICT_ERR, False)
        else if realsize = ht_size (ht0 d) then (d, DICT_ERR, False)
        else if malloc = Some False then (d, DICT_ERR, True)
        else
          (let n = \<lparr>table = replicate realsize [], ht_size = realsize,
                    sizemask = of_nat (realsize - 1), used = 0\<rparr>
           in if table (ht0 d) = [] then (d\<lparr>ht0 := n\<rparr>, DICT_OK, False)
              else (d\<lparr>ht1 := n, rehashidx := 0\<rparr>, DICT_OK, False))))"

definition dictExpand :: "('k, 'v) dict \<Rightarrow> nat \<Rightarrow> ('k, 'v) dict \<times> dict_result" where
  "dictExpand d sz = (case dictExpand_gen None d sz of (d, r, _) \<Rightarrow> (d, r))"

definition dictTryExpand :: "bool \<Rightarrow> ('k, 'v) dict \<Rightarrow> nat \<Rightarrow> ('k, 'v) dict \<times> dict_result" where
  "dictTryExpand malloc_ok d sz =
    (case dictExpand_gen (Some malloc_ok) d sz of
       (d, _, malloc_failed) \<Rightarrow> (d, if malloc_failed then DICT_ERR else DICT_OK))"

definition dictResize :: "bool \<Rightarrow> ('k, 'v) dict \<Rightarrow> ('k, 'v) dict \<times> dict_result" where
  "dictResize can_resize d =
    (if \<not> can_resize \<or> dictIsRehashing d then (d, DICT_ERR)
     else
       (let minimal = used (ht0 d);
            minimal = (if minimal < DICT_HT_INITIAL_SIZE then DICT_HT_INITIAL_SIZE else minimal)
        in dictExpand d minimal))"

subsection \<open>Incremental rehashing\<close>

text \<open>
  The scan for a bucket that is not empty: the index it stops at, the visits that are left, and
  whether they ran out (\<open>return 1\<close>).
\<close>

function rehash_skip :: "'a list list \<Rightarrow> nat \<Rightarrow> int \<Rightarrow> (nat \<times> int \<times> bool) option" where
  "rehash_skip tab i empty_visits =
    (if i < length tab then
       (if tab ! i = [] then
          (if empty_visits - 1 = 0 then Some (Suc i, 0, True)
           else rehash_skip tab (Suc i) (empty_visits - 1))
        else Some (i, empty_visits, False))
     else None)"
  by pat_completeness auto
termination
  by (relation "measure (\<lambda>(tab, i, ev). length tab - i)") auto

declare rehash_skip.simps [simp del]

text \<open>Moving one entry to the front of its chain in the new table, and a chain of them.\<close>

definition rehash_entry :: "('k, 'v) dict \<Rightarrow> ('k, 'v) dictEntry \<Rightarrow> ('k, 'v) dict option" where
  "rehash_entry d de =
    (let h = unat (dictHashKey d (de_key de) AND sizemask (ht1 d))
     in if h < length (table (ht1 d))
        then Some (d\<lparr>ht0 := (ht0 d)\<lparr>used := used (ht0 d) - 1\<rparr>,
                     ht1 := (upd_bucket (Cons de) h (ht1 d))\<lparr>used := used (ht1 d) + 1\<rparr>\<rparr>)
        else None)"

fun rehash_chain :: "('k, 'v) dict \<Rightarrow> ('k, 'v) dictEntry list \<Rightarrow> ('k, 'v) dict option" where
  "rehash_chain d [] = Some d"
| "rehash_chain d (de # chain) = do { d \<leftarrow> rehash_entry d de; rehash_chain d chain }"

fun rehash_loop :: "('k, 'v) dict \<Rightarrow> nat \<Rightarrow> int \<Rightarrow> (('k, 'v) dict \<times> bool) option" where
  "rehash_loop d 0 empty_visits = Some (d, False)"
| "rehash_loop d (Suc n) empty_visits =
    (if used (ht0 d) = 0 then Some (d, False)
     else if \<not> (0 \<le> rehashidx d \<and> nat (rehashidx d) < ht_size (ht0 d)) then None
     else do {
       (i, empty_visits, out) \<leftarrow> rehash_skip (table (ht0 d)) (nat (rehashidx d)) empty_visits;
       let d = d\<lparr>rehashidx := int i\<rparr>;
       if out then Some (d, True)
       else do {
         d \<leftarrow> rehash_chain d (table (ht0 d) ! i);
         let d = d\<lparr>ht0 := upd_bucket (\<lambda>_. []) i (ht0 d), rehashidx := int (Suc i)\<rparr>;
         rehash_loop d n empty_visits
       }
     })"

definition dictRehash :: "('k, 'v) dict \<Rightarrow> nat \<Rightarrow> (('k, 'v) dict \<times> bool) option" where
  "dictRehash d n =
    (if \<not> dictIsRehashing d then Some (d, False)
     else do {
       (d, out) \<leftarrow> rehash_loop d n (int n * 10);
       if out then Some (d, True)
       else if used (ht0 d) = 0 then Some (d\<lparr>ht0 := ht1 d, ht1 := dictReset, rehashidx := - 1\<rparr>, False)
       else Some (d, True)
     })"

text \<open>\<open>dictRehashMilliseconds\<close>, with the readings of the clock after each call as a list.\<close>

fun rehash_ms_loop :: "('k, 'v) dict \<Rightarrow> int \<Rightarrow> int \<Rightarrow> int list \<Rightarrow> nat \<Rightarrow> (('k, 'v) dict \<times> nat) option" where
  "rehash_ms_loop d start ms clock rehashes = do {
     (d, more) \<leftarrow> dictRehash d 100;
     if \<not> more then Some (d, rehashes)
     else case clock of
         [] \<Rightarrow> None
       | now # clock \<Rightarrow>
           if now - start > ms then Some (d, rehashes + 100)
           else rehash_ms_loop d start ms clock (rehashes + 100) }"

definition dictRehashMilliseconds :: "('k, 'v) dict \<Rightarrow> int \<Rightarrow> int \<Rightarrow> int list \<Rightarrow> (('k, 'v) dict \<times> nat) option" where
  "dictRehashMilliseconds d ms start clock =
    (if pauserehash d > 0 then Some (d, 0) else rehash_ms_loop d start ms clock 0)"

definition dictRehashStep :: "('k, 'v) dict \<Rightarrow> ('k, 'v) dict option" where
  "dictRehashStep d = (if pauserehash d = 0 then map_option fst (dictRehash d 1) else Some d)"

subsection \<open>Insertion\<close>

text \<open>\<open>expandAllowed\<close> gets the bytes to allocate and the load as a fraction \<open>used / size\<close>.\<close>

definition dictTypeExpandAllowed :: "('k, 'v) dict \<Rightarrow> bool" where
  "dictTypeExpandAllowed d =
    (case expandAllowed (d_type d) of
       None \<Rightarrow> True
     | Some f \<Rightarrow> f (dictNextPower (used (ht0 d) + 1) * 8 mod 2 ^ 64) (used (ht0 d), ht_size (ht0 d)))"

definition dictExpandIfNeeded :: "bool \<Rightarrow> ('k, 'v) dict \<Rightarrow> ('k, 'v) dict \<times> dict_result" where
  "dictExpandIfNeeded can_resize d =
    (if dictIsRehashing d then (d, DICT_OK)
     else if ht_size (ht0 d) = 0 then dictExpand d DICT_HT_INITIAL_SIZE
     else if used (ht0 d) \<ge> ht_size (ht0 d) \<and>
             (can_resize \<or> used (ht0 d) div ht_size (ht0 d) > 5) \<and> dictTypeExpandAllowed d
     then dictExpand d (used (ht0 d) + 1)
     else (d, DICT_OK))"

text \<open>The walk along a chain: the place of the first entry whose key matches.\<close>

fun chain_find :: "('k, 'v) dict \<Rightarrow> 'k \<Rightarrow> ('k, 'v) dictEntry list \<Rightarrow> nat option" where
  "chain_find d key [] = None"
| "chain_find d key (he # chain) =
    (if key = de_key he \<or> dictCompareKeys d key (de_key he) then Some 0
     else map_option Suc (chain_find d key chain))"

text \<open>
  \<open>_dictKeyIndex\<close>: the dictionary after a possible expansion, the index (or -1) and \<open>*existing\<close>.
\<close>

definition dictKeyIndex ::
  "bool \<Rightarrow> ('k, 'v) dict \<Rightarrow> 'k \<Rightarrow> u64 \<Rightarrow> (('k, 'v) dict \<times> int \<times> de_ref option) option" where
  "dictKeyIndex can_resize d key hash =
    (case dictExpandIfNeeded can_resize d of
       (d, DICT_ERR) \<Rightarrow> Some (d, - 1, None)
     | (d, DICT_OK) \<Rightarrow> do {
         let idx = unat (hash AND sizemask (ht0 d));
         chain \<leftarrow> get_at (table (ht0 d)) idx;
         case chain_find d key chain of
           Some p \<Rightarrow> Some (d, - 1, Some (0, idx, p))
         | None \<Rightarrow>
             if \<not> dictIsRehashing d then Some (d, int idx, None)
             else do {
               let idx = unat (hash AND sizemask (ht1 d));
               chain \<leftarrow> get_at (table (ht1 d)) idx;
               case chain_find d key chain of
                 Some p \<Rightarrow> Some (d, - 1, Some (1, idx, p))
               | None \<Rightarrow> Some (d, int idx, None)
             }
       })"

text \<open>\<open>dictAddRaw\<close>: the new entry, if there is one, and \<open>*existing\<close>.\<close>

definition dictAddRaw ::
  "'v \<Rightarrow> bool \<Rightarrow> ('k, 'v) dict \<Rightarrow> 'k \<Rightarrow> (('k, 'v) dict \<times> de_ref option \<times> de_ref option) option" where
  "dictAddRaw junk can_resize d key = do {
     d \<leftarrow> (if dictIsRehashing d then dictRehashStep d else Some d);
     (d, index, existing) \<leftarrow> dictKeyIndex can_resize d key (dictHashKey d key);
     if index = - 1 then Some (d, None, existing)
     else
       (let entry = \<lparr>de_key = dictSetKey d key, de_val = junk\<rparr>;
            i = nat index
        in if dictIsRehashing d
           then Some (d\<lparr>ht1 := (upd_bucket (Cons entry) i (ht1 d))\<lparr>used := used (ht1 d) + 1\<rparr>\<rparr>, Some (1, i, 0), existing)
           else Some (d\<lparr>ht0 := (upd_bucket (Cons entry) i (ht0 d))\<lparr>used := used (ht0 d) + 1\<rparr>\<rparr>, Some (0, i, 0), existing))
   }"

definition dictAdd :: "'v \<Rightarrow> bool \<Rightarrow> ('k, 'v) dict \<Rightarrow> 'k \<Rightarrow> 'v \<Rightarrow> (('k, 'v) dict \<times> dict_result) option" where
  "dictAdd junk can_resize d key v = do {
     (d, entry, _) \<leftarrow> dictAddRaw junk can_resize d key;
     case entry of
       None \<Rightarrow> Some (d, DICT_ERR)
     | Some e \<Rightarrow> Some (dictSetVal d e v, DICT_OK)
   }"

text \<open>\<open>dictReplace\<close>: whether the key was added; \<^const>\<open>None\<close> where \<open>existing\<close> would be a null pointer.\<close>

definition dictReplace :: "'v \<Rightarrow> bool \<Rightarrow> ('k, 'v) dict \<Rightarrow> 'k \<Rightarrow> 'v \<Rightarrow> (('k, 'v) dict \<times> bool) option" where
  "dictReplace junk can_resize d key v = do {
     (d, entry, existing) \<leftarrow> dictAddRaw junk can_resize d key;
     case entry of
       Some e \<Rightarrow> Some (dictSetVal d e v, True)
     | None \<Rightarrow> do { e \<leftarrow> existing; Some (dictSetVal d e v, False) }
   }"

definition dictAddOrFind :: "'v \<Rightarrow> bool \<Rightarrow> ('k, 'v) dict \<Rightarrow> 'k \<Rightarrow> (('k, 'v) dict \<times> de_ref option) option" where
  "dictAddOrFind junk can_resize d key = do {
     (d, entry, existing) \<leftarrow> dictAddRaw junk can_resize d key;
     Some (d, case entry of Some e \<Rightarrow> Some e | None \<Rightarrow> existing)
   }"

subsection \<open>Removal and lookup\<close>

text \<open>Unlinking the entry at place \<open>p\<close> of a chain.\<close>

definition unlink_at :: "nat \<Rightarrow> 'a list \<Rightarrow> 'a list" where
  "unlink_at p chain = take p chain @ drop (Suc p) chain"

definition dictGenericDelete :: "('k, 'v) dict \<Rightarrow> 'k \<Rightarrow> (('k, 'v) dict \<times> ('k, 'v) dictEntry option) option" where
  "dictGenericDelete d key =
    (if used (ht0 d) = 0 \<and> used (ht1 d) = 0 then Some (d, None)
     else do {
       d \<leftarrow> (if dictIsRehashing d then dictRehashStep d else Some d);
       let h = dictHashKey d key;
       let idx = unat (h AND sizemask (ht0 d));
       chain \<leftarrow> get_at (table (ht0 d)) idx;
       case chain_find d key chain of
         Some p \<Rightarrow> Some (d\<lparr>ht0 := (upd_bucket (unlink_at p) idx (ht0 d))\<lparr>used := used (ht0 d) - 1\<rparr>\<rparr>, Some (chain ! p))
       | None \<Rightarrow>
           if \<not> dictIsRehashing d then Some (d, None)
           else do {
             let idx = unat (h AND sizemask (ht1 d));
             chain \<leftarrow> get_at (table (ht1 d)) idx;
             case chain_find d key chain of
               Some p \<Rightarrow> Some (d\<lparr>ht1 := (upd_bucket (unlink_at p) idx (ht1 d))\<lparr>used := used (ht1 d) - 1\<rparr>\<rparr>, Some (chain ! p))
             | None \<Rightarrow> Some (d, None)
           }
     })"

definition dictDelete :: "('k, 'v) dict \<Rightarrow> 'k \<Rightarrow> (('k, 'v) dict \<times> dict_result) option" where
  "dictDelete d key = do {
     (d, he) \<leftarrow> dictGenericDelete d key;
     Some (d, if he \<noteq> None then DICT_OK else DICT_ERR) }"

definition dictUnlink :: "('k, 'v) dict \<Rightarrow> 'k \<Rightarrow> (('k, 'v) dict \<times> ('k, 'v) dictEntry option) option" where
  "dictUnlink d key = dictGenericDelete d key"

definition dictFind :: "('k, 'v) dict \<Rightarrow> 'k \<Rightarrow> (('k, 'v) dict \<times> de_ref option) option" where
  "dictFind d key =
    (if dictSize d = 0 then Some (d, None)
     else do {
       d \<leftarrow> (if dictIsRehashing d then dictRehashStep d else Some d);
       let h = dictHashKey d key;
       let idx = unat (h AND sizemask (ht0 d));
       chain \<leftarrow> get_at (table (ht0 d)) idx;
       case chain_find d key chain of
         Some p \<Rightarrow> Some (d, Some (0, idx, p))
       | None \<Rightarrow>
           if \<not> dictIsRehashing d then Some (d, None)
           else do {
             let idx = unat (h AND sizemask (ht1 d));
             chain \<leftarrow> get_at (table (ht1 d)) idx;
             case chain_find d key chain of
               Some p \<Rightarrow> Some (d, Some (1, idx, p))
             | None \<Rightarrow> Some (d, None)
           }
     })"

definition dictFetchValue :: "('k, 'v) dict \<Rightarrow> 'k \<Rightarrow> (('k, 'v) dict \<times> 'v option) option" where
  "dictFetchValue d key = do {
     (d, he) \<leftarrow> dictFind d key;
     Some (d, map_option (\<lambda>r. de_val (deref d r)) he) }"

text \<open>\<open>_dictClear\<close>: the entries that are released, in order, and the reset table.\<close>

fun clear_loop :: "'a list list \<Rightarrow> nat \<Rightarrow> 'a list" where
  "clear_loop [] n = []"
| "clear_loop (b # bs) n = (if n > 0 then b @ clear_loop bs (n - length b) else [])"

definition dictClear :: "('k, 'v) dictht \<Rightarrow> ('k, 'v) dictEntry list \<times> ('k, 'v) dictht" where
  "dictClear h = (clear_loop (table h) (used h), dictReset)"

definition dictRelease :: "('k, 'v) dict \<Rightarrow> ('k, 'v) dictEntry list" where
  "dictRelease d = fst (dictClear (ht0 d)) @ fst (dictClear (ht1 d))"

definition dictEmpty :: "('k, 'v) dict \<Rightarrow> ('k, 'v) dictEntry list \<times> ('k, 'v) dict" where
  "dictEmpty d =
    (let (f0, h0) = dictClear (ht0 d); (f1, h1) = dictClear (ht1 d)
     in (f0 @ f1, d\<lparr>ht0 := h0, ht1 := h1, rehashidx := - 1, pauserehash := 0\<rparr>))"

end
