(* ===== verification/Dict_Proofs.thy ===== *)
theory Dict_Proofs
  imports Dict
begin

section \<open>Correctness of the hash tables\<close>

text \<open>
  The invariant \<open>dict_inv\<close> of a dictionary (bucket arrays of power-of-two size whose entries sit in the
  bucket of their hash, exact counters, an empty prefix below \<open>rehashidx\<close>, no key twice) and the proofs
  that every operation keeps it and implements the corresponding operation on the map \<open>dict_map\<close>.
  What the function pointers of a \<open>dictType\<close> have to satisfy is the locale \<open>dict_type\<close>; under it
  the dictionary is a \<open>map_store\<close>.
\<close>

subsection \<open>Abstraction and invariant\<close>

definition dict_entries :: "('k, 'v) dict \<Rightarrow> ('k, 'v) dictEntry list" where
  "dict_entries d = concat (table (ht0 d)) @ concat (table (ht1 d))"

definition dict_map :: "('k \<Rightarrow> 'c) \<Rightarrow> ('k, 'v) dict \<Rightarrow> 'c \<Rightarrow> 'v option" where
  "dict_map canon d = map_of (map (\<lambda>e. (canon (de_key e), de_val e)) (dict_entries d))"

definition ht_inv :: "('k \<Rightarrow> u64) \<Rightarrow> ('k, 'v) dictht \<Rightarrow> bool" where
  "ht_inv hash h \<longleftrightarrow>
    length (table h) = ht_size h \<and> used h = length (concat (table h)) \<and>
    (ht_size h = 0 \<and> sizemask h = 0 \<or> (\<exists>k\<in>{2..60}. ht_size h = 2 ^ k \<and> sizemask h = mask k)) \<and>
    (\<forall>i < ht_size h. \<forall>e \<in> set (table h ! i). unat (hash (de_key e) AND sizemask h) = i)"

definition dict_inv :: "('k \<Rightarrow> bool) \<Rightarrow> ('k \<Rightarrow> 'c) \<Rightarrow> ('k, 'v) dict \<Rightarrow> bool" where
  "dict_inv okkey canon d \<longleftrightarrow>
    ht_inv (dictHashKey d) (ht0 d) \<and> ht_inv (dictHashKey d) (ht1 d) \<and>
    (if dictIsRehashing d
     then 0 \<le> rehashidx d \<and> nat (rehashidx d) \<le> ht_size (ht0 d) \<and> ht_size (ht0 d) > 0 \<and> ht_size (ht1 d) > 0 \<and>
       (\<forall>i < nat (rehashidx d). table (ht0 d) ! i = [])
     else ht1 d = dictReset) \<and>
    (\<forall>e \<in> set (dict_entries d). okkey (de_key e)) \<and>
    distinct (map (\<lambda>e. canon (de_key e)) (dict_entries d))"

fun valid_ref :: "('k, 'v) dict \<Rightarrow> de_ref \<Rightarrow> bool" where
  "valid_ref d (t, i, p) \<longleftrightarrow>
    (let tab = table (if t = 0 then ht0 d else ht1 d) in i < length tab \<and> p < length (tab ! i))"

subsection \<open>Bucket arrays\<close>

lemma mset_concat_update:
  assumes "i < length xs"
  shows "mset (concat (xs[i := b])) + mset (xs ! i) = mset (concat xs) + mset b"
  using assms
proof (induction xs arbitrary: i)
  case (Cons x xs)
  then show ?case by (cases i) (auto simp: ac_simps)
qed simp

lemma length_concat_update:
  assumes "i < length xs"
  shows "length (concat (xs[i := b])) + length (xs ! i) = length (concat xs) + length b"
  using mset_concat_update [OF assms, of b, THEN arg_cong [of _ _ size]] by simp

lemma dictReset_inv [simp]: "ht_inv hash dictReset"
  by (simp add: ht_inv_def dictReset_def)

lemma dictReset_simps [simp]:
  "table dictReset = []" "ht_size dictReset = 0" "used dictReset = 0" "sizemask dictReset = 0"
  by (simp_all add: dictReset_def)

lemma upd_bucket_simps [simp]:
  "ht_size (upd_bucket f i h) = ht_size h" "sizemask (upd_bucket f i h) = sizemask h"
  "used (upd_bucket f i h) = used h"
  "table (upd_bucket f i h) = (table h)[i := f (table h ! i)]"
  by (simp_all add: upd_bucket_def)

lemma and_mask_less:
  assumes "k \<le> 60"
  shows "unat ((h :: u64) AND mask k) < 2 ^ k"
proof -
  have "unat (h AND mask k) = take_bit k (unat h)"
    unfolding take_bit_eq_mask [symmetric] by (rule unsigned_take_bit_eq)
  then show ?thesis by simp
qed

lemma ht_inv_index:
  assumes "ht_inv hash h" and "ht_size h > 0"
  shows "unat (x AND sizemask h) < length (table h)"
  using assms and_mask_less by (auto simp: ht_inv_def)

lemma ht_inv_upd:
  assumes "ht_inv hash h" and "i < ht_size h" and "\<forall>e \<in> set (f (table h ! i)). unat (hash (de_key e) AND sizemask h) = i"
    and "n + length (table h ! i) = used h + length (f (table h ! i))"
  shows "ht_inv hash ((upd_bucket f i h)\<lparr>used := n\<rparr>)"
  using assms length_concat_update [of i "table h" "f (table h ! i)"]
  by (auto simp: ht_inv_def nth_list_update)

lemma ht_inv_bucket:
  assumes "ht_inv hash h" and "e \<in> set (concat (table h))"
  shows "e \<in> set (table h ! unat (hash (de_key e) AND sizemask h))" "ht_size h > 0"
proof -
  obtain i where i: "i < ht_size h" "e \<in> set (table h ! i)"
  proof -
    from assms(2) obtain b where "b \<in> set (table h)" "e \<in> set b" by auto
    then show ?thesis using assms(1) that by (metis ht_inv_def in_set_conv_nth)
  qed
  moreover have "unat (hash (de_key e) AND sizemask h) = i"
    using assms(1) i by (simp add: ht_inv_def)
  ultimately show "e \<in> set (table h ! unat (hash (de_key e) AND sizemask h))" "ht_size h > 0" by auto
qed

lemma ht_inv_used_0:
  assumes "ht_inv hash h" and "used h = 0"
  shows "concat (table h) = []"
  using assms by (simp add: ht_inv_def)

subsection \<open>Rehashing\<close>

lemma rehash_skip_spec:
  assumes "\<exists>j \<ge> i. j < length tab \<and> tab ! j \<noteq> []" and "ev > 0"
  shows "\<exists>i' ev' out. rehash_skip tab i ev = Some (i', ev', out) \<and> i \<le> i' \<and> i' \<le> length tab \<and>
    (\<forall>j. i \<le> j \<and> j < i' \<longrightarrow> tab ! j = []) \<and>
    (if out then i < i' else i' < length tab \<and> tab ! i' \<noteq> [] \<and> ev' > 0)"
  using assms
proof (induction tab i ev rule: rehash_skip.induct)
  case (1 tab i ev)
  have i: "i < length tab" using 1(2) by auto
  show ?case
  proof (cases "tab ! i = []")
    case empty: True
    show ?thesis
    proof (cases "ev - 1 = 0")
      case True
      then have "rehash_skip tab i ev = Some (Suc i, 0, True)"
        using i empty by (subst rehash_skip.simps) simp
      moreover have "\<forall>j. i \<le> j \<and> j < Suc i \<longrightarrow> tab ! j = []"
        using empty by (metis le_less_Suc_eq)
      ultimately show ?thesis using i by (intro exI [of _ "Suc i"] exI [of _ 0] exI [of _ True]) simp
    next
      case False
      have "\<exists>j \<ge> Suc i. j < length tab \<and> tab ! j \<noteq> []"
        using 1(2) empty by (metis le_antisym not_less_eq_eq)
      then obtain i' ev' out where IH: "rehash_skip tab (Suc i) (ev - 1) = Some (i', ev', out)" "Suc i \<le> i'" "i' \<le> length tab"
        "\<forall>j. Suc i \<le> j \<and> j < i' \<longrightarrow> tab ! j = []"
        "if out then Suc i < i' else i' < length tab \<and> tab ! i' \<noteq> [] \<and> ev' > 0"
        using 1(1) [OF i empty False] 1(3) False by auto
      have "rehash_skip tab i ev = Some (i', ev', out)"
        using i empty False IH(1) by (subst rehash_skip.simps) simp
      moreover have "\<forall>j. i \<le> j \<and> j < i' \<longrightarrow> tab ! j = []"
        using IH(4) empty by (metis le_antisym not_less_eq_eq)
      moreover have "if out then i < i' else i' < length tab \<and> tab ! i' \<noteq> [] \<and> ev' > 0"
        using IH(5) by (simp split: if_splits)
      ultimately show ?thesis using IH(2,3) Suc_leD by blast
    qed
  next
    case False
    then have "rehash_skip tab i ev = Some (i, ev, False)" using i by (subst rehash_skip.simps) simp
    then show ?thesis using i 1(3) False by (intro exI [of _ i] exI [of _ ev] exI [of _ False]) auto
  qed
qed

lemma rehash_chain_spec:
  assumes "ht_inv (dictHashKey d) (ht1 d)" and "ht_size (ht1 d) > 0"
  shows "\<exists>h. rehash_chain d chain = Some (d\<lparr>ht0 := (ht0 d)\<lparr>used := used (ht0 d) - length chain\<rparr>, ht1 := h\<rparr>) \<and>
    ht_inv (dictHashKey d) h \<and> ht_size h = ht_size (ht1 d) \<and>
    mset (concat (table h)) = mset (concat (table (ht1 d))) + mset chain"
  using assms
proof (induction chain arbitrary: d)
  case (Cons e chain)
  let ?i = "unat (dictHashKey d (de_key e) AND sizemask (ht1 d))"
  have i: "?i < length (table (ht1 d))" by (rule ht_inv_index [OF Cons.prems])
  let ?h = "(upd_bucket (Cons e) ?i (ht1 d))\<lparr>used := used (ht1 d) + 1\<rparr>"
  let ?d = "d\<lparr>ht0 := (ht0 d)\<lparr>used := used (ht0 d) - 1\<rparr>, ht1 := ?h\<rparr>"
  have step: "rehash_entry d e = Some ?d" using i by (simp add: rehash_entry_def)
  have hash: "dictHashKey ?d = dictHashKey d" by (simp add: dictHashKey_def fun_eq_iff)
  have "ht_inv (dictHashKey d) ?h"
    using Cons.prems i by (intro ht_inv_upd) (auto simp: ht_inv_def)
  moreover have "mset (concat (table ?h)) = add_mset e (mset (concat (table (ht1 d))))"
    using mset_concat_update [OF i, of "e # table (ht1 d) ! ?i"] by simp
  ultimately show ?case
    using Cons.IH [of ?d] Cons.prems step unfolding hash by auto
next
  case Nil
  then show ?case by (intro exI [of _ "ht1 d"]) simp
qed

lemma mset_entries: "mset (dict_entries d) = mset (concat (table (ht0 d))) + mset (concat (table (ht1 d)))"
  by (simp add: dict_entries_def)

lemma dict_inv_mset:
  assumes "mset (dict_entries d') = mset (dict_entries d)"
  shows "(\<forall>e \<in> set (dict_entries d'). P e) = (\<forall>e \<in> set (dict_entries d). P e)"
    and "distinct (map f (dict_entries d')) = distinct (map f (dict_entries d))"
proof -
  show "(\<forall>e \<in> set (dict_entries d'). P e) = (\<forall>e \<in> set (dict_entries d). P e)"
    using mset_eq_setD [OF assms] by simp
  have "mset (map f (dict_entries d')) = mset (map f (dict_entries d))" using assms by simp
  then show "distinct (map f (dict_entries d')) = distinct (map f (dict_entries d))"
    by (rule mset_eq_imp_distinct_iff)
qed

lemma dictHashKey_upd [simp]:
  "dictHashKey (d\<lparr>ht0 := h\<rparr>) = dictHashKey d" "dictHashKey (d\<lparr>ht1 := h\<rparr>) = dictHashKey d"
  "dictHashKey (d\<lparr>rehashidx := r\<rparr>) = dictHashKey d" "dictHashKey (d\<lparr>pauserehash := r\<rparr>) = dictHashKey d"
  by (simp_all add: dictHashKey_def fun_eq_iff)

text \<open>What a rehashing step may change: the layout, never the entries.\<close>

definition same_content :: "('k, 'v) dict \<Rightarrow> ('k, 'v) dict \<Rightarrow> bool" where
  "same_content d d' \<longleftrightarrow> mset (dict_entries d') = mset (dict_entries d) \<and> d_type d' = d_type d \<and>
    pauserehash d' = pauserehash d"

lemma same_content_refl [simp]: "same_content d d"
  by (simp add: same_content_def)

lemma same_content_trans: "same_content d d' \<Longrightarrow> same_content d' d'' \<Longrightarrow> same_content d d''"
  by (simp add: same_content_def)

lemma dict_inv_tables:
  assumes "dict_inv okkey canon d"
  shows "ht_inv (dictHashKey d) (ht0 d)" "ht_inv (dictHashKey d) (ht1 d)"
    "length (table (ht0 d)) = ht_size (ht0 d)" "length (table (ht1 d)) = ht_size (ht1 d)"
  using assms by (simp_all add: dict_inv_def ht_inv_def)

lemma dict_inv_rehashing:
  assumes "dict_inv okkey canon d" and "dictIsRehashing d"
  shows "0 \<le> rehashidx d" "nat (rehashidx d) \<le> ht_size (ht0 d)" "ht_size (ht0 d) > 0" "ht_size (ht1 d) > 0"
    "i < nat (rehashidx d) \<Longrightarrow> table (ht0 d) ! i = []"
  using assms by (simp_all add: dict_inv_def)

lemma dict_inv_keys:
  assumes "dict_inv okkey canon d"
  shows "e \<in> set (dict_entries d) \<Longrightarrow> okkey (de_key e)" "distinct (map (\<lambda>e. canon (de_key e)) (dict_entries d))"
  using assms by (simp_all add: dict_inv_def)

lemma rehashing_bucket_left:
  assumes "dict_inv okkey canon d" and "dictIsRehashing d" and "used (ht0 d) \<noteq> 0"
  shows "\<exists>j \<ge> nat (rehashidx d). j < length (table (ht0 d)) \<and> table (ht0 d) ! j \<noteq> []"
proof (rule ccontr)
  assume none: "\<not> ?thesis"
  have "table (ht0 d) ! j = []" if "j < length (table (ht0 d))" for j
    using that none dict_inv_rehashing(5) [OF assms(1,2)] by (meson not_less)
  then have "\<forall>b \<in> set (table (ht0 d)). b = []" by (metis in_set_conv_nth)
  then have "concat (table (ht0 d)) = []" by simp
  then show False using dict_inv_tables(1) [OF assms(1)] assms(3) by (simp add: ht_inv_def)
qed

lemma rehash_bucket_inv:
  assumes inv: "dict_inv okkey canon d" and re: "dictIsRehashing d"
    and i: "nat (rehashidx d) \<le> i" "i < length (table (ht0 d))" and empty: "\<forall>j. nat (rehashidx d) \<le> j \<and> j < i \<longrightarrow> table (ht0 d) ! j = []"
  shows "\<exists>d1. rehash_chain (d\<lparr>rehashidx := int i\<rparr>) (table (ht0 d) ! i) = Some d1 \<and>
    (let d2 = d1\<lparr>ht0 := upd_bucket (\<lambda>_. []) i (ht0 d1), rehashidx := int (Suc i)\<rparr>
     in dict_inv okkey canon d2 \<and> dictIsRehashing d2 \<and> same_content d d2 \<and>
       ht_size (ht0 d2) = ht_size (ht0 d))"
proof -
  let ?b = "table (ht0 d) ! i" and ?d = "d\<lparr>rehashidx := int i\<rparr>"
  have h1: "ht_inv (dictHashKey d) (ht1 d)" "ht_size (ht1 d) > 0" and h0: "ht_inv (dictHashKey d) (ht0 d)"
    using dict_inv_tables [OF inv] dict_inv_rehashing [OF inv re] by simp_all
  then obtain h where chain: "rehash_chain ?d ?b = Some (d\<lparr>rehashidx := int i, ht0 := (ht0 d)\<lparr>used := used (ht0 d) - length ?b\<rparr>, ht1 := h\<rparr>)"
    and h: "ht_inv (dictHashKey d) h" "ht_size h = ht_size (ht1 d)"
      "mset (concat (table h)) = mset (concat (table (ht1 d))) + mset ?b"
    using rehash_chain_spec [of ?d ?b] by auto
  define d2 where "d2 = d\<lparr>rehashidx := int (Suc i), ht1 := h,
    ht0 := (upd_bucket (\<lambda>_. []) i (ht0 d))\<lparr>used := used (ht0 d) - length ?b\<rparr>\<rparr>"
  have len: "length ?b \<le> used (ht0 d)"
    using length_concat_update [OF i(2), of "[]"] h0 by (simp add: ht_inv_def)
  have inv0: "ht_inv (dictHashKey d) (ht0 d2)"
    unfolding d2_def using h0 i len by (simp, intro ht_inv_upd) (auto simp: ht_inv_def)
  have mset: "mset (dict_entries d2) = mset (dict_entries d)"
    using mset_concat_update [OF i(2), of "[]"] h(3) by (simp add: mset_entries d2_def)
  have "table (ht0 d) ! j = []" if "j < i" for j
    using that empty dict_inv_rehashing(5) [OF inv re] by (meson not_less)
  then have "table (ht0 d2) ! j = []" if "j < Suc i" for j
    using that i(2) by (cases "j = i") (simp_all add: d2_def)
  moreover have "ht_size (ht0 d2) = ht_size (ht0 d)" "Suc i \<le> ht_size (ht0 d)" "ht1 d2 = h" "dictIsRehashing d2"
    "nat (rehashidx d2) = Suc i" "0 \<le> rehashidx d2" "dictHashKey d2 = dictHashKey d"
    using i(2) h0 by (simp_all add: d2_def dictIsRehashing_def ht_inv_def)
  ultimately have "dict_inv okkey canon d2"
    using inv0 h dict_inv_rehashing [OF inv re] dict_inv_keys [OF inv] dict_inv_mset(1) [OF mset] dict_inv_mset(2) [OF mset, where f = "\<lambda>e. canon (de_key e)"]
    unfolding dict_inv_def by simp
  moreover define d1 where d1_def: "d1 = d\<lparr>rehashidx := int i, ht0 := (ht0 d)\<lparr>used := used (ht0 d) - length ?b\<rparr>, ht1 := h\<rparr>"
  have "d1\<lparr>ht0 := upd_bucket (\<lambda>_. []) i (ht0 d1), rehashidx := int (Suc i)\<rparr> = d2"
    by (simp add: d1_def d2_def upd_bucket_def)
  moreover have "dictIsRehashing d2" "same_content d d2" "ht_size (ht0 d1) = ht_size (ht0 d)"
    using mset by (simp_all add: d1_def d2_def same_content_def dictIsRehashing_def)
  ultimately show ?thesis
    using chain [folded d1_def] by (simp add: Let_def)
qed

lemma rehash_loop_spec:
  assumes "dict_inv okkey canon d" and "dictIsRehashing d" and "ev > 0 \<or> n = 0"
  shows "\<exists>d' out. rehash_loop d n ev = Some (d', out) \<and> dict_inv okkey canon d' \<and> dictIsRehashing d' \<and>
    same_content d d' \<and> ht_size (ht0 d') = ht_size (ht0 d) \<and> rehashidx d \<le> rehashidx d' \<and>
    (used (ht0 d) \<noteq> 0 \<and> n > 0 \<longrightarrow> rehashidx d < rehashidx d')"
  using assms
proof (induction n arbitrary: d ev)
  case (Suc n)
  show ?case
  proof (cases "used (ht0 d) = 0")
    case False
    note left = rehashing_bucket_left [OF Suc.prems(1,2) False]
    have idx: "0 \<le> rehashidx d" "nat (rehashidx d) < ht_size (ht0 d)" "length (table (ht0 d)) = ht_size (ht0 d)"
      using left dict_inv_tables [OF Suc.prems(1)] dict_inv_rehashing(1) [OF Suc.prems(1,2)] by auto
    obtain i ev' out where skip: "rehash_skip (table (ht0 d)) (nat (rehashidx d)) ev = Some (i, ev', out)"
      and i: "nat (rehashidx d) \<le> i" "i \<le> length (table (ht0 d))"
        "\<forall>j. nat (rehashidx d) \<le> j \<and> j < i \<longrightarrow> table (ht0 d) ! j = []"
        "if out then nat (rehashidx d) < i else i < length (table (ht0 d)) \<and> table (ht0 d) ! i \<noteq> [] \<and> ev' > 0"
      using rehash_skip_spec [OF left, of ev] Suc.prems(3) by auto
    show ?thesis
    proof (cases out)
      case True
      have "table (ht0 d) ! j = []" if "j < i" for j
        using that i(3) dict_inv_rehashing(5) [OF Suc.prems(1,2)] by (meson not_less)
      then have "dict_inv okkey canon (d\<lparr>rehashidx := int i\<rparr>)"
        using Suc.prems(1,2) i(2) idx(3) by (simp add: dict_inv_def dictIsRehashing_def dict_entries_def)
      then show ?thesis
        using True skip False idx i by (auto simp: same_content_def dictIsRehashing_def dict_entries_def)
    next
      case running: False
      then have ib: "i < length (table (ht0 d))" "ev' > 0" using i(4) by auto
      obtain d1 where d1: "rehash_chain (d\<lparr>rehashidx := int i\<rparr>) (table (ht0 d) ! i) = Some d1"
        and d2: "let d2 = d1\<lparr>ht0 := upd_bucket (\<lambda>_. []) i (ht0 d1), rehashidx := int (Suc i)\<rparr>
          in dict_inv okkey canon d2 \<and> dictIsRehashing d2 \<and> same_content d d2 \<and> ht_size (ht0 d2) = ht_size (ht0 d)"
        using rehash_bucket_inv [OF Suc.prems(1,2) i(1) ib(1) i(3)] by auto
      define e where "e = d1\<lparr>ht0 := upd_bucket (\<lambda>_. []) i (ht0 d1), rehashidx := int (Suc i)\<rparr>"
      have e: "dict_inv okkey canon e" "dictIsRehashing e" "same_content d e" "ht_size (ht0 e) = ht_size (ht0 d)"
        "rehashidx e = int (Suc i)"
        using d2 by (simp_all add: e_def Let_def)
      obtain d' out' where IH: "rehash_loop e n ev' = Some (d', out')" "dict_inv okkey canon d'" "dictIsRehashing d'"
        "same_content e d'" "ht_size (ht0 d') = ht_size (ht0 e)" "rehashidx e \<le> rehashidx d'"
        using Suc.IH [OF e(1,2), of ev'] ib by auto
      have "rehash_loop d (Suc n) ev = Some (d', out')"
        using False idx skip running d1 IH(1) by (simp add: e_def)
      then show ?thesis using IH e same_content_trans [OF e(3) IH(4)] i(1) idx(1) by auto
    qed
  next
    case True
    then have "rehash_loop d (Suc n) ev = Some (d, False)" by simp
    then show ?thesis using Suc.prems True same_content_refl by (intro exI [of _ d] exI [of _ False]) simp
  qed
next
  case 0
  then show ?case by (intro exI [of _ d] exI [of _ False]) simp
qed

lemma dictRehash_spec:
  assumes "dict_inv okkey canon d"
  shows "\<exists>d' more. dictRehash d n = Some (d', more) \<and> dict_inv okkey canon d' \<and> same_content d d' \<and>
    more = dictIsRehashing d' \<and> (dictIsRehashing d' \<longrightarrow> dictIsRehashing d \<and> ht_size (ht0 d') = ht_size (ht0 d) \<and>
      (n > 0 \<longrightarrow> rehashidx d < rehashidx d'))"
proof (cases "dictIsRehashing d")
  case True
  obtain d' out where loop: "rehash_loop d n (int n * 10) = Some (d', out)" "dict_inv okkey canon d'" "dictIsRehashing d'"
    "same_content d d'" "ht_size (ht0 d') = ht_size (ht0 d)" "used (ht0 d) \<noteq> 0 \<and> n > 0 \<longrightarrow> rehashidx d < rehashidx d'"
    using rehash_loop_spec [OF assms True, of "int n * 10" n] by auto
  have stop: "out = False \<and> d' = d" if "used (ht0 d) = 0"
    using loop(1) that by (cases n) auto
  show ?thesis
  proof (cases "out \<or> used (ht0 d') \<noteq> 0")
    case True
    then show ?thesis using loop stop \<open>dictIsRehashing d\<close> by (auto simp: dictRehash_def)
  next
    case False
    let ?d = "d'\<lparr>ht0 := ht1 d', ht1 := dictReset, rehashidx := - 1\<rparr>"
    have "ht_inv (dictHashKey d') (ht0 d')" using loop(2) by (simp add: dict_inv_def)
    then have "concat (table (ht0 d')) = []" using False by (intro ht_inv_used_0) auto
    then have ent: "dict_entries ?d = dict_entries d'" by (simp add: dict_entries_def)
    then have "dict_inv okkey canon ?d" using loop(2) by (simp add: dict_inv_def dictIsRehashing_def)
    moreover have "same_content d ?d" using loop(4) ent by (simp add: same_content_def)
    ultimately show ?thesis using False loop(1) True by (auto simp: dictRehash_def dictIsRehashing_def)
  qed
qed (use assms in \<open>auto simp: dictRehash_def\<close>)

lemma dictRehashStep_spec:
  assumes "dict_inv okkey canon d"
  shows "\<exists>d'. dictRehashStep d = Some d' \<and> dict_inv okkey canon d' \<and> same_content d d'"
  using dictRehash_spec [OF assms, of 1] assms by (auto simp: dictRehashStep_def)

lemma rehash_first_spec:
  assumes "dict_inv okkey canon d"
  shows "\<exists>d'. (if dictIsRehashing d then dictRehashStep d else Some d) = Some d' \<and> dict_inv okkey canon d' \<and> same_content d d'"
  using dictRehashStep_spec [OF assms] assms by auto

subsection \<open>Expansion\<close>

lemma next_power_loop_spec:
  assumes "i = 2 ^ k" and "n \<le> 2 ^ m" and "k \<le> m"
  shows "\<exists>j. next_power_loop i n = 2 ^ j \<and> k \<le> j \<and> j \<le> m \<and> n \<le> 2 ^ j"
  using assms
proof (induction i n arbitrary: k rule: next_power_loop.induct)
  case (1 i n)
  show ?case
  proof (cases "i \<ge> n")
    case True
    then show ?thesis using 1 by (subst next_power_loop.simps) auto
  next
    case False
    have "\<not> (m \<le> k)"
    proof
      assume "m \<le> k"
      then have "m = k" using 1(4) by simp
      then show False using 1 False by simp
    qed
    then have "i * 2 = 2 ^ Suc k" "Suc k \<le> m" using 1(2) by simp_all
    then obtain j where "next_power_loop (i * 2) n = 2 ^ j" "Suc k \<le> j" "j \<le> m" "n \<le> 2 ^ j"
      using 1(1) [OF False, of "Suc k"] 1(2,3) by auto
    moreover have "next_power_loop i n = next_power_loop (i * 2) n"
      using False 1(2) by (subst next_power_loop.simps) simp
    ultimately show ?thesis by auto
  qed
qed

lemma dictNextPower_spec:
  assumes "n \<le> 2 ^ 60"
  shows "\<exists>k\<in>{2..60}. dictNextPower n = 2 ^ k \<and> n \<le> 2 ^ k"
proof -
  have "\<not> n \<ge> LONG_MAX" using assms by simp
  moreover obtain j where "next_power_loop 4 n = 2 ^ j" "2 \<le> j" "j \<le> 60" "n \<le> 2 ^ j"
    using next_power_loop_spec [of 4 2 n 60] assms by auto
  ultimately show ?thesis by (auto simp: dictNextPower_def)
qed

lemma new_table_inv:
  assumes "k \<in> {2..60}"
  shows "ht_inv hash \<lparr>table = replicate (2 ^ k) [], ht_size = 2 ^ k, sizemask = of_nat (2 ^ k - 1), used = 0\<rparr>"
proof -
  have "(of_nat (2 ^ k - 1) :: u64) = mask k"
    by (simp add: mask_eq_exp_minus_1 of_nat_diff)
  then show ?thesis using assms by (auto simp: ht_inv_def)
qed

lemma power_mult_8_no_overflow:
  assumes "k \<in> {2..60 :: nat}"
  shows "\<not> ((2 ^ k :: nat) * 8) mod 2 ^ 64 < 2 ^ k"
proof -
  have "(2 ^ k :: nat) * 8 = 2 ^ (k + 3)" by (simp add: power_add)
  moreover have "(2 ^ (k + 3) :: nat) < 2 ^ 64" using assms by (intro power_strict_increasing) auto
  ultimately show ?thesis by simp
qed

lemma dictExpand_spec:
  fixes d :: "('k, 'v) dict"
  assumes inv: "dict_inv okkey canon d" and n: "n \<le> 2 ^ 60" and run: "\<not> dictIsRehashing d" "used (ht0 d) \<le> n"
    and new: "dictNextPower n \<noteq> ht_size (ht0 d)"
  shows "\<exists>d'. dictExpand d n = (d', DICT_OK) \<and> dict_inv okkey canon d' \<and> same_content d d' \<and>
    (if dictIsRehashing d' then ht_size (ht1 d') = dictNextPower n else ht_size (ht0 d') = dictNextPower n)"
proof -
  obtain k where k: "k \<in> {2..60}" "dictNextPower n = 2 ^ k" "n \<le> 2 ^ k" using dictNextPower_spec [OF n] by auto
  define h :: "('k, 'v) dictht" where "h = \<lparr>table = replicate (2 ^ k) [], ht_size = 2 ^ k, sizemask = of_nat (2 ^ k - 1), used = 0\<rparr>"
  have h: "ht_inv hash h" "concat (table h) = []" "ht_size h = 2 ^ k" for hash
    using new_table_inv [OF k(1)] by (simp_all add: h_def)
  define d' where "d' = (if table (ht0 d) = [] then d\<lparr>ht0 := h\<rparr> else d\<lparr>ht1 := h, rehashidx := 0\<rparr>)"
  have "dictExpand d n = (d', DICT_OK)"
    using run new k power_mult_8_no_overflow [OF k(1)]
    by (simp add: dictExpand_def dictExpand_gen_def Let_def h_def d'_def)
  moreover have "ht1 d = dictReset" using inv run by (simp add: dict_inv_def)
  then have ent: "dict_entries d' = dict_entries d" using h(2) by (simp add: dict_entries_def d'_def)
  moreover have "dict_inv okkey canon d'"
  proof (cases "table (ht0 d) = []")
    case True
    then show ?thesis using inv run h ent by (simp add: dict_inv_def d'_def dictIsRehashing_def)
  next
    case False
    then have "ht_size (ht0 d) > 0" using dict_inv_tables(3) [OF inv] by (cases "table (ht0 d)") auto
    then show ?thesis using False inv h ent by (simp add: dict_inv_def d'_def dictIsRehashing_def)
  qed
  ultimately show ?thesis
    using h(3) k(2) run(1) by (auto simp: same_content_def d'_def dictIsRehashing_def)
qed

lemma dictExpandIfNeeded_spec:
  fixes d :: "('k, 'v) dict"
  assumes inv: "dict_inv okkey canon d" and room: "dictSize d < 2 ^ 60"
  shows "\<exists>d'. dictExpandIfNeeded can_resize d = (d', DICT_OK) \<and> dict_inv okkey canon d' \<and> same_content d d' \<and>
    ht_size (ht0 d') > 0"
proof -
  have used0: "ht_size (ht0 d) = 0 \<Longrightarrow> used (ht0 d) = 0"
    using dict_inv_tables(1) [OF inv] by (auto simp: ht_inv_def)
  have pos: "ht_size (ht0 d') > 0" if "dict_inv okkey canon d'" "dictIsRehashing d'" for d' :: "('k, 'v) dict"
    using dict_inv_rehashing [OF that] by simp
  consider (re) "dictIsRehashing d" | (init) "\<not> dictIsRehashing d" "ht_size (ht0 d) = 0"
    | (grow) "\<not> dictIsRehashing d" "ht_size (ht0 d) \<noteq> 0"
      "used (ht0 d) \<ge> ht_size (ht0 d) \<and> (can_resize \<or> used (ht0 d) div ht_size (ht0 d) > 5) \<and> dictTypeExpandAllowed d"
    | (keep) "\<not> dictIsRehashing d" "ht_size (ht0 d) \<noteq> 0"
      "\<not> (used (ht0 d) \<ge> ht_size (ht0 d) \<and> (can_resize \<or> used (ht0 d) div ht_size (ht0 d) > 5) \<and> dictTypeExpandAllowed d)"
    by blast
  then show ?thesis
  proof cases
    case re
    then show ?thesis using inv pos [OF inv] by (simp add: dictExpandIfNeeded_def)
  next
    case init
    have "dictNextPower 4 = 4" by (simp add: dictNextPower_def next_power_loop.simps)
    then show ?thesis
      using dictExpand_spec [OF inv, of 4] init used0 pos by (auto simp: dictExpandIfNeeded_def split: if_splits)
  next
    case grow
    have n: "used (ht0 d) + 1 \<le> 2 ^ 60" using room by (simp add: dictSize_def)
    obtain k where "dictNextPower (used (ht0 d) + 1) = 2 ^ k" "used (ht0 d) + 1 \<le> 2 ^ k"
      using dictNextPower_spec [OF n] by auto
    then have "dictNextPower (used (ht0 d) + 1) \<noteq> ht_size (ht0 d)" "dictNextPower (used (ht0 d) + 1) > 0"
      using grow(3) by auto
    then show ?thesis
      using dictExpand_spec [OF inv n] grow pos by (auto simp: dictExpandIfNeeded_def split: if_splits)
  next
    case keep
    then show ?thesis using inv by (auto simp: dictExpandIfNeeded_def)
  qed
qed

subsection \<open>The map a dictionary holds\<close>

abbreviation (input) canon_keys :: "('k \<Rightarrow> 'c) \<Rightarrow> ('k, 'v) dict \<Rightarrow> 'c list" where
  "canon_keys canon d \<equiv> map (\<lambda>e. canon (de_key e)) (dict_entries d)"

lemma dict_map_Some:
  assumes "distinct (canon_keys canon d)"
  shows "dict_map canon d c = Some v \<longleftrightarrow> (\<exists>e \<in> set (dict_entries d). canon (de_key e) = c \<and> de_val e = v)"
proof -
  have "distinct (map fst (map (\<lambda>e. (canon (de_key e), de_val e)) (dict_entries d)))"
    using assms by (simp add: comp_def)
  then show ?thesis unfolding dict_map_def by (auto simp: map_of_eq_Some_iff)
qed

lemma dict_map_None: "dict_map canon d c = None \<longleftrightarrow> c \<notin> set (canon_keys canon d)"
  unfolding dict_map_def map_of_eq_None_iff by (simp add: image_image)

lemma map_eqI:
  assumes "\<And>c v. m c = Some v \<longleftrightarrow> m' c = Some v"
  shows "m = m'"
  using assms by (metis ext not_Some_eq)

lemma distinct_canon_mset:
  assumes "mset (dict_entries d') = mset xs"
  shows "distinct (canon_keys canon d') \<longleftrightarrow> distinct (map (\<lambda>e. canon (de_key e)) xs)"
  using assms by (metis mset_eq_imp_distinct_iff mset_map)

lemma same_content_map:
  assumes "same_content d d'" and "distinct (canon_keys canon d)"
  shows "dict_map canon d' = dict_map canon d"
proof (rule map_eqI)
  fix c v
  have m: "mset (dict_entries d') = mset (dict_entries d)" using assms(1) by (simp add: same_content_def)
  then have "distinct (canon_keys canon d')" using assms(2) distinct_canon_mset by blast
  then show "dict_map canon d' c = Some v \<longleftrightarrow> dict_map canon d c = Some v"
    using mset_eq_setD [OF m] by (simp add: dict_map_Some assms(2))
qed

text \<open>Adding and removing one entry of the multiset of entries.\<close>

lemma dict_map_add:
  assumes m: "mset (dict_entries d') = add_mset e (mset (dict_entries d))"
    and d: "distinct (canon_keys canon d)" and new: "canon (de_key e) \<notin> set (canon_keys canon d)"
  shows "distinct (canon_keys canon d')"
    and "dict_map canon d' = (dict_map canon d)(canon (de_key e) \<mapsto> de_val e)"
proof -
  have m': "mset (dict_entries d') = mset (e # dict_entries d)" using m by simp
  show d': "distinct (canon_keys canon d')"
    unfolding distinct_canon_mset [OF m'] using d new by simp
  have set: "set (dict_entries d') = insert e (set (dict_entries d))"
    using mset_eq_setD [OF m'] by simp
  have new': "x \<in> set (dict_entries d) \<Longrightarrow> canon (de_key x) \<noteq> canon (de_key e)" for x
    using new unfolding set_map image_iff by metis
  show "dict_map canon d' = (dict_map canon d)(canon (de_key e) \<mapsto> de_val e)"
  proof (rule map_eqI)
    fix c v
    show "dict_map canon d' c = Some v \<longleftrightarrow> ((dict_map canon d)(canon (de_key e) \<mapsto> de_val e)) c = Some v"
      using new' by (auto simp: dict_map_Some [OF d'] dict_map_Some [OF d] set)
  qed
qed

lemma dict_map_remove:
  assumes m: "mset (dict_entries d) = add_mset e (mset (dict_entries d'))"
    and d: "distinct (canon_keys canon d)"
  shows "distinct (canon_keys canon d')" and "canon (de_key e) \<notin> set (canon_keys canon d')"
    and "dict_map canon d' = (dict_map canon d)(canon (de_key e) := None)"
proof -
  have m': "mset (dict_entries d) = mset (e # dict_entries d')" using m by simp
  show d': "distinct (canon_keys canon d')" and new: "canon (de_key e) \<notin> set (canon_keys canon d')"
    using d unfolding distinct_canon_mset [OF m'] by simp_all
  have "dict_map canon d = (dict_map canon d')(canon (de_key e) \<mapsto> de_val e)"
    by (rule dict_map_add(2) [OF m d' new])
  moreover have "dict_map canon d' (canon (de_key e)) = None" using new by (simp add: dict_map_None)
  ultimately show "dict_map canon d' = (dict_map canon d)(canon (de_key e) := None)"
    by (simp add: fun_eq_iff)
qed

lemma dict_map_update:
  assumes m: "mset (dict_entries d) = add_mset e M" "mset (dict_entries d') = add_mset e' M" and k: "de_key e' = de_key e"
    and d: "distinct (canon_keys canon d)"
  shows "distinct (canon_keys canon d')"
    and "dict_map canon d' = (dict_map canon d)(canon (de_key e) \<mapsto> de_val e')"
proof -
  obtain xs where xs: "mset xs = M" by (metis ex_mset)
  have m': "mset (dict_entries d) = mset (e # xs)" "mset (dict_entries d') = mset (e' # xs)" using m xs by simp_all
  have dx: "distinct (map (\<lambda>e. canon (de_key e)) (e # xs))"
    using d distinct_canon_mset [OF m'(1)] by blast
  then show d': "distinct (canon_keys canon d')"
    unfolding distinct_canon_mset [OF m'(2)] using k by simp
  have set: "set (dict_entries d) = insert e (set xs)" "set (dict_entries d') = insert e' (set xs)"
    using mset_eq_setD [OF m'(1)] mset_eq_setD [OF m'(2)] by simp_all
  have new': "x \<in> set xs \<Longrightarrow> canon (de_key x) \<noteq> canon (de_key e)" for x
    using dx unfolding list.map distinct.simps set_map image_iff by metis
  show "dict_map canon d' = (dict_map canon d)(canon (de_key e) \<mapsto> de_val e')"
  proof (rule map_eqI)
    fix c v
    show "dict_map canon d' c = Some v \<longleftrightarrow> ((dict_map canon d)(canon (de_key e) \<mapsto> de_val e')) c = Some v"
      using new' k by (auto simp: dict_map_Some [OF d'] dict_map_Some [OF d] set)
  qed
qed

subsection \<open>Updates through a reference\<close>

definition ref_ht :: "('k, 'v) dict \<Rightarrow> nat \<Rightarrow> ('k, 'v) dictht" where
  "ref_ht d t = (if t = 0 then ht0 d else ht1 d)"

definition set_ref_ht :: "('k, 'v) dict \<Rightarrow> nat \<Rightarrow> ('k, 'v) dictht \<Rightarrow> ('k, 'v) dict" where
  "set_ref_ht d t h = (if t = 0 then d\<lparr>ht0 := h\<rparr> else d\<lparr>ht1 := h\<rparr>)"

lemma in_concat_nth: "i < length xs \<Longrightarrow> p < length (xs ! i) \<Longrightarrow> xs ! i ! p \<in> set (concat xs)"
  using nth_mem [of p "xs ! i"] nth_mem [of i xs] by (auto simp del: nth_mem)

lemma deref_mem: "valid_ref d r \<Longrightarrow> deref d r \<in> set (dict_entries d)"
  using in_concat_nth by (cases r) (auto simp: Let_def dict_entries_def simp del: set_concat split: if_splits)

text \<open>
  Every operation on one bucket goes through the next lemma: the table with the bucket replaced still
  satisfies the invariant of a dictionary.
\<close>

lemma dict_inv_bucket:
  assumes inv: "dict_inv okkey canon d" and h: "ht_inv (dictHashKey d) h"
    and size: "ht_size h = ht_size (ref_ht d t)" and t: "t = 0 \<or> dictIsRehashing d"
    and empty: "t = 0 \<longrightarrow> (\<forall>j. table (ht0 d) ! j = [] \<longrightarrow> j < nat (rehashidx d) \<longrightarrow> table h ! j = [])"
    and keys: "distinct (canon_keys canon (set_ref_ht d t h))" "\<forall>e \<in> set (dict_entries (set_ref_ht d t h)). okkey (de_key e)"
  shows "dict_inv okkey canon (set_ref_ht d t h)"
  using assms by (auto simp: dict_inv_def set_ref_ht_def ref_ht_def dictIsRehashing_def split: if_splits)

lemma set_ref_ht_simps [simp]:
  "d_type (set_ref_ht d t h) = d_type d" "rehashidx (set_ref_ht d t h) = rehashidx d"
  "pauserehash (set_ref_ht d t h) = pauserehash d" "dictIsRehashing (set_ref_ht d t h) = dictIsRehashing d"
  "dictHashKey (set_ref_ht d t h) = dictHashKey d" "ref_ht (set_ref_ht d t h) t = h"
  by (simp_all add: set_ref_ht_def dictIsRehashing_def ref_ht_def)

lemma mset_set_ref_ht:
  "mset (dict_entries (set_ref_ht d t h)) + mset (concat (table (ref_ht d t))) = mset (dict_entries d) + mset (concat (table h))"
  by (simp add: mset_entries set_ref_ht_def ref_ht_def ac_simps)

lemma dict_inv_ref_ht: "dict_inv okkey canon d \<Longrightarrow> ht_inv (dictHashKey d) (ref_ht d t)"
  by (simp add: dict_inv_tables ref_ht_def)

lemma ht_inv_bucket_hash:
  assumes "ht_inv hash h" and "i < length (table h)" and "e \<in> set (table h ! i)"
  shows "unat (hash (de_key e) AND sizemask h) = i"
  using assms by (simp add: ht_inv_def)

lemma replace_bucket:
  assumes inv: "dict_inv okkey canon d" and t: "t = 0 \<or> dictIsRehashing d"
    and i: "i < length (table (ref_ht d t))"
    and f: "\<forall>e \<in> set (f (table (ref_ht d t) ! i)). unat (dictHashKey d (de_key e) AND sizemask (ref_ht d t)) = i"
    and n: "n + length (table (ref_ht d t) ! i) = used (ref_ht d t) + length (f (table (ref_ht d t) ! i))"
    and empty: "\<not> dictIsRehashing d \<or> t = 1 \<or> f [] = []"
    and h: "h = (upd_bucket f i (ref_ht d t))\<lparr>used := n\<rparr>"
    and keys: "distinct (canon_keys canon (set_ref_ht d t h))" "\<forall>e \<in> set (dict_entries (set_ref_ht d t h)). okkey (de_key e)"
  shows "dict_inv okkey canon (set_ref_ht d t h)"
proof (rule dict_inv_bucket [OF inv _ _ t])
  show "ht_inv (dictHashKey d) h"
    unfolding h using dict_inv_ref_ht [OF inv, of t] i f n by (intro ht_inv_upd) (auto simp: ht_inv_def)
  show "t = 0 \<longrightarrow> (\<forall>j. table (ht0 d) ! j = [] \<longrightarrow> j < nat (rehashidx d) \<longrightarrow> table h ! j = [])"
    using empty i by (auto simp: h ref_ht_def nth_list_update dictIsRehashing_def)
qed (use h keys in simp_all)

lemma mset_replace_bucket:
  assumes "i < length (table (ref_ht d t))" and "h = (upd_bucket f i (ref_ht d t))\<lparr>used := n\<rparr>"
  shows "mset (dict_entries (set_ref_ht d t h)) + mset (table (ref_ht d t) ! i) =
    mset (dict_entries d) + mset (f (table (ref_ht d t) ! i))"
proof -
  let ?b = "mset (table (ref_ht d t) ! i)" and ?B = "mset (concat (table (ref_ht d t)))"
  let ?f = "mset (f (table (ref_ht d t) ! i))"
  have "mset (dict_entries (set_ref_ht d t h)) + ?b + ?B = (mset (dict_entries (set_ref_ht d t h)) + ?B) + ?b"
    by (simp only: ac_simps)
  also have "\<dots> = mset (dict_entries d) + (mset (concat (table h)) + ?b)"
    by (simp only: mset_set_ref_ht add.assoc)
  also have "mset (concat (table h)) + ?b = ?B + ?f"
    using mset_concat_update [OF assms(1)] by (simp add: assms(2))
  finally show ?thesis by (simp only: add.assoc [symmetric] add_right_cancel add.commute [of ?B ?f])
qed

lemma insert_entry:
  assumes inv: "dict_inv okkey canon d" and t: "t = (if dictIsRehashing d then 1 else 0)"
    and i: "i = unat (dictHashKey d (de_key e) AND sizemask (ref_ht d t))" and pos: "ht_size (ref_ht d t) > 0"
    and new: "canon (de_key e) \<notin> set (canon_keys canon d)" and ok: "okkey (de_key e)"
    and d': "d' = set_ref_ht d t ((upd_bucket (Cons e) i (ref_ht d t))\<lparr>used := used (ref_ht d t) + 1\<rparr>)"
  shows "dict_inv okkey canon d'" "dict_map canon d' = (dict_map canon d)(canon (de_key e) \<mapsto> de_val e)"
    "valid_ref d' (t, i, 0)" "deref d' (t, i, 0) = e" "dictSize d' = Suc (dictSize d)"
proof -
  let ?h = "ref_ht d t"
  have h: "ht_inv (dictHashKey d) ?h" by (rule dict_inv_ref_ht [OF inv])
  have il: "i < length (table ?h)" unfolding i by (rule ht_inv_index [OF h pos])
  have m: "mset (dict_entries d') = add_mset e (mset (dict_entries d))"
    using mset_replace_bucket [OF il refl, where f = "Cons e" and n = "used ?h + 1"] by (simp add: d')
  note map = dict_map_add [OF m dict_inv_keys(2) [OF inv] new]
  show "dict_map canon d' = (dict_map canon d)(canon (de_key e) \<mapsto> de_val e)" by (rule map(2))
  have "set (dict_entries d') = insert e (set (dict_entries d))"
    using m by (metis set_mset_add_mset_insert set_mset_mset)
  then have "\<forall>e \<in> set (dict_entries d'). okkey (de_key e)" using ok dict_inv_keys(1) [OF inv] by auto
  moreover have "\<forall>x \<in> set (e # table ?h ! i). unat (dictHashKey d (de_key x) AND sizemask ?h) = i"
    using ht_inv_bucket_hash [OF h il] i by auto
  ultimately show "dict_inv okkey canon d'"
    unfolding d' using inv t il map(1) by (intro replace_bucket) (auto simp: d')
  show "valid_ref d' (t, i, 0)" "deref d' (t, i, 0) = e"
    using il t by (auto simp: d' Let_def set_ref_ht_def ref_ht_def split: if_splits)
  show "dictSize d' = Suc (dictSize d)" by (simp add: d' dictSize_def set_ref_ht_def ref_ht_def)
qed

lemma mset_unlink_at: "p < length c \<Longrightarrow> add_mset (c ! p) (mset (unlink_at p c)) = mset c"
  unfolding unlink_at_def by (subst (3) id_take_nth_drop [of p c]) simp_all

lemma unlink_at_facts: "p < length c \<Longrightarrow> Suc (length (unlink_at p c)) = length c" "set (unlink_at p c) \<subseteq> set c"
  unfolding unlink_at_def by (auto dest: in_set_takeD in_set_dropD)

lemma remove_entry:
  assumes inv: "dict_inv okkey canon d" and t: "t = 0 \<or> t = 1 \<and> dictIsRehashing d" and r: "valid_ref d (t, i, p)"
    and d': "d' = set_ref_ht d t ((upd_bucket (unlink_at p) i (ref_ht d t))\<lparr>used := used (ref_ht d t) - 1\<rparr>)"
  shows "dict_inv okkey canon d'" "dict_map canon d' = (dict_map canon d)(canon (de_key (deref d (t, i, p))) := None)"
    "Suc (dictSize d') = dictSize d"
proof -
  let ?h = "ref_ht d t" and ?e = "deref d (t, i, p)"
  have h: "ht_inv (dictHashKey d) ?h" by (rule dict_inv_ref_ht [OF inv])
  have il: "i < length (table ?h)" "p < length (table ?h ! i)" and e: "?e = table ?h ! i ! p"
    using r by (auto simp: Let_def ref_ht_def split: if_splits)
  have "mset (dict_entries d') + mset (table ?h ! i) = mset (dict_entries d) + mset (unlink_at p (table ?h ! i))"
    using mset_replace_bucket [OF il(1) refl, where f = "unlink_at p" and n = "used ?h - 1"] by (simp add: d')
  then have m: "mset (dict_entries d) = add_mset ?e (mset (dict_entries d'))"
    unfolding mset_unlink_at [OF il(2), symmetric] e by simp
  note map = dict_map_remove [OF m dict_inv_keys(2) [OF inv]]
  show "dict_map canon d' = (dict_map canon d)(canon (de_key ?e) := None)" by (rule map(3))
  have "set (dict_entries d') \<subseteq> set (dict_entries d)"
    using m by (metis mset_subset_eq_add_right set_mset_mono set_mset_mset union_mset_add_mset_left add.left_neutral)
  then have "\<forall>e \<in> set (dict_entries d'). okkey (de_key e)" using dict_inv_keys(1) [OF inv] by auto
  moreover have "used ?h = length (concat (table ?h))" using h by (simp add: ht_inv_def)
  then have "used ?h \<noteq> 0" using in_concat_nth [OF il] by (metis empty_iff length_0_conv list.set(1))
  moreover have "\<forall>x \<in> set (unlink_at p (table ?h ! i)). unat (dictHashKey d (de_key x) AND sizemask ?h) = i"
    using ht_inv_bucket_hash [OF h il(1)] unlink_at_facts(2) by fast
  ultimately show "dict_inv okkey canon d'"
    unfolding d' using inv t il(1) map(1) unlink_at_facts(1) [OF il(2)]
    by (intro replace_bucket) (auto simp: d' unlink_at_def)
  show "Suc (dictSize d') = dictSize d"
    using \<open>used ?h \<noteq> 0\<close> by (auto simp: d' dictSize_def set_ref_ht_def ref_ht_def)
qed

lemma dictSetVal_eq:
  "dictSetVal d (t, i, p) v =
    set_ref_ht d t ((upd_bucket (\<lambda>c. c[p := (c ! p)\<lparr>de_val := dictDupVal d v\<rparr>]) i (ref_ht d t))\<lparr>used := used (ref_ht d t)\<rparr>)"
  by (simp add: set_ref_ht_def ref_ht_def Let_def upd_bucket_def)

lemma add_mset_exchange:
  assumes "add_mset a (mset xs) = add_mset b (mset ys)" and "a \<in> set ys"
  obtains M where "mset ys = add_mset a M" "mset xs = add_mset b M"
proof -
  have ys: "mset ys = add_mset a (mset ys - {#a#})" using assms(2) by simp
  then have "add_mset a (mset xs) = add_mset a (add_mset b (mset ys - {#a#}))"
    using assms(1) by (simp add: add_mset_commute)
  then show thesis using that [OF ys] by simp
qed

lemma dictSetVal_spec:
  assumes inv: "dict_inv okkey canon d" and t: "t = 0 \<or> t = 1 \<and> dictIsRehashing d" and r: "valid_ref d (t, i, p)"
    and d': "d' = dictSetVal d (t, i, p) v"
  shows "dict_inv okkey canon d'"
    "dict_map canon d' = (dict_map canon d)(canon (de_key (deref d (t, i, p))) \<mapsto> dictDupVal d v)"
    "dictSize d' = dictSize d"
proof -
  let ?h = "ref_ht d t" and ?e = "deref d (t, i, p)"
  let ?y = "?e\<lparr>de_val := dictDupVal d v\<rparr>" and ?f = "\<lambda>c. c[p := (c ! p)\<lparr>de_val := dictDupVal d v\<rparr>]"
  have h: "ht_inv (dictHashKey d) ?h" by (rule dict_inv_ref_ht [OF inv])
  have il: "i < length (table ?h)" "p < length (table ?h ! i)" and e: "?e = table ?h ! i ! p"
    using r by (auto simp: Let_def ref_ht_def split: if_splits)
  obtain C where C: "mset (table ?h ! i) = add_mset ?e C" "mset (?f (table ?h ! i)) = add_mset ?y C"
  proof (rule that)
    show "mset (table ?h ! i) = add_mset ?e (mset (table ?h ! i) - {#?e#})"
      unfolding e using il(2) by simp
    show "mset (?f (table ?h ! i)) = add_mset ?y (mset (table ?h ! i) - {#?e#})"
      unfolding e using il(2) by (simp add: mset_update)
  qed
  have "mset (dict_entries d') + mset (table ?h ! i) = mset (dict_entries d) + mset (?f (table ?h ! i))"
    using mset_replace_bucket [OF il(1) refl, where f = ?f and n = "used ?h"] by (simp add: d' dictSetVal_eq del: dictSetVal.simps)
  then have "add_mset ?e (mset (dict_entries d')) = add_mset ?y (mset (dict_entries d))" unfolding C by simp
  then obtain M where m: "mset (dict_entries d) = add_mset ?e M" "mset (dict_entries d') = add_mset ?y M"
    using deref_mem [OF r] by (rule add_mset_exchange)
  note map = dict_map_update [OF m _ dict_inv_keys(2) [OF inv]]
  show "dict_map canon d' = (dict_map canon d)(canon (de_key ?e) \<mapsto> dictDupVal d v)" using map(2) by simp
  have "set (dict_entries d') = insert ?y (set_mset M)" "set (dict_entries d) = insert ?e (set_mset M)"
    using m by (metis set_mset_add_mset_insert set_mset_mset)+
  then have "\<forall>e \<in> set (dict_entries d'). okkey (de_key e)" using dict_inv_keys(1) [OF inv] by auto
  moreover have "\<forall>x \<in> set (?f (table ?h ! i)). unat (dictHashKey d (de_key x) AND sizemask ?h) = i"
  proof
    fix x assume "x \<in> set (?f (table ?h ! i))"
    then have "x = ?y \<or> x \<in> set (table ?h ! i)" using C by (metis insert_iff set_mset_add_mset_insert set_mset_mset)
    then show "unat (dictHashKey d (de_key x) AND sizemask ?h) = i"
      using ht_inv_bucket_hash [OF h il(1)] il(2) e by auto
  qed
  ultimately show "dict_inv okkey canon d'"
    unfolding d' dictSetVal_eq using inv t il(1) map(1)
    by (intro replace_bucket) (auto simp: d' dictSetVal_eq simp del: dictSetVal.simps)
  show "dictSize d' = dictSize d" by (simp add: d' dictSize_def Let_def)
qed

lemma uint_not_minus_1: "uint x \<noteq> - 1"
  using uint_ge_0 [of x] by linarith

declare valid_ref.simps [simp del] deref.simps [simp del] dictSetVal.simps [simp del]

subsection \<open>The contract of a dictionary type\<close>

locale dict_type =
  fixes ty :: "('k, 'v) dictType" and okkey :: "'k \<Rightarrow> bool" and canon :: "'k \<Rightarrow> 'c"
  assumes compare_law: "okkey k1 \<Longrightarrow> okkey k2 \<Longrightarrow>
      k1 = k2 \<or> (case keyCompare ty of Some cmp \<Rightarrow> cmp k1 k2 | None \<Rightarrow> k1 = k2) \<longleftrightarrow> canon k1 = canon k2"
    and hash_law: "okkey k1 \<Longrightarrow> okkey k2 \<Longrightarrow> canon k1 = canon k2 \<Longrightarrow> hashFunction ty k1 = hashFunction ty k2"
    and keyDup_law: "keyDup ty = Some dup \<Longrightarrow> okkey k \<Longrightarrow> okkey (dup k) \<and> canon (dup k) = canon k"
    and valDup_law: "valDup ty = Some vdup \<Longrightarrow> vdup v = v"
begin

definition wf :: "('k, 'v) dict \<Rightarrow> bool" where
  "wf d \<longleftrightarrow> dict_inv okkey canon d \<and> d_type d = ty"

lemma wf_inv: "wf d \<Longrightarrow> dict_inv okkey canon d"
  by (simp add: wf_def)

lemma wf_same_content: "wf d \<Longrightarrow> dict_inv okkey canon d' \<Longrightarrow> same_content d d' \<Longrightarrow> wf d' \<and> dict_map canon d' = dict_map canon d"
  using same_content_map dict_inv_keys(2) unfolding wf_def same_content_def by metis

lemma chain_find_match:
  assumes "wf d" and "okkey key" and "\<forall>e \<in> set chain. okkey (de_key e)"
  shows "case chain_find d key chain of
      None \<Rightarrow> \<forall>e \<in> set chain. canon (de_key e) \<noteq> canon key
    | Some p \<Rightarrow> p < length chain \<and> canon (de_key (chain ! p)) = canon key"
  using assms(3)
proof (induction chain)
  case (Cons e chain)
  then have "okkey (de_key e)" by simp
  then have "key = de_key e \<or> dictCompareKeys d key (de_key e) \<longleftrightarrow> canon key = canon (de_key e)"
    using compare_law [OF assms(2)] assms(1) unfolding wf_def dictCompareKeys_def by blast
  then show ?case using Cons by (auto split: option.splits)
qed simp

lemma entry_in_bucket:
  assumes d: "wf d" "okkey key" and e: "e \<in> set (concat (table (ref_ht d t)))" "okkey (de_key e)" "canon (de_key e) = canon key"
  shows "e \<in> set (table (ref_ht d t) ! unat (dictHashKey d key AND sizemask (ref_ht d t)))"
proof -
  have "dictHashKey d (de_key e) = dictHashKey d key"
    using hash_law [OF e(2) d(2) e(3)] d(1) by (simp add: dictHashKey_def wf_def)
  then show ?thesis
    using ht_inv_bucket(1) [OF dict_inv_ref_ht [OF wf_inv [OF d(1)]] e(1)] by simp
qed

text \<open>
  The search that lookup, insertion and removal share: it finds the entry of the key in the first
  table, or in the second one while rehashing, or the key is not in the map.
\<close>

lemma probe:
  assumes d: "wf d" "okkey key" and pos: "ht_size (ht0 d) > 0"
    and i0: "i0 = unat (dictHashKey d key AND sizemask (ht0 d))" and i1: "i1 = unat (dictHashKey d key AND sizemask (ht1 d))"
  shows "i0 < length (table (ht0 d))" "dictIsRehashing d \<Longrightarrow> i1 < length (table (ht1 d))"
    "(\<exists>p. chain_find d key (table (ht0 d) ! i0) = Some p \<and> valid_ref d (0, i0, p) \<and> canon (de_key (deref d (0, i0, p))) = canon key) \<or>
     (\<exists>p. chain_find d key (table (ht0 d) ! i0) = None \<and> dictIsRehashing d \<and> chain_find d key (table (ht1 d) ! i1) = Some p \<and>
        valid_ref d (1, i1, p) \<and> canon (de_key (deref d (1, i1, p))) = canon key) \<or>
     chain_find d key (table (ht0 d) ! i0) = None \<and> (dictIsRehashing d \<longrightarrow> chain_find d key (table (ht1 d) ! i1) = None) \<and>
        dict_map canon d (canon key) = None"
proof -
  note inv = wf_inv [OF d(1)]
  show l0: "i0 < length (table (ht0 d))" unfolding i0 by (rule ht_inv_index [OF dict_inv_tables(1) [OF inv] pos])
  show l1: "i1 < length (table (ht1 d))" if "dictIsRehashing d"
    unfolding i1 by (rule ht_inv_index [OF dict_inv_tables(2) [OF inv] dict_inv_rehashing(4) [OF inv that]])
  have ok: "\<forall>e \<in> set (table (ht0 d) ! i0). okkey (de_key e)" "dictIsRehashing d \<Longrightarrow> \<forall>e \<in> set (table (ht1 d) ! i1). okkey (de_key e)"
    using dict_inv_keys(1) [OF inv] nth_mem [OF l0] nth_mem [OF l1] by (auto simp: dict_entries_def)
  note m0 = chain_find_match [OF d ok(1)]
  have absent: "dict_map canon d (canon key) = None"
    if "\<forall>e \<in> set (table (ht0 d) ! i0). canon (de_key e) \<noteq> canon key"
      "dictIsRehashing d \<longrightarrow> (\<forall>e \<in> set (table (ht1 d) ! i1). canon (de_key e) \<noteq> canon key)"
  proof -
    have "canon (de_key e) \<noteq> canon key" if e: "e \<in> set (dict_entries d)" for e
    proof
      assume c: "canon (de_key e) = canon key"
      have oke: "okkey (de_key e)" using dict_inv_keys(1) [OF inv e] .
      consider "e \<in> set (concat (table (ref_ht d 0)))" | "e \<in> set (concat (table (ref_ht d 1)))"
        using e by (auto simp: dict_entries_def ref_ht_def)
      then show False
      proof cases
        case 1
        then show False using entry_in_bucket [OF d 1 oke c] that(1) \<open>\<forall>e \<in> set (table (ht0 d) ! i0). canon (de_key e) \<noteq> canon key\<close> c
          by (simp add: ref_ht_def i0)
      next
        case 2
        then have "dictIsRehashing d" using inv by (auto simp: dict_inv_def ref_ht_def split: if_splits)
        then show False using entry_in_bucket [OF d 2 oke c] c
          \<open>dictIsRehashing d \<longrightarrow> (\<forall>e \<in> set (table (ht1 d) ! i1). canon (de_key e) \<noteq> canon key)\<close>
          by (simp add: ref_ht_def i1)
      qed
    qed
    then show ?thesis unfolding dict_map_None set_map image_iff by metis
  qed
  show "(\<exists>p. chain_find d key (table (ht0 d) ! i0) = Some p \<and> valid_ref d (0, i0, p) \<and> canon (de_key (deref d (0, i0, p))) = canon key) \<or>
     (\<exists>p. chain_find d key (table (ht0 d) ! i0) = None \<and> dictIsRehashing d \<and> chain_find d key (table (ht1 d) ! i1) = Some p \<and>
        valid_ref d (1, i1, p) \<and> canon (de_key (deref d (1, i1, p))) = canon key) \<or>
     chain_find d key (table (ht0 d) ! i0) = None \<and> (dictIsRehashing d \<longrightarrow> chain_find d key (table (ht1 d) ! i1) = None) \<and>
        dict_map canon d (canon key) = None"
  proof (cases "chain_find d key (table (ht0 d) ! i0)")
    case (Some p)
    then show ?thesis using m0 l0 by (simp add: Let_def valid_ref.simps deref.simps)
  next
    case n0: None
    show ?thesis
    proof (cases "dictIsRehashing d")
      case True
      then show ?thesis
        using n0 m0 chain_find_match [OF d ok(2) [OF True]] l1 [OF True] absent
        by (cases "chain_find d key (table (ht1 d) ! i1)") (simp_all add: Let_def valid_ref.simps deref.simps)
    next
      case False
      then show ?thesis using n0 m0 absent by auto
    qed
  qed
qed

lemma map_of_ref:
  assumes "wf d" and "valid_ref d r" and "canon (de_key (deref d r)) = canon key"
  shows "dict_map canon d (canon key) = Some (de_val (deref d r))"
  using deref_mem [OF assms(2)] assms(3) dict_map_Some [OF dict_inv_keys(2) [OF wf_inv [OF assms(1)]]] by metis

lemma size_pos: "wf d \<Longrightarrow> dictSize d \<noteq> 0 \<Longrightarrow> ht_size (ht0 d) > 0"
proof -
  assume d: "wf d" "dictSize d \<noteq> 0"
  have "\<not> dictIsRehashing d \<Longrightarrow> used (ht0 d) \<noteq> 0"
    using d wf_inv [OF d(1)] by (auto simp: dict_inv_def dictSize_def)
  then show ?thesis
    using dict_inv_rehashing(3) [OF wf_inv [OF d(1)]] dict_inv_tables(1) [OF wf_inv [OF d(1)]]
    by (cases "dictIsRehashing d") (auto simp: ht_inv_def)
qed

lemma dict_empty_map:
  assumes "wf d" and "dictSize d = 0"
  shows "dict_map canon d = Map.empty"
proof -
  have "dict_entries d = []"
    using assms(2) dict_inv_tables [OF wf_inv [OF assms(1)]] by (simp add: ht_inv_def dictSize_def dict_entries_def)
  then show ?thesis by (simp add: dict_map_def)
qed

lemma wf_dictSize: "wf d \<Longrightarrow> dictSize d = length (dict_entries d)"
  using dict_inv_tables [OF wf_inv] by (simp add: dictSize_def dict_entries_def ht_inv_def)

lemma same_content_size: "wf d \<Longrightarrow> wf d' \<Longrightarrow> same_content d d' \<Longrightarrow> dictSize d' = dictSize d"
  by (simp add: wf_dictSize same_content_def flip: size_mset)

lemma rehash_first:
  assumes "wf d"
  obtains d' where "(if dictIsRehashing d then dictRehashStep d else Some d) = Some d'" "wf d'" "same_content d d'"
    "dict_map canon d' = dict_map canon d" "dictSize d' = dictSize d"
  using rehash_first_spec [OF wf_inv [OF assms]] wf_same_content [OF assms] same_content_size [OF assms] by blast

lemma dictFind_correct:
  assumes d: "wf d" "okkey key"
  shows "\<exists>d' r. dictFind d key = Some (d', r) \<and> wf d' \<and> same_content d d' \<and>
    (case r of None \<Rightarrow> dict_map canon d (canon key) = None
     | Some e \<Rightarrow> valid_ref d' e \<and> canon (de_key (deref d' e)) = canon key \<and>
         dict_map canon d (canon key) = Some (de_val (deref d' e)))"
proof (cases "dictSize d = 0")
  case True
  then show ?thesis using dict_empty_map [OF d(1)] d by (auto simp: dictFind_def)
next
  case False
  obtain e where e: "(if dictIsRehashing d then dictRehashStep d else Some d) = Some e" "wf e" "same_content d e"
    "dict_map canon e = dict_map canon d" "dictSize e = dictSize d"
    using rehash_first [OF d(1)] by blast
  have pos: "ht_size (ht0 e) > 0" using size_pos [OF e(2)] e(5) False by simp
  note idx = probe(1,2) [OF e(2) d(2) pos refl refl]
  from probe(3) [OF e(2) d(2) pos refl refl] show ?thesis
    unfolding dictFind_def using False e(1-4) idx map_of_ref [OF e(2)]
    by (elim disjE exE conjE) (simp_all add: Let_def split: if_splits)
qed

lemma dictFetchValue_correct:
  assumes "wf d" and "okkey key"
  shows "\<exists>d'. dictFetchValue d key = Some (d', dict_map canon d (canon key)) \<and> wf d' \<and> dict_map canon d' = dict_map canon d"
proof -
  obtain d' r where "dictFind d key = Some (d', r)" "wf d'" "same_content d d'"
    "case r of None \<Rightarrow> dict_map canon d (canon key) = None
     | Some e \<Rightarrow> valid_ref d' e \<and> canon (de_key (deref d' e)) = canon key \<and>
         dict_map canon d (canon key) = Some (de_val (deref d' e))"
    using dictFind_correct [OF assms] by blast
  then show ?thesis
    using wf_same_content [OF assms(1) wf_inv] by (cases r) (simp_all add: dictFetchValue_def)
qed

lemma dictGenericDelete_correct:
  assumes d: "wf d" "okkey key"
  shows "\<exists>d' he. dictGenericDelete d key = Some (d', he) \<and> wf d' \<and> dict_map canon d' = (dict_map canon d)(canon key := None) \<and>
    map_option de_val he = dict_map canon d (canon key) \<and> dictSize d' = dictSize d - (if he = None then 0 else 1)"
proof (cases "dictSize d = 0")
  case True
  then show ?thesis using dict_empty_map [OF d(1)] d by (simp add: dictGenericDelete_def dictSize_def fun_eq_iff)
next
  case False
  obtain e where e: "(if dictIsRehashing d then dictRehashStep d else Some d) = Some e" "wf e" "same_content d e"
    "dict_map canon e = dict_map canon d" "dictSize e = dictSize d"
    using rehash_first [OF d(1)] by blast
  have pos: "ht_size (ht0 e) > 0" using size_pos [OF e(2)] e(5) False by simp
  have run: "\<not> (used (ht0 d) = 0 \<and> used (ht1 d) = 0)" using False by (simp add: dictSize_def)
  note idx = probe(1,2) [OF e(2) d(2) pos refl refl]
  define del where "del t i p = set_ref_ht e t ((upd_bucket (unlink_at p) i (ref_ht e t))\<lparr>used := used (ref_ht e t) - 1\<rparr>)" for t i p
  have rem: "wf (del t i p)" "dict_map canon (del t i p) = (dict_map canon d)(canon key := None)"
      "dictSize (del t i p) = dictSize d - 1" "dict_map canon d (canon key) = Some (de_val (deref e (t, i, p)))"
    if "t = 0 \<or> t = 1 \<and> dictIsRehashing e" "valid_ref e (t, i, p)" "canon (de_key (deref e (t, i, p))) = canon key" for t i p
    using remove_entry [OF wf_inv [OF e(2)] that(1,2) del_def] map_of_ref [OF e(2) that(2,3)] that(3) e(2,4,5)
    by (simp_all add: wf_def del_def)
  let ?i0 = "unat (dictHashKey e key AND sizemask (ht0 e))" and ?i1 = "unat (dictHashKey e key AND sizemask (ht1 e))"
  from probe(3) [OF e(2) d(2) pos refl refl] show ?thesis
  proof (elim disjE exE conjE)
    fix p assume p: "chain_find e key (table (ht0 e) ! ?i0) = Some p" "valid_ref e (0, ?i0, p)" "canon (de_key (deref e (0, ?i0, p))) = canon key"
    then have "dictGenericDelete d key = Some (del 0 ?i0 p, Some (deref e (0, ?i0, p)))"
      unfolding dictGenericDelete_def using run e(1) idx(1) by (simp add: Let_def del_def set_ref_ht_def ref_ht_def deref.simps)
    then show ?thesis using rem [OF _ p(2,3)] by simp
  next
    fix p assume p: "chain_find e key (table (ht0 e) ! ?i0) = None" "dictIsRehashing e"
      "chain_find e key (table (ht1 e) ! ?i1) = Some p" "valid_ref e (1, ?i1, p)" "canon (de_key (deref e (1, ?i1, p))) = canon key"
    then have "dictGenericDelete d key = Some (del 1 ?i1 p, Some (deref e (1, ?i1, p)))"
      unfolding dictGenericDelete_def using run e(1) idx by (simp add: Let_def del_def set_ref_ht_def ref_ht_def deref.simps)
    then show ?thesis using rem [OF _ p(4,5)] p(2) by simp
  next
    assume p: "chain_find e key (table (ht0 e) ! ?i0) = None" "dictIsRehashing e \<longrightarrow> chain_find e key (table (ht1 e) ! ?i1) = None"
      and none: "dict_map canon e (canon key) = None"
    then have "dictGenericDelete d key = Some (e, None)"
      unfolding dictGenericDelete_def using run e(1) idx by (auto simp: Let_def)
    then show ?thesis using e none by (simp add: fun_upd_idem)
  qed
qed

lemma dictAddRaw_correct:
  assumes d: "wf d" "okkey key" and room: "dictSize d < 2 ^ 60"
  shows "\<exists>d' r. dictAddRaw junk can_resize d key = Some (d', if dict_map canon d (canon key) = None then (Some r, None) else (None, Some r)) \<and>
    wf d' \<and> (fst r = 0 \<or> fst r = 1 \<and> dictIsRehashing d') \<and> valid_ref d' r \<and> canon (de_key (deref d' r)) = canon key \<and>
    (if dict_map canon d (canon key) = None
     then dict_map canon d' = (dict_map canon d)(canon key \<mapsto> junk) \<and> dictSize d' = Suc (dictSize d)
     else dict_map canon d' = dict_map canon d \<and> dictSize d' = dictSize d)"
proof -
  obtain e where e: "(if dictIsRehashing d then dictRehashStep d else Some d) = Some e" "wf e" "same_content d e"
    "dict_map canon e = dict_map canon d" "dictSize e = dictSize d"
    using rehash_first [OF d(1)] by blast
  obtain g where g: "dictExpandIfNeeded can_resize e = (g, DICT_OK)" "dict_inv okkey canon g" "same_content e g" "ht_size (ht0 g) > 0"
    using dictExpandIfNeeded_spec [OF wf_inv [OF e(2)], of can_resize] e(5) room by auto
  have wg: "wf g" "dict_map canon g = dict_map canon d" "dictSize g = dictSize d"
    using wf_same_content [OF e(2) g(2,3)] same_content_size [OF e(2) _ g(3)] e(4,5) by auto
  have hash: "dictHashKey e key = dictHashKey g key" using g(3) by (simp add: same_content_def dictHashKey_def)
  note idx = probe(1,2) [OF wg(1) d(2) g(4) refl refl]
  let ?i0 = "unat (dictHashKey g key AND sizemask (ht0 g))" and ?i1 = "unat (dictHashKey g key AND sizemask (ht1 g))"
  from probe(3) [OF wg(1) d(2) g(4) refl refl] show ?thesis
  proof (elim disjE exE conjE)
    fix p assume p: "chain_find g key (table (ht0 g) ! ?i0) = Some p" "valid_ref g (0, ?i0, p)" "canon (de_key (deref g (0, ?i0, p))) = canon key"
    have "dictAddRaw junk can_resize d key = Some (g, None, Some (0, ?i0, p))"
      unfolding dictAddRaw_def dictKeyIndex_def using e(1) g(1) hash idx(1) p(1) by (simp add: Let_def)
    then show ?thesis using p(2,3) wg map_of_ref [OF wg(1) p(2,3)] by (intro exI [of _ g] exI [of _ "(0, ?i0, p)"]) simp
  next
    fix p assume p: "chain_find g key (table (ht0 g) ! ?i0) = None" "dictIsRehashing g"
      "chain_find g key (table (ht1 g) ! ?i1) = Some p" "valid_ref g (1, ?i1, p)" "canon (de_key (deref g (1, ?i1, p))) = canon key"
    have "dictAddRaw junk can_resize d key = Some (g, None, Some (1, ?i1, p))"
      unfolding dictAddRaw_def dictKeyIndex_def using e(1) g(1) hash idx p(1-3) by (simp add: Let_def)
    then show ?thesis using p(2,4,5) wg map_of_ref [OF wg(1) p(4,5)] by (intro exI [of _ g] exI [of _ "(1, ?i1, p)"]) simp
  next
    assume p: "chain_find g key (table (ht0 g) ! ?i0) = None" "dictIsRehashing g \<longrightarrow> chain_find g key (table (ht1 g) ! ?i1) = None"
      and none: "dict_map canon g (canon key) = None"
    define x where "x = \<lparr>de_key = dictSetKey g key, de_val = junk\<rparr>"
    have ck: "canon (de_key x) = canon key" "okkey (de_key x)"
      using keyDup_law d(2) wg(1) by (auto simp: x_def dictSetKey_def wf_def split: option.splits)
    have hk: "dictHashKey g (de_key x) = dictHashKey g key"
      using hash_law [OF ck(2) d(2) ck(1)] wg(1) by (simp add: dictHashKey_def wf_def)
    define t :: nat where "t = (if dictIsRehashing g then 1 else 0)"
    define i where "i = unat (dictHashKey g (de_key x) AND sizemask (ref_ht g t))"
    define d' where "d' = set_ref_ht g t ((upd_bucket (Cons x) i (ref_ht g t))\<lparr>used := used (ref_ht g t) + 1\<rparr>)"
    have pos: "ht_size (ref_ht g t) > 0"
      using g(4) dict_inv_rehashing(4) [OF wf_inv [OF wg(1)]] by (simp add: t_def ref_ht_def)
    have new: "canon (de_key x) \<notin> set (canon_keys canon g)" using none ck(1) by (metis dict_map_None)
    have "dictAddRaw junk can_resize d key = Some (d', Some (t, i, 0), None)"
      unfolding dictAddRaw_def dictKeyIndex_def using e(1) g(1) hash idx p hk
      by (simp add: Let_def d'_def x_def t_def i_def set_ref_ht_def ref_ht_def uint_not_minus_1)
    moreover note insert_entry [OF wf_inv [OF wg(1)] t_def i_def pos new ck(2) d'_def]
    moreover have "d_type d' = ty" "dictIsRehashing d' = dictIsRehashing g" using wg(1) by (simp_all add: d'_def wf_def)
    ultimately show ?thesis
      using none ck wg by (intro exI [of _ d'] exI [of _ "(t, i, 0)"]) (simp add: wf_def t_def x_def)
  qed
qed

lemma dup_val [simp]: "wf d \<Longrightarrow> dictDupVal d v = v"
  using valDup_law by (auto simp: wf_def dictDupVal_def split: option.splits)

lemma dictSetVal_correct:
  assumes "wf d" and "fst r = 0 \<or> fst r = 1 \<and> dictIsRehashing d" and "valid_ref d r" and "canon (de_key (deref d r)) = canon key"
  shows "wf (dictSetVal d r v)" "dict_map canon (dictSetVal d r v) = (dict_map canon d)(canon key \<mapsto> v)"
    "dictSize (dictSetVal d r v) = dictSize d"
proof -
  obtain t i p where r: "r = (t, i, p)" by (cases r)
  have "d_type (dictSetVal d (t, i, p) v) = d_type d" by (simp add: dictSetVal_eq)
  then show "wf (dictSetVal d r v)" "dict_map canon (dictSetVal d r v) = (dict_map canon d)(canon key \<mapsto> v)"
    "dictSize (dictSetVal d r v) = dictSize d"
    using dictSetVal_spec [OF wf_inv [OF assms(1)], of t i p _ v] assms unfolding r by (simp_all add: wf_def)
qed

lemma dictReplace_correct:
  assumes d: "wf d" "okkey key" and room: "dictSize d < 2 ^ 60"
  shows "\<exists>d'. dictReplace junk can_resize d key v = Some (d', dict_map canon d (canon key) = None) \<and> wf d' \<and>
    dict_map canon d' = (dict_map canon d)(canon key \<mapsto> v) \<and>
    dictSize d' = dictSize d + (if dict_map canon d (canon key) = None then 1 else 0)"
proof -
  obtain d' r where raw: "dictAddRaw junk can_resize d key = Some (d', if dict_map canon d (canon key) = None then (Some r, None) else (None, Some r))"
    and d': "wf d'" "fst r = 0 \<or> fst r = 1 \<and> dictIsRehashing d'" "valid_ref d' r" "canon (de_key (deref d' r)) = canon key"
    and m: "if dict_map canon d (canon key) = None
     then dict_map canon d' = (dict_map canon d)(canon key \<mapsto> junk) \<and> dictSize d' = Suc (dictSize d)
     else dict_map canon d' = dict_map canon d \<and> dictSize d' = dictSize d"
    using dictAddRaw_correct [OF d room] by blast
  have "dictReplace junk can_resize d key v = Some (dictSetVal d' r v, dict_map canon d (canon key) = None)"
    using raw by (cases "dict_map canon d (canon key)") (simp_all add: dictReplace_def)
  then show ?thesis using dictSetVal_correct [OF d', of v] m by (auto split: if_splits)
qed

lemma dictAdd_correct:
  assumes d: "wf d" "okkey key" and room: "dictSize d < 2 ^ 60"
  shows "\<exists>d'. dictAdd junk can_resize d key v = Some (d', if dict_map canon d (canon key) = None then DICT_OK else DICT_ERR) \<and> wf d' \<and>
    dict_map canon d' = (if dict_map canon d (canon key) = None then (dict_map canon d)(canon key \<mapsto> v) else dict_map canon d)"
proof -
  obtain d' r where raw: "dictAddRaw junk can_resize d key = Some (d', if dict_map canon d (canon key) = None then (Some r, None) else (None, Some r))"
    and d': "wf d'" "fst r = 0 \<or> fst r = 1 \<and> dictIsRehashing d'" "valid_ref d' r" "canon (de_key (deref d' r)) = canon key"
    and m: "if dict_map canon d (canon key) = None
     then dict_map canon d' = (dict_map canon d)(canon key \<mapsto> junk) \<and> dictSize d' = Suc (dictSize d)
     else dict_map canon d' = dict_map canon d \<and> dictSize d' = dictSize d"
    using dictAddRaw_correct [OF d room] by blast
  show ?thesis
  proof (cases "dict_map canon d (canon key) = None")
    case True
    then have "dictAdd junk can_resize d key v = Some (dictSetVal d' r v, DICT_OK)" using raw by (simp add: dictAdd_def)
    then show ?thesis using dictSetVal_correct [OF d', of v] m True by simp
  next
    case False
    then have "dictAdd junk can_resize d key v = Some (d', DICT_ERR)" using raw by (simp add: dictAdd_def)
    then show ?thesis using d'(1) m False by simp
  qed
qed

lemma dictDelete_correct:
  assumes d: "wf d" "okkey key"
  shows "\<exists>d' r. dictDelete d key = Some (d', r) \<and> (r = DICT_OK) = (dict_map canon d (canon key) \<noteq> None) \<and> wf d' \<and>
    dict_map canon d' = (dict_map canon d)(canon key := None)"
proof -
  obtain d' he where "dictGenericDelete d key = Some (d', he)" "wf d'" "dict_map canon d' = (dict_map canon d)(canon key := None)"
    "dict_map canon d (canon key) = map_option de_val he"
    using dictGenericDelete_correct [OF d] by metis
  then show ?thesis by (cases he) (simp_all add: dictDelete_def)
qed

lemma dictCreate_wf: "wf (dictCreate ty)" "dict_map canon (dictCreate ty) = Map.empty"
  by (simp_all add: wf_def dictCreate_def dictInit_def dict_inv_def dictIsRehashing_def dict_entries_def dict_map_def)

end

locale dict_api = dict_type ty okkey canon
  for ty :: "('k, 'v) dictType" and okkey :: "'k \<Rightarrow> bool" and canon :: "'k \<Rightarrow> 'c" +
  fixes junk :: 'v and can_resize :: bool

sublocale dict_api \<subseteq> store: map_store wf "dict_map canon" "\<lambda>d. dictSize d < 2 ^ 60" okkey canon
  dictFetchValue "dictReplace junk can_resize" dictDelete "\<lambda>r. r = DICT_OK"
proof unfold_locales
  fix d k assume "wf d" "okkey k"
  then show "\<exists>s'. dictFetchValue d k = Some (s', dict_map canon d (canon k)) \<and> wf s' \<and> dict_map canon s' = dict_map canon d"
    by (rule dictFetchValue_correct)
next
  fix d k v assume "wf d" "okkey k" "dictSize d < 2 ^ 60"
  then show "\<exists>s'. dictReplace junk can_resize d k v = Some (s', dict_map canon d (canon k) = None) \<and> wf s' \<and>
      dict_map canon s' = (dict_map canon d)(canon k \<mapsto> v)"
    using dictReplace_correct by blast
next
  fix d k assume "wf d" "okkey k"
  then show "\<exists>s' r. dictDelete d k = Some (s', r) \<and> (r = DICT_OK) = (dict_map canon d (canon k) \<noteq> None) \<and> wf s' \<and>
      dict_map canon s' = (dict_map canon d)(canon k := None)"
    by (rule dictDelete_correct)
qed

end
