(* ===== verification/Dict_Scan.thy ===== *)
theory Dict_Scan
  imports Dict_Proofs
begin

section \<open>Cursor iteration over a dictionary\<close>

text \<open>
  Models \<open>dictScan\<close> of \<open>redis/redis-6.2.7/src/dict.c\<close>: the stateless iteration whose cursor is
  incremented on its reversed bits. The theorems are the guarantee its comment claims: whatever
  resizing and rehashing happens between the calls, an iteration that ends has reported every
  entry that was present all the time, and the iteration of an unchanged dictionary ends.
\<close>

subsection \<open>Bit reversal\<close>

text \<open>\<open>rev\<close>: \<open>s\<close> is halved at the head of the loop.\<close>

function rev_loop :: "nat \<Rightarrow> u64 \<Rightarrow> u64 \<Rightarrow> u64" where
  "rev_loop s msk v =
    (let s = s div 2
     in if s > 0 then
          (let msk = msk XOR push_bit s msk;
               v = (drop_bit s v AND msk) OR (push_bit s v AND NOT msk)
           in rev_loop s msk v)
        else v)"
  by pat_completeness auto
termination
  by (relation "measure (\<lambda>(s, msk, v). s)") auto

declare rev_loop.simps [simp del]

definition rev_ul :: "u64 \<Rightarrow> u64" where
  "rev_ul v = rev_loop 64 (NOT 0) v"

definition flip_bit_index :: "nat \<Rightarrow> nat \<Rightarrow> nat" where
  "flip_bit_index s n = (if even (n div s) then n + s else n - s)"

definition halves :: "nat \<Rightarrow> u64 \<Rightarrow> bool" where
  "halves s msk \<longleftrightarrow> (\<forall>n < 64. bit msk n \<longleftrightarrow> even (n div s))"

lemma halves_step:
  assumes "halves (2 * s) msk" and "0 < s"
  shows "halves s (msk XOR push_bit s msk)"
  unfolding halves_def
proof (intro allI impI)
  fix n :: nat assume n: "n < 64"
  define q where "q = n div s"
  have 1: "n div (2 * s) = q div 2" by (simp add: q_def div_mult2_eq mult.commute)
  have le: "s \<le> n \<longleftrightarrow> 1 \<le> q"
    using assms(2) by (simp add: q_def div_greater_zero_iff Suc_le_eq)
  have 2: "(n - s) div (2 * s) = (q - 1) div 2"
  proof -
    have "(n - s) div s = q - 1"
      using assms(2) by (cases "s \<le> n") (simp_all add: q_def le_div_geq)
    then show ?thesis by (simp add: div_mult2_eq mult.commute)
  qed
  have "bit (msk XOR push_bit s msk) n \<longleftrightarrow> even (q div 2) \<noteq> (1 \<le> q \<and> even ((q - 1) div 2))"
    using assms n by (simp add: bit_simps halves_def 1 2 le)
  also have "\<dots> \<longleftrightarrow> even q" by presburger
  finally show "bit (msk XOR push_bit s msk) n = even (n div s)" by (simp add: q_def)
qed

lemma flip_bit_index_less:
  assumes "n < 64" and "s = 2 ^ k" and "k < 6"
  shows "flip_bit_index s n < 64"
proof (cases "even (n div s)")
  case True
  have S: "s * 2 ^ (6 - k) = 64" using assms(2,3) by (simp flip: power_add)
  then have "n div s < 2 ^ (6 - k)" using assms(1,2) by (simp add: div_less_iff_less_mult mult.commute)
  moreover have "even (2 ^ (6 - k) :: nat)" using assms(3) by simp
  ultimately have "Suc (n div s) < 2 ^ (6 - k)" using True by (metis Suc_lessI even_Suc)
  then have "Suc (Suc (n div s)) * s \<le> 2 ^ (6 - k) * s" by (intro mult_le_mono1) simp
  moreover have "n < Suc (n div s) * s" using assms(2) by (simp add: dividend_less_div_times)
  ultimately show ?thesis using True S by (simp add: flip_bit_index_def mult.commute)
next
  case False
  then show ?thesis using assms(1) by (simp add: flip_bit_index_def)
qed

lemma rev_loop_step:
  assumes "halves (2 * s) msk" and s: "s = 2 ^ k" "k < 6"
  obtains msk' v' where "rev_loop (2 * s) msk v = rev_loop s msk' v'" "halves s msk'"
    "\<forall>n < 64. bit v' n = bit v (flip_bit_index s n)"
proof -
  let ?m = "msk XOR push_bit s msk"
  let ?v = "(drop_bit s v AND ?m) OR (push_bit s v AND NOT ?m)"
  have h: "halves s ?m" using s by (intro halves_step [OF assms(1)]) simp
  have "bit ?v n = bit v (flip_bit_index s n)" if n: "n < 64" for n
  proof (cases "even (n div s)")
    case True
    then have "bit ?m n" using h n by (simp add: halves_def)
    then show ?thesis
      using True n flip_bit_index_less [OF n s] by (simp add: bit_drop_bit_eq bit_and_iff bit_or_iff bit_not_iff flip_bit_index_def add.commute del: bit_xor_iff)
  next
    case False
    then have "s \<le> n" by (metis div_less even_zero not_le)
    moreover have "\<not> bit ?m n" using h n False by (simp add: halves_def)
    ultimately show ?thesis
      using False n by (simp add: bit_push_bit_iff_nat bit_and_iff bit_or_iff bit_not_iff bit_push_bit_iff flip_bit_index_def del: bit_xor_iff)
  qed
  moreover have "rev_loop (2 * s) msk v = rev_loop s ?m ?v"
    using s by (subst rev_loop.simps) (simp add: Let_def)
  ultimately show thesis using h that by blast
qed

text \<open>Swapping neighbours of growing size reverses the order inside of a block.\<close>

definition block_rev :: "nat \<Rightarrow> nat \<Rightarrow> nat" where
  "block_rev s n = n div s * s + (s - 1 - n mod s)"

lemma flip_block_rev:
  assumes "0 < s"
  shows "flip_bit_index s (block_rev s n) = block_rev (2 * s) n"
proof -
  define q r where "q = n div s" and "r = n mod s"
  have r: "r < s" using assms by (simp add: r_def)
  define x where "x = s - 1 - r"
  have "x < s" using r by (simp add: x_def)
  then have "(q * s + x) div s = q" by simp
  then have "block_rev s n div s = q" by (simp only: block_rev_def q_def [symmetric] r_def [symmetric] x_def [symmetric])
  then have flip: "flip_bit_index s (block_rev s n) = (if even q then q * s + (s - 1 - r) + s else q * s + (s - 1 - r) - s)"
    by (simp add: flip_bit_index_def block_rev_def q_def r_def)
  have q2: "n div (2 * s) = q div 2" "n mod (2 * s) = s * (q mod 2) + r"
    by (simp_all add: q_def r_def div_mult2_eq mod_mult2_eq mult.commute [of 2 s])
  show ?thesis
  proof (cases "even q")
    case True
    then obtain p where "q = 2 * p" by (auto elim: evenE)
    then show ?thesis using flip q2 r by (simp add: block_rev_def)
  next
    case False
    then obtain p where "q = 2 * p + 1" by (auto elim: oddE)
    then show ?thesis using flip q2 r by (simp add: block_rev_def)
  qed
qed

lemma flip_all:
  assumes "n < 64"
  shows "flip_bit_index 32 (flip_bit_index 16 (flip_bit_index 8 (flip_bit_index 4 (flip_bit_index 2 (flip_bit_index 1 n))))) = 63 - n"
proof -
  have "block_rev 1 n = n" by (simp add: block_rev_def)
  then have "flip_bit_index 32 (flip_bit_index 16 (flip_bit_index 8 (flip_bit_index 4 (flip_bit_index 2 (flip_bit_index 1 n))))) = block_rev 64 n"
    using flip_block_rev [of 1 n] flip_block_rev [of 2 n] flip_block_rev [of 4 n] flip_block_rev [of 8 n]
      flip_block_rev [of 16 n] flip_block_rev [of 32 n] by simp
  then show ?thesis using assms by (simp add: block_rev_def)
qed

lemma rev_ul_eq: "rev_ul v = word_reverse v"
proof (rule bit_word_eqI)
  fix n assume "n < LENGTH(64)"
  then have n: "n < 64" by simp
  have h: "halves (2 * 32) (NOT 0)" by (simp add: halves_def)
  obtain m1 v1 where 1: "rev_loop (2 * 32) (NOT 0) v = rev_loop 32 m1 v1" "halves 32 m1" "\<forall>n < 64. bit v1 n = bit v (flip_bit_index 32 n)"
    by (rule rev_loop_step [OF h, of 5 v]) simp_all
  obtain m2 v2 where 2: "rev_loop (2 * 16) m1 v1 = rev_loop 16 m2 v2" "halves 16 m2" "\<forall>n < 64. bit v2 n = bit v1 (flip_bit_index 16 n)"
    by (rule rev_loop_step [of 16 m1 4 v1]) (use 1(2) in simp_all)
  obtain m3 v3 where 3: "rev_loop (2 * 8) m2 v2 = rev_loop 8 m3 v3" "halves 8 m3" "\<forall>n < 64. bit v3 n = bit v2 (flip_bit_index 8 n)"
    by (rule rev_loop_step [of 8 m2 3 v2]) (use 2(2) in simp_all)
  obtain m4 v4 where 4: "rev_loop (2 * 4) m3 v3 = rev_loop 4 m4 v4" "halves 4 m4" "\<forall>n < 64. bit v4 n = bit v3 (flip_bit_index 4 n)"
    by (rule rev_loop_step [of 4 m3 2 v3]) (use 3(2) in simp_all)
  obtain m5 v5 where 5: "rev_loop (2 * 2) m4 v4 = rev_loop 2 m5 v5" "halves 2 m5" "\<forall>n < 64. bit v5 n = bit v4 (flip_bit_index 2 n)"
    by (rule rev_loop_step [of 2 m4 1 v4]) (use 4(2) in simp_all)
  obtain m6 v6 where 6: "rev_loop (2 * 1) m5 v5 = rev_loop 1 m6 v6" "\<forall>n < 64. bit v6 n = bit v5 (flip_bit_index 1 n)"
    by (rule rev_loop_step [of 1 m5 0 v5]) (use 5(2) in simp_all)
  have "rev_ul v = v6"
    using 1(1) 2(1) 3(1) 4(1) 5(1) 6(1) by (simp add: rev_ul_def rev_loop.simps [of "Suc 0"])
  moreover have "bit v6 n = bit v (63 - n)"
    using n 1(3) 2(3) 3(3) 4(3) 5(3) 6(2) flip_bit_index_less [of _ 1 0] flip_bit_index_less [of _ 2 1]
      flip_bit_index_less [of _ 4 2] flip_bit_index_less [of _ 8 3] flip_bit_index_less [of _ 16 4] flip_all [OF n] by simp
  ultimately show "bit (rev_ul v) n = bit (word_reverse v) n"
    using n by (simp add: bit_word_reverse_iff)
qed

subsection \<open>The reverse cursor as a number\<close>

definition rcur :: "u64 \<Rightarrow> nat" where
  "rcur v = unat (word_reverse v)"

lemma rcur_less: "rcur v < 2 ^ 64"
  using unsigned_less [of "word_reverse v"] by (simp add: rcur_def)

lemma rcur_inj: "rcur v = rcur w \<longleftrightarrow> v = w"
  by (metis rcur_def unsigned_word_eqI word_rev_rev)

lemma word_reverse_0 [simp]: "word_reverse (0 :: u64) = 0"
  by (rule bit_word_eqI) (simp add: bit_word_reverse_iff)

lemma rcur_0 [simp]: "rcur 0 = 0" "rcur v = 0 \<longleftrightarrow> v = 0"
proof -
  show 0: "rcur 0 = 0" by (simp add: rcur_def)
  show "rcur v = 0 \<longleftrightarrow> v = 0" using rcur_inj [of v 0] 0 by simp
qed

text \<open>Increment of the reversed cursor, on the bits covered by a mask.\<close>

definition scan_next :: "u64 \<Rightarrow> u64 \<Rightarrow> u64" where
  "scan_next m v = rev_ul (rev_ul (v OR NOT m) + 1)"

lemma rcur_scan_next_gen: "rcur (scan_next m v) = (unat (word_reverse (v OR NOT m)) + 1) mod 2 ^ 64"
  by (simp add: scan_next_def rcur_def rev_ul_eq unat_word_ariths)

lemma scan_next_increases:
  assumes "scan_next m v \<noteq> 0"
  shows "rcur v < rcur (scan_next m v)"
proof -
  have "word_reverse (v OR NOT m) = word_reverse v OR word_reverse (NOT m)"
    by (rule bit_word_eqI) (simp add: bit_word_reverse_iff bit_or_iff)
  then have le: "rcur v \<le> unat (word_reverse (v OR NOT m))"
    using le_word_or2 [of "word_reverse v" "word_reverse (NOT m)"] by (simp add: rcur_def word_le_nat_alt)
  have "rcur (scan_next m v) \<noteq> 0" using assms by simp
  then have "unat (word_reverse (v OR NOT m)) + 1 \<noteq> 2 ^ 64" unfolding rcur_scan_next_gen by auto
  moreover have "unat (word_reverse (v OR NOT m)) < 2 ^ 64"
    using unsigned_less [of "word_reverse (v OR NOT m)"] by simp
  ultimately show ?thesis using le unfolding rcur_scan_next_gen by simp
qed

lemma or_mask_nat: "(x :: nat) OR mask k = x div 2 ^ k * 2 ^ k + (2 ^ k - 1)"
proof -
  have "x OR mask k = push_bit k (drop_bit k x) OR mask k"
    by (rule bit_eqI) (auto simp: bit_simps)
  also have "\<dots> = push_bit k (drop_bit k x) + mask k"
    by (rule disjunctive_add [symmetric]) (auto simp: bit_simps)
  finally show ?thesis by (simp add: push_bit_eq_mult drop_bit_eq_div mask_eq_exp_minus_1)
qed

lemma unat_mask_u64: "k \<le> 64 \<Longrightarrow> unat (mask k :: u64) = mask k"
  by (simp only: unat_eq_nat_uint uint_mask_eq) (simp add: nat_mask_eq)

lemma rcur_scan_next:
  assumes "n \<le> 64"
  shows "rcur (scan_next (mask n) v) = (rcur v div 2 ^ (64 - n) + 1) * 2 ^ (64 - n) mod 2 ^ 64"
proof -
  have "word_reverse (v OR NOT (mask n)) = word_reverse v OR mask (64 - n)"
    using assms by (intro bit_word_eqI) (auto simp: bit_word_reverse_iff bit_simps)
  then have "unat (word_reverse (v OR NOT (mask n))) = rcur v OR mask (64 - n)"
    by (simp add: unsigned_or_eq rcur_def unat_mask_u64)
  then have "rcur (scan_next (mask n) v) = (rcur v div 2 ^ (64 - n) * 2 ^ (64 - n) + (2 ^ (64 - n) - 1) + 1) mod 2 ^ 64"
    unfolding rcur_scan_next_gen or_mask_nat by simp
  moreover have "(0 :: nat) < 2 ^ (64 - n)" by simp
  ultimately show ?thesis by (simp add: algebra_simps del: power_diff)
qed

lemma rcur_div: "rcur x div 2 ^ k = unat (drop_bit k (word_reverse x))"
  unfolding rcur_def unat_drop_bit_eq by (rule drop_bit_eq_div [symmetric])

lemma rcur_mod: "rcur x mod 2 ^ k = unat (take_bit k (word_reverse x))"
  unfolding rcur_def unsigned_take_bit_eq by (rule take_bit_eq_mod [symmetric])

text \<open>Two words fall into the same bucket of a table of \<open>2 ^ n\<close> buckets iff their cursors are in the same block.\<close>

lemma same_bucket_iff:
  assumes "n \<le> 64"
  shows "(h AND mask n :: u64) = v AND mask n \<longleftrightarrow> rcur h div 2 ^ (64 - n) = rcur v div 2 ^ (64 - n)"
proof -
  have "rcur h div 2 ^ (64 - n) = rcur v div 2 ^ (64 - n) \<longleftrightarrow>
      drop_bit (64 - n) (word_reverse h) = drop_bit (64 - n) (word_reverse v)"
    by (simp only: rcur_div word_unat_eq_iff)
  also have "\<dots> \<longleftrightarrow> (\<forall>i < n. bit h i = bit v i)"
  proof
    assume eq: "drop_bit (64 - n) (word_reverse h) = drop_bit (64 - n) (word_reverse v)"
    show "\<forall>i < n. bit h i = bit v i"
    proof (intro allI impI)
      fix i assume i: "i < n"
      have "bit (drop_bit (64 - n) (word_reverse h)) (n - Suc i) = bit (drop_bit (64 - n) (word_reverse v)) (n - Suc i)"
        using eq by simp
      moreover have "63 - i < (64 :: nat)" by linarith
      ultimately show "bit h i = bit v i" using i assms by (simp add: bit_drop_bit_eq bit_word_reverse_iff Suc_diff_Suc)
    qed
  next
    assume "\<forall>i < n. bit h i = bit v i"
    then show "drop_bit (64 - n) (word_reverse h) = drop_bit (64 - n) (word_reverse v)"
      using assms by (intro bit_word_eqI) (auto simp: bit_drop_bit_eq bit_word_reverse_iff)
  qed
  also have "\<dots> \<longleftrightarrow> h AND mask n = v AND mask n"
    using assms by (auto simp: bit_eq_iff bit_simps) (metis less_le_trans)+
  finally show ?thesis by simp
qed

lemma mask_xor_zero_iff:
  assumes "n0 \<le> n1" and "n1 \<le> 64" and "2 ^ (64 - n1) dvd rcur w"
  shows "w AND (mask n0 XOR mask n1) = 0 \<longleftrightarrow> 2 ^ (64 - n0) dvd rcur w"
proof -
  have dvd: "2 ^ (64 - n) dvd rcur w \<longleftrightarrow> (\<forall>i. n \<le> i \<longrightarrow> \<not> bit w i)" if "n \<le> 64" for n
  proof -
    have "2 ^ (64 - n) dvd rcur w \<longleftrightarrow> take_bit (64 - n) (word_reverse w) = 0"
      by (simp only: dvd_eq_mod_eq_0 rcur_mod word_unat_eq_iff unsigned_0)
    also have "\<dots> \<longleftrightarrow> (\<forall>i. n \<le> i \<longrightarrow> \<not> bit w i)"
    proof
      assume eq: "take_bit (64 - n) (word_reverse w) = 0"
      show "\<forall>i. n \<le> i \<longrightarrow> \<not> bit w i"
      proof (intro allI impI notI)
        fix i assume i: "n \<le> i" "bit w i"
        then have "i < 64" using bit_imp_le_length by force
        moreover from this have "63 - i < 64 - n" "63 - i < (64 :: nat)" using i(1) by linarith+
        ultimately have "bit (take_bit (64 - n) (word_reverse w)) (63 - i)"
          using i by (simp add: bit_take_bit_iff bit_word_reverse_iff Suc_diff_Suc)
        then show False using eq by simp
      qed
    next
      assume "\<forall>i. n \<le> i \<longrightarrow> \<not> bit w i"
      then show "take_bit (64 - n) (word_reverse w) = 0"
        by (intro bit_word_eqI) (auto simp: bit_take_bit_iff bit_word_reverse_iff)
    qed
    finally show ?thesis .
  qed
  have "w AND (mask n0 XOR mask n1) = 0 \<longleftrightarrow> (\<forall>i. n0 \<le> i \<and> i < n1 \<longrightarrow> \<not> bit w i)"
    using assms(1,2) by (auto simp: bit_eq_iff bit_simps) (metis less_le_trans not_less)+
  then show ?thesis using dvd [of n0] dvd [of n1] assms by (meson le_trans not_less)
qed

subsection \<open>\<open>dictScan\<close>\<close>

text \<open>
  The entries handed to the callback, in order, and the next cursor. \<open>bucketfn\<close> is the null pointer,
  as in every caller but active defragmentation; rehashing is paused during the call and resumed
  before it returns.
\<close>

function scan_expand :: "'a list list \<Rightarrow> u64 \<Rightarrow> u64 \<Rightarrow> u64 \<Rightarrow> (u64 \<times> 'a list) option" where
  "scan_expand tab m0 m1 v = do {
     de \<leftarrow> get_at tab (unat (v AND m1));
     let v = scan_next m1 v;
     if v AND (m0 XOR m1) \<noteq> 0 then do {
       (v, emitted) \<leftarrow> scan_expand tab m0 m1 v;
       Some (v, de @ emitted)
     } else Some (v, de)
   }"
  by pat_completeness auto
termination
proof (relation "measure (\<lambda>(tab, m0, m1, v). 2 ^ 64 - rcur v)")
  fix tab :: "'a list list" and m0 m1 v w :: u64
  assume "w = scan_next m1 v" and "w AND (m0 XOR m1) \<noteq> 0"
  moreover from this have "w \<noteq> 0" by (intro notI) simp
  ultimately have "rcur v < rcur w" using scan_next_increases [of m1 v] by simp
  then show "((tab, m0, m1, w), tab, m0, m1, v) \<in> measure (\<lambda>(tab, m0, m1, v). 2 ^ 64 - rcur v)"
    using rcur_less [of w] by simp
qed simp

declare scan_expand.simps [simp del]

definition dictScan :: "('k, 'v) dict \<Rightarrow> u64 \<Rightarrow> (u64 \<times> ('k, 'v) dictEntry list) option" where
  "dictScan d v =
    (if dictSize d = 0 then Some (0, [])
     else if \<not> dictIsRehashing d then do {
       let m0 = sizemask (ht0 d);
       de \<leftarrow> get_at (table (ht0 d)) (unat (v AND m0));
       Some (scan_next m0 v, de)
     } else do {
       let (t0, t1) = (if ht_size (ht0 d) > ht_size (ht1 d) then (ht1 d, ht0 d) else (ht0 d, ht1 d));
       let m0 = sizemask t0;
       let m1 = sizemask t1;
       de \<leftarrow> get_at (table t0) (unat (v AND m0));
       (v, emitted) \<leftarrow> scan_expand (table t1) m0 m1 v;
       Some (v, de @ emitted)
     })"

text \<open>What a call has to report: the entries whose cursor lies between the old and the new cursor.\<close>

definition between :: "u64 \<Rightarrow> u64 \<Rightarrow> u64 \<Rightarrow> bool" where
  "between v v' h \<longleftrightarrow> rcur v \<le> rcur h \<and> (v' = 0 \<or> rcur h < rcur v')"

lemma next_block:
  assumes "0 < B" and "(B :: nat) dvd N" and "R < N"
  shows "(R div B + 1) * B \<le> N" "(R div B + 1) * B mod N = 0 \<longleftrightarrow> (R div B + 1) * B = N"
    "R < (R div B + 1) * B"
proof -
  from assms(2) obtain k where k: "N = B * k" by (rule dvdE)
  have "R div B < k" using assms(1,3) k by (simp add: div_less_iff_less_mult mult.commute)
  then have "(R div B + 1) * B \<le> k * B" by (intro mult_le_mono1) simp
  then show le: "(R div B + 1) * B \<le> N" using k by (simp add: mult.commute)
  have pos: "0 < (R div B + 1) * B" using assms(1) by simp
  show "(R div B + 1) * B mod N = 0 \<longleftrightarrow> (R div B + 1) * B = N"
  proof
    assume "(R div B + 1) * B mod N = 0"
    then show "(R div B + 1) * B = N" using le pos by (metis le_less mod_less less_numeral_extra(3))
  qed simp
  show "R < (R div B + 1) * B" using assms(1) by (simp add: dividend_less_div_times)
qed

lemma between_same_block:
  assumes "n \<le> 64" and "between v v' h" and "rcur v' = (rcur v div 2 ^ (64 - n) + 1) * 2 ^ (64 - n) mod 2 ^ 64"
  shows "rcur h div 2 ^ (64 - n) = rcur v div 2 ^ (64 - n)"
proof -
  let ?B = "2 ^ (64 - n) :: nat"
  have dvd: "?B dvd 2 ^ 64" by (rule le_imp_power_dvd) simp
  have "rcur h < (rcur v div ?B + 1) * ?B"
  proof (cases "v' = 0")
    case True
    then have "(rcur v div ?B + 1) * ?B = 2 ^ 64"
      using assms(3) next_block(2) [OF _ dvd rcur_less, of v] by simp
    then show ?thesis using rcur_less [of h] by simp
  next
    case False
    then have "(rcur v div ?B + 1) * ?B mod 2 ^ 64 \<noteq> 0" using assms(3) by (metis rcur_0(2))
    then have "(rcur v div ?B + 1) * ?B < 2 ^ 64"
      using next_block(1,2) [OF _ dvd rcur_less, of v] by (metis le_neq_implies_less zero_less_numeral zero_less_power)
    then show ?thesis using assms(2,3) False by (simp add: between_def)
  qed
  then have "rcur h div ?B < rcur v div ?B + 1" by (simp add: div_less_iff_less_mult)
  moreover have "rcur v div ?B \<le> rcur h div ?B" using assms(2) by (simp add: between_def div_le_mono)
  ultimately show ?thesis by simp
qed

lemma least_multiple:
  assumes "0 < B" and "(B :: nat) dvd y" and "R < y"
  shows "(R div B + 1) * B \<le> y"
proof -
  from assms(2) obtain k where k: "y = B * k" by (rule dvdE)
  have "R div B < k" using assms(1,3) k by (simp add: div_less_iff_less_mult mult.commute)
  then have "(R div B + 1) * B \<le> k * B" by (intro mult_le_mono1) simp
  then show ?thesis using k by (simp add: mult.commute)
qed

lemma next_multiple_coarser:
  assumes "0 < B1" and "0 < B0" and "(B1 :: nat) dvd B0" and x_def: "x = (R div B1 + 1) * B1"
  shows "if B0 dvd x then x = (R div B0 + 1) * B0 else x div B0 = R div B0"
proof -
  let ?y = "(R div B0 + 1) * B0"
  have R: "R < x" "R < ?y" using assms(1,2) by (simp_all add: x_def dividend_less_div_times)
  have "B1 dvd ?y" using assms(3) by (intro dvd_mult)
  then have le: "x \<le> ?y" unfolding x_def using assms(1) R(2) by (intro least_multiple)
  show ?thesis
  proof (cases "B0 dvd x")
    case True
    then show ?thesis using least_multiple [OF assms(2) True R(1)] le by simp
  next
    case False
    then have "x \<noteq> ?y" by (metis dvd_triv_right)
    then have "x div B0 < R div B0 + 1" using le assms(2) by (simp only: div_less_iff_less_mult le_neq_implies_less)
    moreover have "R div B0 \<le> x div B0" using R by (intro div_le_mono) simp
    ultimately show ?thesis using False by simp
  qed
qed

text \<open>One step of the inner loop, with respect to the blocks of the smaller table.\<close>

lemma scan_next_coarser:
  assumes n: "n0 \<le> n1" "n1 \<le> 64" and w: "w = scan_next (mask n1) v"
  shows "if w AND (mask n0 XOR mask n1) = 0 then rcur w = (rcur v div 2 ^ (64 - n0) + 1) * 2 ^ (64 - n0) mod 2 ^ 64
    else w \<noteq> 0 \<and> rcur w div 2 ^ (64 - n0) = rcur v div 2 ^ (64 - n0)"
proof -
  let ?B0 = "2 ^ (64 - n0) :: nat" and ?B1 = "2 ^ (64 - n1) :: nat" and ?N = "2 ^ 64 :: nat"
  define x where "x = (rcur v div ?B1 + 1) * ?B1"
  have dvd: "?B1 dvd ?B0" "?B0 dvd ?N" "?B1 dvd ?N" using n by (auto intro!: le_imp_power_dvd simp only:)
  have rw: "rcur w = x mod ?N" unfolding w x_def by (rule rcur_scan_next [OF n(2)])
  have "?B1 dvd rcur w" unfolding rw using dvd(3) by (intro dvd_mod) (simp_all add: x_def)
  note zero = mask_xor_zero_iff [OF n this]
  have le: "x \<le> ?N" unfolding x_def by (rule next_block(1) [OF _ dvd(3) rcur_less]) simp
  have iff: "w AND (mask n0 XOR mask n1) = 0 \<longleftrightarrow> ?B0 dvd x"
    unfolding zero unfolding rw by (rule dvd_mod_iff [OF dvd(2)])
  have nxt: "if ?B0 dvd x then x = (rcur v div ?B0 + 1) * ?B0 else x div ?B0 = rcur v div ?B0"
    by (rule next_multiple_coarser [OF _ _ dvd(1) x_def]) simp_all
  show ?thesis
  proof (cases "?B0 dvd x")
    case True
    then have "x = (rcur v div ?B0 + 1) * ?B0" using nxt by simp
    then show ?thesis using True iff rw by (simp only: if_True simp_thms)
  next
    case False
    then have "x \<noteq> ?N" using dvd(2) by blast
    then have "rcur w = x" unfolding rw using le by (simp only: mod_less le_neq_implies_less)
    moreover have "w \<noteq> 0" using False calculation by (metis dvd_0_right rcur_0(1))
    ultimately show ?thesis using False iff nxt by (simp only: if_False simp_thms)
  qed
qed

lemma scan_expand_spec:
  assumes n: "n0 \<le> n1" "n1 \<le> 64" and len: "length tab = 2 ^ n1"
  shows "\<exists>v' em. scan_expand tab (mask n0) (mask n1) v = Some (v', em) \<and>
    rcur v' = (rcur v div 2 ^ (64 - n0) + 1) * 2 ^ (64 - n0) mod 2 ^ 64 \<and>
    (\<forall>h e. between v v' h \<and> e \<in> set (tab ! unat (h AND mask n1)) \<longrightarrow> e \<in> set em)"
proof (induction "2 ^ 64 - rcur v" arbitrary: v rule: less_induct)
  case less
  let ?i = "unat (v AND mask n1)" and ?w = "scan_next (mask n1) v" and ?R = "\<lambda>v. (rcur v div 2 ^ (64 - n0) + 1) * 2 ^ (64 - n0) mod 2 ^ 64"
  have i: "?i < length tab"
  proof -
    have "?i = take_bit n1 (unat v)" unfolding take_bit_eq_mask [symmetric] by (rule unsigned_take_bit_eq)
    then show ?thesis using len by simp
  qed
  note step = scan_next_coarser [OF n refl, of v]
  have here: "e \<in> set (tab ! ?i)" if "between v ?w h" "e \<in> set (tab ! unat (h AND mask n1))" for h e
    using that between_same_block [OF n(2) that(1) rcur_scan_next [OF n(2)]] same_bucket_iff [OF n(2), of h v] by simp
  show ?case
  proof (cases "?w AND (mask n0 XOR mask n1) = 0")
    case True
    then have "scan_expand tab (mask n0) (mask n1) v = Some (?w, tab ! ?i)"
      using i by (subst scan_expand.simps) (simp add: Let_def)
    moreover have "rcur ?w = ?R v" using step True by (simp only: if_True)
    ultimately show ?thesis using here by blast
  next
    case False
    then have w: "?w \<noteq> 0" "rcur ?w div 2 ^ (64 - n0) = rcur v div 2 ^ (64 - n0)" using step by simp_all
    have "rcur v < rcur ?w" by (rule scan_next_increases [OF w(1)])
    then have "2 ^ 64 - rcur ?w < 2 ^ 64 - rcur v" using rcur_less [of ?w] by simp
    then obtain v' em where IH: "scan_expand tab (mask n0) (mask n1) ?w = Some (v', em)" "rcur v' = ?R ?w"
      "\<forall>h e. between ?w v' h \<and> e \<in> set (tab ! unat (h AND mask n1)) \<longrightarrow> e \<in> set em"
      using less by blast
    have "scan_expand tab (mask n0) (mask n1) v = Some (v', tab ! ?i @ em)"
      using i False IH(1) by (subst scan_expand.simps) (simp add: Let_def)
    moreover have "e \<in> set (tab ! ?i @ em)" if "between v v' h" "e \<in> set (tab ! unat (h AND mask n1))" for h e
    proof (cases "rcur h < rcur ?w")
      case True
      then show ?thesis using here [OF _ that(2)] that(1) by (simp add: between_def)
    next
      case False
      then have "between ?w v' h" using that(1) by (simp add: between_def)
      then show ?thesis using IH(3) that(2) by auto
    qed
    moreover have "rcur v' = ?R v" using IH(2) w(2) by (simp only:)
    ultimately show ?thesis by blast
  qed
qed

text \<open>
  One call on a dictionary in any state: the cursor advances to the next block of the smaller table, and
  every entry whose reversed hash lies between the two cursors is reported.
\<close>

lemma ht_inv_power:
  assumes "ht_inv hash h" and "ht_size h > 0"
  obtains n where "2 \<le> n" "n \<le> 60" "ht_size h = 2 ^ n" "sizemask h = mask n" "length (table h) = 2 ^ n"
  using assms by (auto simp: ht_inv_def)

lemma bucket_of_entry:
  assumes "ht_inv hash h" and "sizemask h = mask n" and "e \<in> set (concat (table h))"
  shows "e \<in> set (table h ! unat (hash (de_key e) AND mask n))"
  using ht_inv_bucket(1) [OF assms(1,3)] assms(2) by simp

lemma dict_inv_size: "dict_inv okkey canon d \<Longrightarrow> dictSize d = length (dict_entries d)"
  using dict_inv_tables [of okkey canon d] by (simp add: dictSize_def dict_entries_def ht_inv_def)

definition scan_buckets :: "('k, 'v) dict \<Rightarrow> nat" where
  "scan_buckets d = (if dictIsRehashing d then min (ht_size (ht0 d)) (ht_size (ht1 d)) else ht_size (ht0 d))"

lemma dictScan_spec:
  assumes inv: "dict_inv okkey canon d" and ne: "dictSize d \<noteq> 0"
  shows "\<exists>v' em n. dictScan d v = Some (v', em) \<and> n \<le> 60 \<and> scan_buckets d = 2 ^ n \<and>
    rcur v' = (rcur v div 2 ^ (64 - n) + 1) * 2 ^ (64 - n) mod 2 ^ 64 \<and>
    (\<forall>e \<in> set (dict_entries d). between v v' (dictHashKey d (de_key e)) \<longrightarrow> e \<in> set em)"
proof (cases "dictIsRehashing d")
  case False
  note h0 = dict_inv_tables(1) [OF inv]
  have ht1: "ht1 d = dictReset" using inv False by (simp add: dict_inv_def)
  then have "ht_size (ht0 d) > 0" using ne h0 by (auto simp: dictSize_def ht_inv_def)
  then obtain n where n: "n \<le> 60" "ht_size (ht0 d) = 2 ^ n" "sizemask (ht0 d) = mask n" "length (table (ht0 d)) = 2 ^ n"
    using ht_inv_power [OF h0] by metis
  have i: "unat (v AND mask n) < length (table (ht0 d))" using and_mask_less [OF n(1), of v] n(4) by simp
  let ?v = "scan_next (mask n) v"
  have rc: "rcur ?v = (rcur v div 2 ^ (64 - n) + 1) * 2 ^ (64 - n) mod 2 ^ 64" using n(1) by (intro rcur_scan_next) simp
  have "dictScan d v = Some (?v, table (ht0 d) ! unat (v AND mask n))"
    unfolding dictScan_def using ne False n(3) i by (simp add: Let_def)
  moreover have "e \<in> set (table (ht0 d) ! unat (v AND mask n))"
    if e: "e \<in> set (dict_entries d)" and b: "between v ?v (dictHashKey d (de_key e))" for e
  proof -
    have n64: "n \<le> 64" using n(1) by simp
    have "dictHashKey d (de_key e) AND mask n = v AND mask n"
      using between_same_block [OF n64 b rc] same_bucket_iff [OF n64] by blast
    moreover have "e \<in> set (concat (table (ht0 d)))" using e ht1 by (simp add: dict_entries_def)
    ultimately show ?thesis using bucket_of_entry [OF h0 n(3), of e] by (simp del: set_concat)
  qed
  ultimately show ?thesis using n(1,2) rc False by (intro exI conjI) (auto simp: scan_buckets_def)
next
  case True
  define t0 t1 where "t0 = (if ht_size (ht0 d) > ht_size (ht1 d) then ht1 d else ht0 d)"
    and "t1 = (if ht_size (ht0 d) > ht_size (ht1 d) then ht0 d else ht1 d)"
  have inv01: "ht_inv (dictHashKey d) t0" "ht_inv (dictHashKey d) t1" "ht_size t0 > 0" "ht_size t1 > 0" "ht_size t0 \<le> ht_size t1"
    using dict_inv_tables [OF inv] dict_inv_rehashing [OF inv True] by (simp_all add: t0_def t1_def)
  obtain n0 where n0: "n0 \<le> 60" "ht_size t0 = 2 ^ n0" "sizemask t0 = mask n0" "length (table t0) = 2 ^ n0"
    using ht_inv_power [OF inv01(1,3)] by metis
  obtain n1 where n1: "n1 \<le> 60" "ht_size t1 = 2 ^ n1" "sizemask t1 = mask n1" "length (table t1) = 2 ^ n1"
    using ht_inv_power [OF inv01(2,4)] by metis
  have le: "n0 \<le> n1" "n1 \<le> 64" "n0 \<le> 64" using inv01(5) n0(1,2) n1(1,2) by simp_all
  obtain v' em where ex: "scan_expand (table t1) (mask n0) (mask n1) v = Some (v', em)"
    and rc: "rcur v' = (rcur v div 2 ^ (64 - n0) + 1) * 2 ^ (64 - n0) mod 2 ^ 64"
    and cov: "\<forall>h e. between v v' h \<and> e \<in> set (table t1 ! unat (h AND mask n1)) \<longrightarrow> e \<in> set em"
    using scan_expand_spec [OF le(1,2) n1(4), of v] by blast
  have i: "unat (v AND mask n0) < length (table t0)" using and_mask_less [OF n0(1), of v] n0(4) by simp
  have "dictScan d v = Some (v', table t0 ! unat (v AND mask n0) @ em)"
    unfolding dictScan_def using ne True i ex n0(3) n1(3) by (simp add: Let_def t0_def t1_def split: if_splits)
  moreover have "e \<in> set (table t0 ! unat (v AND mask n0) @ em)"
    if e: "e \<in> set (dict_entries d)" and b: "between v v' (dictHashKey d (de_key e))" for e
  proof -
    consider "e \<in> set (concat (table t0))" | "e \<in> set (concat (table t1))"
      using e by (cases "ht_size (ht1 d) < ht_size (ht0 d)") (auto simp: dict_entries_def t0_def t1_def simp del: set_concat)
    then show ?thesis
    proof cases
      case 1
      have "dictHashKey d (de_key e) AND mask n0 = v AND mask n0"
        using between_same_block [OF le(3) b rc] same_bucket_iff [OF le(3)] by blast
      then show ?thesis using bucket_of_entry [OF inv01(1) n0(3) 1] by simp
    next
      case 2
      then show ?thesis using bucket_of_entry [OF inv01(2) n1(3) 2] cov b by auto
    qed
  qed
  moreover have "scan_buckets d = 2 ^ n0" using True n0(2) by (simp add: scan_buckets_def t0_def min_def split: if_splits)
  ultimately show ?thesis using n0(1) rc by blast
qed

lemma dictScan_advances:
  assumes inv: "dict_inv okkey canon d" and "dictScan d v = Some (v', em)" and "v' \<noteq> 0"
  shows "rcur v < rcur v'"
proof -
  have ne: "dictSize d \<noteq> 0"
  proof
    assume "dictSize d = 0"
    then show False using assms(2,3) by (simp add: dictScan_def)
  qed
  obtain n where rc: "rcur v' = (rcur v div 2 ^ (64 - n) + 1) * 2 ^ (64 - n) mod 2 ^ 64"
    using dictScan_spec [OF inv ne, of v] assms(2) by auto
  let ?B = "2 ^ (64 - n) :: nat"
  have dvd: "?B dvd 2 ^ 64" by (rule le_imp_power_dvd) simp
  have "(rcur v div ?B + 1) * ?B \<noteq> 2 ^ 64" using rc assms(3) by (metis mod_self rcur_0(2))
  then have "(rcur v div ?B + 1) * ?B < 2 ^ 64"
    using next_block(1) [OF _ dvd rcur_less, of v] by (metis le_neq_implies_less zero_less_numeral zero_less_power)
  then show ?thesis using rc next_block(3) [OF _ dvd rcur_less, of v] by simp
qed

subsection \<open>A complete iteration\<close>

text \<open>
  \<open>scan_run ds v em\<close>: calls with the cursor \<open>v\<close> and its successors until the cursor is 0 again, the
  i-th call on the dictionary in the state \<open>ds ! i\<close>; \<open>em\<close> are the entries reported.
\<close>

inductive scan_run :: "('k, 'v) dict list \<Rightarrow> u64 \<Rightarrow> ('k, 'v) dictEntry list \<Rightarrow> bool" where
  scan_last: "dictScan d v = Some (0, em) \<Longrightarrow> scan_run [d] v em"
| scan_more: "dictScan d v = Some (v', em) \<Longrightarrow> v' \<noteq> 0 \<Longrightarrow> scan_run ds v' em' \<Longrightarrow> scan_run (d # ds) v (em @ em')"

lemma scan_run_covers:
  assumes "scan_run ds v em" and "\<forall>d \<in> set ds. dict_inv okkey canon d \<and> d_type d = ty \<and> key \<in> de_key ` set (dict_entries d)"
    and "rcur v \<le> rcur (hashFunction ty key)"
  shows "key \<in> de_key ` set em"
  using assms
proof (induction rule: scan_run.induct)
  case (scan_last d v em)
  then obtain e where e: "e \<in> set (dict_entries d)" "de_key e = key" and inv: "dict_inv okkey canon d" and ty: "d_type d = ty" by auto
  have "dictSize d \<noteq> 0"
    using e(1) dict_inv_size [OF inv] by auto
  then have "between v 0 (dictHashKey d (de_key e)) \<longrightarrow> e \<in> set em"
    using dictScan_spec [OF inv, of v] scan_last(1) e(1) by auto
  then show ?case using scan_last(3) e ty by (auto simp: between_def dictHashKey_def)
next
  case (scan_more d v v' em ds em')
  then obtain e where e: "e \<in> set (dict_entries d)" "de_key e = key" and inv: "dict_inv okkey canon d" and ty: "d_type d = ty" by auto
  have "dictSize d \<noteq> 0"
    using e(1) dict_inv_size [OF inv] by auto
  then have now: "between v v' (dictHashKey d (de_key e)) \<longrightarrow> e \<in> set em"
    using dictScan_spec [OF inv, of v] scan_more(1) e(1) by auto
  show ?case
  proof (cases "rcur (hashFunction ty key) < rcur v'")
    case True
    then show ?thesis using now e scan_more(6) ty by (auto simp: between_def dictHashKey_def)
  next
    case False
    then show ?thesis using scan_more(4,5) by auto
  qed
qed

lemma scan_run_unchanged:
  assumes inv: "dict_inv okkey canon d" and ne: "dictSize d \<noteq> 0"
  shows "\<exists>k em. 0 < k \<and> k \<le> scan_buckets d \<and> scan_run (replicate k d) 0 em"
proof -
  obtain n where n: "n \<le> 60" "scan_buckets d = 2 ^ n" using dictScan_spec [OF inv ne, of 0] by blast
  let ?B = "2 ^ (64 - n) :: nat"
  have dvd: "?B dvd 2 ^ 64" by (rule le_imp_power_dvd) simp
  have N: "(2 :: nat) ^ 64 = 2 ^ n * ?B" using n(1) by (simp flip: power_add)
  have "\<exists>k em. 0 < k \<and> k \<le> 2 ^ n - rcur v div ?B \<and> scan_run (replicate k d) v em" for v
  proof (induction "2 ^ n - rcur v div ?B" arbitrary: v rule: less_induct)
    case less
    obtain v' em m where step: "dictScan d v = Some (v', em)" "scan_buckets d = 2 ^ m"
      "rcur v' = (rcur v div 2 ^ (64 - m) + 1) * 2 ^ (64 - m) mod 2 ^ 64"
      using dictScan_spec [OF inv ne, of v] by blast
    have "m = n" using step(2) n(2) by simp
    note rc = step(3) [unfolded this]
    have lt: "rcur v div ?B < 2 ^ n"
      using rcur_less [of v] unfolding N by (simp add: div_less_iff_less_mult mult.commute)
    show ?case
    proof (cases "v' = 0")
      case True
      then have "scan_run (replicate 1 d) v em" using scan_last step(1) by simp
      moreover have "1 \<le> 2 ^ n - rcur v div ?B" using lt by linarith
      ultimately show ?thesis by (intro exI [of _ 1] exI [of _ em]) simp
    next
      case False
      then have "(rcur v div ?B + 1) * ?B \<noteq> 2 ^ 64" using rc by (metis mod_self rcur_0(2))
      then have "(rcur v div ?B + 1) * ?B < 2 ^ 64"
        using next_block(1) [OF _ dvd rcur_less, of v] by (metis le_neq_implies_less zero_less_numeral zero_less_power)
      then have "rcur v' = (rcur v div ?B + 1) * ?B" unfolding rc by (rule mod_less)
      then have d': "rcur v' div ?B = rcur v div ?B + 1" by (simp only: nonzero_mult_div_cancel_right power_not_zero) simp
      then have "2 ^ n - rcur v' div ?B < 2 ^ n - rcur v div ?B" using lt by linarith
      then obtain k em' where "0 < k" "k \<le> 2 ^ n - rcur v' div ?B" "scan_run (replicate k d) v' em'" using less by blast
      then have "scan_run (replicate (Suc k) d) v (em @ em')" "Suc k \<le> 2 ^ n - rcur v div ?B"
        using scan_more [OF step(1) False] d' lt by (simp, linarith)
      then show ?thesis by blast
    qed
  qed
  from this [of 0] show ?thesis using n(2) by simp
qed

end
