(* ===== verification/Hashes.thy ===== *)
theory Hashes
  imports Prelude
begin

section \<open>Hash functions and checksums\<close>

text \<open>
  Models \<open>redis/redis-6.2.7/src/siphash.c\<close> (the hash of every dictionary), \<open>crc16.c\<close> and
  \<open>keyHashSlot\<close> of \<open>cluster.c\<close> (the slot of a key), \<open>crc64.c\<close> and the little-endian half of
  \<open>crcspeed.c\<close> (the checksum of RDB files and of \<open>DUMP\<close> payloads), and \<open>endianconv.c\<close>. The host is a
  little-endian 64-bit machine.

  The theorems: the case-insensitive hash is the hash of the lower-case string; the slice-by-eight CRC
  computes the bit-by-bit CRC for every buffer and alignment; a hash tag decides the slot.
\<close>

subsection \<open>Endianness conversion (\<open>endianconv.c\<close>)\<close>

definition swap_at :: "'a list \<Rightarrow> nat \<Rightarrow> nat \<Rightarrow> 'a list" where
  "swap_at x i j = (let t = x ! i; x = x[i := x ! j] in x[j := t])"

definition memrev16 :: "bytes \<Rightarrow> bytes" where
  "memrev16 x = swap_at x 0 1"

definition memrev32 :: "bytes \<Rightarrow> bytes" where
  "memrev32 x = swap_at (swap_at x 0 3) 1 2"

definition memrev64 :: "bytes \<Rightarrow> bytes" where
  "memrev64 x = swap_at (swap_at (swap_at (swap_at x 0 7) 1 6) 2 5) 3 4"

definition intrev16 :: "16 word \<Rightarrow> 16 word" where
  "intrev16 v = word_of_int (get_le (memrev16 (put_le 2 (uint v))))"

definition intrev32 :: "u32 \<Rightarrow> u32" where
  "intrev32 v = word_of_int (get_le (memrev32 (put_le 4 (uint v))))"

definition intrev64 :: "u64 \<Rightarrow> u64" where
  "intrev64 v = word_of_int (get_le (memrev64 (put_le 8 (uint v))))"

subsection \<open>SipHash (\<open>siphash.c\<close>)\<close>

definition siptlw :: "int \<Rightarrow> int" where
  "siptlw c = (if c \<ge> 65 \<and> c \<le> 90 then c + (97 - 65) else c)"

definition rotl64 :: "u64 \<Rightarrow> nat \<Rightarrow> u64" where
  "rotl64 x b = push_bit b x OR drop_bit (64 - b) x"

definition u8to64_le :: "bytes \<Rightarrow> u64" where
  "u8to64_le p =
    ucast (p ! 0) OR push_bit 8 (ucast (p ! 1)) OR push_bit 16 (ucast (p ! 2)) OR push_bit 24 (ucast (p ! 3)) OR
    push_bit 32 (ucast (p ! 4)) OR push_bit 40 (ucast (p ! 5)) OR push_bit 48 (ucast (p ! 6)) OR push_bit 56 (ucast (p ! 7))"

text \<open>\<open>(uint64_t)siptlw(c)\<close> of one input byte.\<close>

definition tlw64 :: "byte \<Rightarrow> u64" where
  "tlw64 c = word_of_int (siptlw (uint c))"

definition u8to64_le_nocase :: "bytes \<Rightarrow> u64" where
  "u8to64_le_nocase p =
    tlw64 (p ! 0) OR push_bit 8 (tlw64 (p ! 1)) OR push_bit 16 (tlw64 (p ! 2)) OR push_bit 24 (tlw64 (p ! 3)) OR
    push_bit 32 (tlw64 (p ! 4)) OR push_bit 40 (tlw64 (p ! 5)) OR push_bit 48 (tlw64 (p ! 6)) OR push_bit 56 (tlw64 (p ! 7))"

type_synonym sip_state = "u64 \<times> u64 \<times> u64 \<times> u64"

fun sipround :: "sip_state \<Rightarrow> sip_state" where
  "sipround (v0, v1, v2, v3) =
    (let v0 = v0 + v1;
         v1 = rotl64 v1 13;
         v1 = v1 XOR v0;
         v0 = rotl64 v0 32;
         v2 = v2 + v3;
         v3 = rotl64 v3 16;
         v3 = v3 XOR v2;
         v0 = v0 + v3;
         v3 = rotl64 v3 21;
         v3 = v3 XOR v0;
         v2 = v2 + v1;
         v1 = rotl64 v1 17;
         v1 = v1 XOR v2;
         v2 = rotl64 v2 32
     in (v0, v1, v2, v3))"

definition sip_absorb :: "u64 \<Rightarrow> sip_state \<Rightarrow> sip_state" where
  "sip_absorb m st =
    (let (v0, v1, v2, v3) = st;
         (v0, v1, v2, v3) = sipround (v0, v1, v2, v3 XOR m)
     in (v0 XOR m, v1, v2, v3))"

text \<open>The loop over the whole 8-byte words, for the two readings of a word, and the bytes that are left.\<close>

function sip_blocks :: "sip_state \<Rightarrow> bytes \<Rightarrow> sip_state \<times> bytes" where
  "sip_blocks st inp =
    (if length inp < 8 then (st, inp) else sip_blocks (sip_absorb (u8to64_le inp) st) (drop 8 inp))"
  by pat_completeness auto
termination
  by (relation "measure (\<lambda>(st, inp). length inp)") auto

function sip_blocks_nocase :: "sip_state \<Rightarrow> bytes \<Rightarrow> sip_state \<times> bytes" where
  "sip_blocks_nocase st inp =
    (if length inp < 8 then (st, inp) else sip_blocks_nocase (sip_absorb (u8to64_le_nocase inp) st) (drop 8 inp))"
  by pat_completeness auto
termination
  by (relation "measure (\<lambda>(st, inp). length inp)") auto

declare sip_blocks.simps [simp del] sip_blocks_nocase.simps [simp del]

text \<open>The \<open>switch\<close> on the number of bytes left falls through from the highest case.\<close>

definition sip_tail :: "nat \<Rightarrow> bytes \<Rightarrow> u64 \<Rightarrow> u64" where
  "sip_tail left inp b =
    (let b = (if left \<ge> 7 then b OR push_bit 48 (ucast (inp ! 6)) else b);
         b = (if left \<ge> 6 then b OR push_bit 40 (ucast (inp ! 5)) else b);
         b = (if left \<ge> 5 then b OR push_bit 32 (ucast (inp ! 4)) else b);
         b = (if left \<ge> 4 then b OR push_bit 24 (ucast (inp ! 3)) else b);
         b = (if left \<ge> 3 then b OR push_bit 16 (ucast (inp ! 2)) else b);
         b = (if left \<ge> 2 then b OR push_bit 8 (ucast (inp ! 1)) else b)
     in if left \<ge> 1 then b OR ucast (inp ! 0) else b)"

definition sip_tail_nocase :: "nat \<Rightarrow> bytes \<Rightarrow> u64 \<Rightarrow> u64" where
  "sip_tail_nocase left inp b =
    (let b = (if left \<ge> 7 then b OR push_bit 48 (tlw64 (inp ! 6)) else b);
         b = (if left \<ge> 6 then b OR push_bit 40 (tlw64 (inp ! 5)) else b);
         b = (if left \<ge> 5 then b OR push_bit 32 (tlw64 (inp ! 4)) else b);
         b = (if left \<ge> 4 then b OR push_bit 24 (tlw64 (inp ! 3)) else b);
         b = (if left \<ge> 3 then b OR push_bit 16 (tlw64 (inp ! 2)) else b);
         b = (if left \<ge> 2 then b OR push_bit 8 (tlw64 (inp ! 1)) else b)
     in if left \<ge> 1 then b OR tlw64 (inp ! 0) else b)"

definition sip_init :: "bytes \<Rightarrow> sip_state" where
  "sip_init k =
    (let k0 = u8to64_le k; k1 = u8to64_le (drop 8 k)
     in (0x736f6d6570736575 XOR k0, 0x646f72616e646f6d XOR k1, 0x6c7967656e657261 XOR k0, 0x7465646279746573 XOR k1))"

definition sip_final :: "sip_state \<Rightarrow> u64 \<Rightarrow> u64" where
  "sip_final st b =
    (let (v0, v1, v2, v3) = sip_absorb b st;
         (v0, v1, v2, v3) = sipround (sipround (v0, v1, v2 XOR 0xff, v3))
     in v0 XOR v1 XOR v2 XOR v3)"

definition siphash :: "bytes \<Rightarrow> bytes \<Rightarrow> u64" where
  "siphash inp k =
    (let b = push_bit 56 (of_nat (length inp));
         (st, rest) = sip_blocks (sip_init k) inp
     in sip_final st (sip_tail (length rest) rest b))"

definition siphash_nocase :: "bytes \<Rightarrow> bytes \<Rightarrow> u64" where
  "siphash_nocase inp k =
    (let b = push_bit 56 (of_nat (length inp));
         (st, rest) = sip_blocks_nocase (sip_init k) inp
     in sip_final st (sip_tail_nocase (length rest) rest b))"

subsection \<open>CRC16 and hash slots (\<open>crc16.c\<close>, \<open>cluster.c\<close>)\<close>

definition crc16tab :: "16 word list" where
  "crc16tab =
    [0x0000, 0x1021, 0x2042, 0x3063, 0x4084, 0x50a5, 0x60c6, 0x70e7,
     0x8108, 0x9129, 0xa14a, 0xb16b, 0xc18c, 0xd1ad, 0xe1ce, 0xf1ef,
     0x1231, 0x0210, 0x3273, 0x2252, 0x52b5, 0x4294, 0x72f7, 0x62d6,
     0x9339, 0x8318, 0xb37b, 0xa35a, 0xd3bd, 0xc39c, 0xf3ff, 0xe3de,
     0x2462, 0x3443, 0x0420, 0x1401, 0x64e6, 0x74c7, 0x44a4, 0x5485,
     0xa56a, 0xb54b, 0x8528, 0x9509, 0xe5ee, 0xf5cf, 0xc5ac, 0xd58d,
     0x3653, 0x2672, 0x1611, 0x0630, 0x76d7, 0x66f6, 0x5695, 0x46b4,
     0xb75b, 0xa77a, 0x9719, 0x8738, 0xf7df, 0xe7fe, 0xd79d, 0xc7bc,
     0x48c4, 0x58e5, 0x6886, 0x78a7, 0x0840, 0x1861, 0x2802, 0x3823,
     0xc9cc, 0xd9ed, 0xe98e, 0xf9af, 0x8948, 0x9969, 0xa90a, 0xb92b,
     0x5af5, 0x4ad4, 0x7ab7, 0x6a96, 0x1a71, 0x0a50, 0x3a33, 0x2a12,
     0xdbfd, 0xcbdc, 0xfbbf, 0xeb9e, 0x9b79, 0x8b58, 0xbb3b, 0xab1a,
     0x6ca6, 0x7c87, 0x4ce4, 0x5cc5, 0x2c22, 0x3c03, 0x0c60, 0x1c41,
     0xedae, 0xfd8f, 0xcdec, 0xddcd, 0xad2a, 0xbd0b, 0x8d68, 0x9d49,
     0x7e97, 0x6eb6, 0x5ed5, 0x4ef4, 0x3e13, 0x2e32, 0x1e51, 0x0e70,
     0xff9f, 0xefbe, 0xdfdd, 0xcffc, 0xbf1b, 0xaf3a, 0x9f59, 0x8f78,
     0x9188, 0x81a9, 0xb1ca, 0xa1eb, 0xd10c, 0xc12d, 0xf14e, 0xe16f,
     0x1080, 0x00a1, 0x30c2, 0x20e3, 0x5004, 0x4025, 0x7046, 0x6067,
     0x83b9, 0x9398, 0xa3fb, 0xb3da, 0xc33d, 0xd31c, 0xe37f, 0xf35e,
     0x02b1, 0x1290, 0x22f3, 0x32d2, 0x4235, 0x5214, 0x6277, 0x7256,
     0xb5ea, 0xa5cb, 0x95a8, 0x8589, 0xf56e, 0xe54f, 0xd52c, 0xc50d,
     0x34e2, 0x24c3, 0x14a0, 0x0481, 0x7466, 0x6447, 0x5424, 0x4405,
     0xa7db, 0xb7fa, 0x8799, 0x97b8, 0xe75f, 0xf77e, 0xc71d, 0xd73c,
     0x26d3, 0x36f2, 0x0691, 0x16b0, 0x6657, 0x7676, 0x4615, 0x5634,
     0xd94c, 0xc96d, 0xf90e, 0xe92f, 0x99c8, 0x89e9, 0xb98a, 0xa9ab,
     0x5844, 0x4865, 0x7806, 0x6827, 0x18c0, 0x08e1, 0x3882, 0x28a3,
     0xcb7d, 0xdb5c, 0xeb3f, 0xfb1e, 0x8bf9, 0x9bd8, 0xabbb, 0xbb9a,
     0x4a75, 0x5a54, 0x6a37, 0x7a16, 0x0af1, 0x1ad0, 0x2ab3, 0x3a92,
     0xfd2e, 0xed0f, 0xdd6c, 0xcd4d, 0xbdaa, 0xad8b, 0x9de8, 0x8dc9,
     0x7c26, 0x6c07, 0x5c64, 0x4c45, 0x3ca2, 0x2c83, 0x1ce0, 0x0cc1,
     0xef1f, 0xff3e, 0xcf5d, 0xdf7c, 0xaf9b, 0xbfba, 0x8fd9, 0x9ff8,
     0x6e17, 0x7e36, 0x4e55, 0x5e74, 0x2e93, 0x3eb2, 0x0ed1, 0x1ef0]"

text \<open>\<open>*buf++\<close> is a \<open>char\<close>, signed on this platform; the result is masked with \<open>0x00FF\<close>.\<close>

definition crc16_step :: "16 word \<Rightarrow> byte \<Rightarrow> 16 word" where
  "crc16_step crc c = push_bit 8 crc XOR crc16tab ! unat ((drop_bit 8 crc XOR scast c) AND 0x00FF)"

definition crc16 :: "bytes \<Rightarrow> 16 word" where
  "crc16 buf = foldl crc16_step 0 buf"

text \<open>The index of the first occurrence of a byte from \<open>i\<close> on, or the length.\<close>

fun scan_char :: "bytes \<Rightarrow> nat \<Rightarrow> byte \<Rightarrow> nat" where
  "scan_char [] i c = i"
| "scan_char (k # key) i c = (if k = c then i else scan_char key (Suc i) c)"

definition keyHashSlot :: "bytes \<Rightarrow> 16 word" where
  "keyHashSlot key =
    (let keylen = length key;
         s = scan_char key 0 123
     in if s = keylen then crc16 key AND 0x3FFF
        else
          (let e = scan_char (drop (s + 1) key) (s + 1) 125
           in if e = keylen \<or> e = s + 1 then crc16 key AND 0x3FFF
              else crc16 (take (e - s - 1) (drop (s + 1) key)) AND 0x3FFF))"

subsection \<open>CRC64 (\<open>crc64.c\<close>, \<open>crcspeed.c\<close>)\<close>

abbreviation (input) CRC64_POLY :: u64 where "CRC64_POLY \<equiv> 0xad93d23594c935a9"

fun crc_reflect_loop :: "nat \<Rightarrow> u64 \<Rightarrow> u64 \<Rightarrow> u64" where
  "crc_reflect_loop 0 data ret = ret"
| "crc_reflect_loop (Suc n) data ret =
    (let data = drop_bit 1 data in crc_reflect_loop n data (push_bit 1 ret OR (data AND 1)))"

definition crc_reflect :: "u64 \<Rightarrow> nat \<Rightarrow> u64" where
  "crc_reflect data data_len = crc_reflect_loop (data_len - 1) data (data AND 1)"

text \<open>One bit of one byte: \<open>i\<close> is the mask \<open>1 << j\<close>.\<close>

definition crc64_bit :: "u64 \<Rightarrow> byte \<Rightarrow> nat \<Rightarrow> u64" where
  "crc64_bit crc c j =
    (let bit1 = (crc AND 0x8000000000000000 \<noteq> 0);
         bit1 = (if c AND push_bit j 1 \<noteq> 0 then \<not> bit1 else bit1);
         crc = push_bit 1 crc
     in if bit1 then crc XOR CRC64_POLY else crc)"

definition crc64_byte :: "u64 \<Rightarrow> byte \<Rightarrow> u64" where
  "crc64_byte crc c = foldl (\<lambda>crc j. crc64_bit crc c j) crc [0..<8]"

definition crc64_bitwise :: "u64 \<Rightarrow> bytes \<Rightarrow> u64" where
  "crc64_bitwise crc data = crc_reflect (foldl crc64_byte crc data) 64"

text \<open>\<open>crcspeed64little_init\<close>: the eight tables, from a bit-by-bit CRC.\<close>

definition crc_table0 :: "(u64 \<Rightarrow> bytes \<Rightarrow> u64) \<Rightarrow> u64 list" where
  "crc_table0 crcfn = map (\<lambda>n. crcfn 0 [of_nat n]) [0..<256]"

definition crc_next :: "u64 list \<Rightarrow> u64 \<Rightarrow> u64" where
  "crc_next t0 crc = t0 ! unat (crc AND 0xff) XOR drop_bit 8 crc"

definition crcspeed64little_init :: "(u64 \<Rightarrow> bytes \<Rightarrow> u64) \<Rightarrow> u64 list list" where
  "crcspeed64little_init crcfn =
    (let t0 = crc_table0 crcfn
     in map (\<lambda>k. map (\<lambda>n. (crc_next t0 ^^ k) (t0 ! n)) [0..<256]) [0..<8])"

definition crc_byte_step :: "u64 list list \<Rightarrow> u64 \<Rightarrow> byte \<Rightarrow> u64" where
  "crc_byte_step tab crc c = tab ! 0 ! unat ((crc XOR ucast c) AND 0xff) XOR drop_bit 8 crc"

definition crc_word_step :: "u64 list list \<Rightarrow> u64 \<Rightarrow> bytes \<Rightarrow> u64" where
  "crc_word_step tab crc next =
    (let crc = crc XOR word_of_int (get_le (take 8 next))
     in tab ! 7 ! unat (crc AND 0xff) XOR
        tab ! 6 ! unat (drop_bit 8 crc AND 0xff) XOR
        tab ! 5 ! unat (drop_bit 16 crc AND 0xff) XOR
        tab ! 4 ! unat (drop_bit 24 crc AND 0xff) XOR
        tab ! 3 ! unat (drop_bit 32 crc AND 0xff) XOR
        tab ! 2 ! unat (drop_bit 40 crc AND 0xff) XOR
        tab ! 1 ! unat (drop_bit 48 crc AND 0xff) XOR
        tab ! 0 ! unat (drop_bit 56 crc))"

text \<open>The three loops of \<open>crcspeed64little\<close>; \<open>addr\<close> is the address of the buffer.\<close>

fun crc_align :: "u64 list list \<Rightarrow> u64 \<Rightarrow> nat \<Rightarrow> bytes \<Rightarrow> u64 \<times> bytes" where
  "crc_align tab crc addr [] = (crc, [])"
| "crc_align tab crc addr (c # buf) =
    (if addr mod 8 \<noteq> 0 then crc_align tab (crc_byte_step tab crc c) (Suc addr) buf else (crc, c # buf))"

function crc_words :: "u64 list list \<Rightarrow> u64 \<Rightarrow> bytes \<Rightarrow> u64 \<times> bytes" where
  "crc_words tab crc buf =
    (if length buf \<ge> 8 then crc_words tab (crc_word_step tab crc buf) (drop 8 buf) else (crc, buf))"
  by pat_completeness auto
termination
  by (relation "measure (\<lambda>(tab, crc, buf). length buf)") auto

declare crc_words.simps [simp del]

definition crcspeed64little :: "u64 list list \<Rightarrow> u64 \<Rightarrow> nat \<Rightarrow> bytes \<Rightarrow> u64" where
  "crcspeed64little tab crc addr buf =
    (let (crc, buf) = crc_align tab crc addr buf;
         (crc, buf) = crc_words tab crc buf
     in foldl (crc_byte_step tab) crc buf)"

definition crc64 :: "u64 \<Rightarrow> nat \<Rightarrow> bytes \<Rightarrow> u64" where
  "crc64 crc addr s = crcspeed64little (crcspeed64little_init crc64_bitwise) crc addr s"

subsection \<open>Byte reversal\<close>

lemma swap_at_simps:
  assumes "i < length x" "j < length x"
  shows "length (swap_at x i j) = length x"
    and "k < length x \<Longrightarrow> swap_at x i j ! k = x ! (if k = j then i else if k = i then j else k)"
  using assms by (auto simp: swap_at_def Let_def nth_list_update)

lemma memrev16_rev: "length x = 2 \<Longrightarrow> memrev16 x = rev x"
  by (rule nth_equalityI) (auto simp: memrev16_def swap_at_simps rev_nth numeral_eq_Suc less_Suc_eq)

lemma memrev32_rev: "length x = 4 \<Longrightarrow> memrev32 x = rev x"
  by (rule nth_equalityI) (auto simp: memrev32_def swap_at_simps rev_nth numeral_eq_Suc less_Suc_eq)

lemma memrev64_rev: "length x = 8 \<Longrightarrow> memrev64 x = rev x"
  by (rule nth_equalityI) (auto simp: memrev64_def swap_at_simps rev_nth numeral_eq_Suc less_Suc_eq)

lemma put_le_word_of_get_le:
  assumes "8 * n = LENGTH('a::len)" "length x = n"
  shows "put_le n (uint (word_of_int (get_le x) :: 'a word)) = x"
proof -
  have "256 ^ n = (2 :: int) ^ LENGTH('a)"
    unfolding assms(1) [symmetric] by (simp add: power_mult)
  then have "uint (word_of_int (get_le x) :: 'a word) = get_le x"
    using get_le_bounds [of x] assms(2) by (simp add: uint_word_of_int)
  then show ?thesis using put_le_get_le [of x] assms(2) by simp
qed

lemma word_of_get_le_put_le:
  assumes "8 * n = LENGTH('a::len)"
  shows "word_of_int (get_le (put_le n (uint (v :: 'a word)))) = v"
proof -
  have "256 ^ n = (2 :: int) ^ LENGTH('a)"
    unfolding assms(1) [symmetric] by (simp add: power_mult)
  then show ?thesis using uint_lt2p [of v] by (simp add: get_le_put_le)
qed

lemma intrev16_eq: "intrev16 v = word_of_int (get_le (rev (put_le 2 (uint v))))"
  unfolding intrev16_def by (subst memrev16_rev) (simp_all only: length_put_le)

lemma intrev32_eq: "intrev32 v = word_of_int (get_le (rev (put_le 4 (uint v))))"
  unfolding intrev32_def by (subst memrev32_rev) (simp_all only: length_put_le)

lemma intrev64_eq: "intrev64 v = word_of_int (get_le (rev (put_le 8 (uint v))))"
  unfolding intrev64_def by (subst memrev64_rev) (simp_all only: length_put_le)

lemma rev_put_le_twice:
  assumes "8 * n = LENGTH('a::len)"
  shows "word_of_int (get_le (rev (put_le n (uint (word_of_int (get_le (rev (put_le n (uint (v :: 'a word)))))
    :: 'a word))))) = v"
  unfolding put_le_word_of_get_le [OF assms, of "rev (put_le n (uint v))", unfolded length_rev length_put_le,
      OF refl] rev_rev_ident by (rule word_of_get_le_put_le [OF assms])

lemma intrev_involutive:
  "intrev16 (intrev16 a) = a" "intrev32 (intrev32 b) = b" "intrev64 (intrev64 c) = c"
  unfolding intrev16_eq intrev32_eq intrev64_eq by (rule rev_put_le_twice, simp)+

lemma put_le_rev_word:
  assumes "8 * n = LENGTH('a::len)"
  shows "put_le n (uint (word_of_int (get_le (rev (put_le n (uint (v :: 'a word))))) :: 'a word)) = rev (put_le n (uint v))"
  by (rule put_le_word_of_get_le [OF assms]) (simp only: length_rev length_put_le)

lemma intrev_bytes:
  "put_le 2 (uint (intrev16 a)) = rev (put_le 2 (uint a))"
  "put_le 4 (uint (intrev32 b)) = rev (put_le 4 (uint b))"
  "put_le 8 (uint (intrev64 c)) = rev (put_le 8 (uint c))"
  unfolding intrev16_eq intrev32_eq intrev64_eq by (rule put_le_rev_word, simp)+

subsection \<open>The case-insensitive hash\<close>

lemma tlw64_eq: "tlw64 c = ucast (tolower c)"
proof (cases "65 \<le> c \<and> c \<le> 90")
  case True
  then have "uint c \<le> 90" by (simp add: word_le_def)
  moreover have "uint (c + 32) = (uint c + 32) mod 256" by (simp add: uint_word_ariths)
  ultimately have "uint (c + 32) = uint c + 32" by simp
  moreover have "tolower c = c + 32" using True by (simp only: tolower_def simp_thms if_True)
  moreover have "siptlw (uint c) = uint c + 32" using True by (simp add: siptlw_def word_le_def)
  ultimately show ?thesis by (simp only: tlw64_def ucast_eq)
next
  case False
  then have "tolower c = c" by (simp only: tolower_def if_False)
  moreover have "siptlw (uint c) = uint c" using False by (auto simp: siptlw_def word_le_def)
  ultimately show ?thesis by (simp only: tlw64_def ucast_eq)
qed

lemma u8to64_le_nocase_eq:
  "length p \<ge> 8 \<Longrightarrow> u8to64_le_nocase p = u8to64_le (map tolower p)"
  unfolding u8to64_le_nocase_def u8to64_le_def tlw64_eq by (cases "p = []") simp_all

lemma sip_blocks_nocase_eq:
  "sip_blocks_nocase st inp = (st', rest) \<Longrightarrow>
    sip_blocks st (map tolower inp) = (st', map tolower rest) \<and> length rest < 8"
proof (induction st inp rule: sip_blocks_nocase.induct)
  case (1 st inp)
  show ?case
    using 1 by (auto simp: sip_blocks_nocase.simps [of st inp] sip_blocks.simps [of st "map tolower inp"]
        u8to64_le_nocase_eq drop_map split: if_splits)
qed

lemma sip_tail_nocase_eq:
  "left = length inp \<Longrightarrow> sip_tail_nocase left inp b = sip_tail left (map tolower inp) b"
  by (cases "inp = []") (simp_all add: sip_tail_nocase_def sip_tail_def tlw64_eq Let_def)

lemma siphash_nocase_eq: "siphash_nocase inp k = siphash (map tolower inp) k"
proof -
  obtain st rest where 1: "sip_blocks_nocase (sip_init k) inp = (st, rest)" by fastforce
  show ?thesis
    using sip_blocks_nocase_eq [OF 1] by (simp add: siphash_nocase_def siphash_def 1 sip_tail_nocase_eq)
qed

subsection \<open>Hash slots\<close>

lemma scan_char_absent: "c \<notin> set xs \<Longrightarrow> scan_char (xs @ ys) i c = scan_char ys (i + length xs) c"
  by (induction xs arbitrary: i) auto

lemma and_3fff: "unat (w AND 0x3FFF :: 16 word) < 16384"
  using word_and_le1 [of w "0x3FFF"] by (simp add: word_le_nat_alt)

subsection \<open>The bit-by-bit CRC in the reflected order\<close>

definition lbit :: "u64 \<Rightarrow> u64" where
  "lbit c = drop_bit 1 c XOR (if bit c 0 then word_reverse CRC64_POLY else 0)"

abbreviation lbits :: "nat \<Rightarrow> u64 \<Rightarrow> u64" where
  "lbits n \<equiv> lbit ^^ n"

lemma lbit_xor: "lbit (a XOR b) = lbit a XOR lbit b"
  unfolding lbit_def drop_bit_xor by (simp add: bit_xor_iff xor.left_commute xor.assoc)

lemma lbit_0 [simp]: "lbit 0 = 0"
  by (simp add: lbit_def)

lemma lbits_xor: "lbits n (a XOR b) = lbits n a XOR lbits n b"
  by (induction n) (simp_all add: lbit_xor)

lemma lbits_0 [simp]: "lbits n 0 = 0"
  by (induction n) simp_all

lemma lbits_shift: "take_bit n x = 0 \<Longrightarrow> lbits n x = drop_bit n x"
proof (induction n arbitrary: x)
  case (Suc n)
  have z: "\<not> bit x i" if "i < Suc n" for i
    using Suc.prems that by (metis bit_0_eq bit_take_bit_iff bot_apply bot_bool_def)
  have "lbit x = drop_bit 1 x" using z [of 0] by (simp add: lbit_def)
  moreover have "take_bit n (drop_bit 1 x) = 0"
    using z by (intro bit_word_eqI) (auto simp: bit_take_bit_iff bit_drop_bit_eq)
  ultimately have "lbits n (lbit x) = drop_bit n (drop_bit 1 x)" using Suc.IH by simp
  then show ?case by (simp add: funpow_swap1 drop_bit_drop_bit)
qed simp

lemma word_reverse_xor: "word_reverse (a XOR b :: u64) = word_reverse a XOR word_reverse b"
  by (rule bit_word_eqI) (simp add: bit_word_reverse_iff bit_xor_iff)

lemma word_reverse_push_bit: "word_reverse (push_bit 1 a :: u64) = drop_bit 1 (word_reverse a)"
proof (rule bit_word_eqI)
  fix n assume "n < LENGTH(64)"
  then show "bit (word_reverse (push_bit 1 a)) n = bit (drop_bit 1 (word_reverse a)) n"
    unfolding bit_word_reverse_iff bit_push_bit_iff bit_drop_bit_eq comp_def by auto
qed

lemma crc_reflect_loop_bits:
  assumes "n + k = 63" and "\<forall>j. bit r j \<longleftrightarrow> j \<le> k \<and> bit d (k - j)"
  shows "\<forall>j < 64. bit (crc_reflect_loop n (drop_bit k d) r) j \<longleftrightarrow> bit d (63 - j)"
  using assms
proof (induction n arbitrary: k r)
  case (Suc n)
  let ?r = "push_bit 1 r OR (drop_bit 1 (drop_bit k d) AND 1)"
  have "bit ?r j \<longleftrightarrow> j \<le> Suc k \<and> bit d (Suc k - j)" for j
    using Suc.prems unfolding bit_or_iff bit_and_iff bit_push_bit_iff bit_drop_bit_eq comp_def bit_1_iff
    by (cases j) auto
  then show ?case using Suc.IH [of "Suc k" ?r] Suc.prems(1) by (simp add: Let_def drop_bit_drop_bit)
qed auto

lemma crc_reflect_eq: "crc_reflect d 64 = word_reverse d"
proof (rule bit_word_eqI)
  fix j assume "j < LENGTH(64)"
  then have j: "j < 64" by simp
  have z: "\<forall>i. bit (d AND 1) i \<longleftrightarrow> i \<le> 0 \<and> bit d (0 - i)"
    by (auto simp: bit_and_iff bit_1_iff)
  have "63 + 0 = (63 :: nat)" by simp
  from crc_reflect_loop_bits [OF this z] j
  have "bit (crc_reflect_loop 63 (drop_bit 0 d) (d AND 1)) j \<longleftrightarrow> bit d (63 - j)"
    by (elim allE impE)
  moreover have "crc_reflect d 64 = crc_reflect_loop 63 (drop_bit 0 d) (d AND 1)"
    unfolding crc_reflect_def by simp
  ultimately show "bit (crc_reflect d 64) j = bit (word_reverse d) j"
    using j unfolding bit_word_reverse_iff by simp
qed

lemma and_msb: "crc AND 0x8000000000000000 \<noteq> 0 \<longleftrightarrow> bit (crc :: u64) 63"
  using and_exp_eq_0_iff_not_bit [of crc 63] by simp

lemma and_bit: "c AND push_bit j 1 \<noteq> 0 \<longleftrightarrow> bit (c :: byte) j"
  using and_exp_eq_0_iff_not_bit [of c j] by (simp add: push_bit_eq_mult)

lemma word_reverse_crc64_bit:
  "word_reverse (crc64_bit crc c j) = lbit (word_reverse crc XOR of_bool (bit c j))"
proof -
  have "bit (word_reverse crc) 0 \<longleftrightarrow> bit crc 63" by (simp add: bit_word_reverse_iff)
  moreover have "drop_bit 1 (x XOR of_bool b :: u64) = drop_bit 1 x" for x b
    by (intro bit_word_eqI) (auto simp: bit_drop_bit_eq bit_xor_iff bit_of_bool_iff)
  ultimately show ?thesis
    unfolding crc64_bit_def Let_def and_msb and_bit lbit_def bit_xor_iff bit_of_bool_iff
    by (cases "bit c j"; cases "bit crc 63")
      (simp_all only: if_True if_False word_reverse_xor word_reverse_push_bit xor.right_neutral
        simp_thms)
qed


lemma ucast_bit_add:
  "take_bit (Suc n) (w :: u64) = take_bit n w XOR push_bit n (of_bool (bit w n))"
  by (rule bit_word_eqI) (auto simp: bit_take_bit_iff bit_xor_iff bit_push_bit_iff bit_of_bool_iff
        less_Suc_eq)

lemma lbits_push_bit:
  assumes "n < 64"
  shows "lbits n (push_bit n (of_bool b)) = of_bool b"
proof -
  have z: "take_bit n (push_bit n (of_bool b)) = (0 :: u64)"
    by (rule bit_word_eqI) (auto simp: bit_take_bit_iff bit_push_bit_iff)
  have "drop_bit n (push_bit n (of_bool b)) = (of_bool b :: u64)"
    using assms by (intro bit_word_eqI) (auto simp: bit_drop_bit_eq bit_push_bit_iff bit_of_bool_iff)
  then show ?thesis using lbits_shift [OF z] by simp
qed

lemma word_reverse_crc64_bits:
  assumes "n \<le> 8"
  shows "word_reverse (foldl (\<lambda>crc j. crc64_bit crc c j) crc [0..<n]) =
    lbits n (word_reverse crc XOR take_bit n (ucast c))"
  using assms
proof (induction n)
  case (Suc n)
  have b: "bit (ucast c :: u64) n = bit c n" using Suc.prems by (simp add: bit_ucast_iff)
  have "lbits n (word_reverse crc XOR take_bit (Suc n) (ucast c)) =
      lbits n (word_reverse crc XOR take_bit n (ucast c)) XOR of_bool (bit c n)"
    using Suc.prems unfolding ucast_bit_add b xor.assoc [symmetric] lbits_xor [of n "_ XOR _"]
    by (simp add: lbits_push_bit)
  then show ?case using Suc by (simp add: word_reverse_crc64_bit)
qed simp

lemma word_reverse_crc64_byte:
  "word_reverse (crc64_byte crc c) = lbits 8 (word_reverse crc XOR ucast c)"
proof -
  have "take_bit 8 (ucast c :: u64) = ucast c"
    by (rule bit_word_eqI) (auto simp: bit_take_bit_iff bit_ucast_iff dest: bit_imp_le_length)
  then show ?thesis unfolding crc64_byte_def word_reverse_crc64_bits [OF order_refl] by simp
qed

definition crc_step :: "u64 \<Rightarrow> byte \<Rightarrow> u64" where
  "crc_step crc c = lbits 8 (crc XOR ucast c)"

lemma crc64_bitwise_eq: "crc64_bitwise crc bs = foldl crc_step (word_reverse crc) bs"
proof -
  have "word_reverse (foldl crc64_byte crc bs) = foldl crc_step (word_reverse crc) bs" for crc
    by (induction bs arbitrary: crc) (simp_all add: word_reverse_crc64_byte crc_step_def)
  then show ?thesis by (simp add: crc64_bitwise_def crc_reflect_eq)
qed

subsection \<open>The tables and the slicing step\<close>

lemma lbits_lbits: "lbits m (lbits n x) = lbits (m + n) x"
  by (simp add: funpow_add)

definition crc_tab :: "u64 list list" where
  "crc_tab = crcspeed64little_init crc64_bitwise"

lemma and_ff: "(c :: u64) AND 0xff = take_bit 8 c"
  by (simp add: take_bit_eq_mask mask_eq_exp_minus_1)

lemma unat_take8: "unat (take_bit 8 (c :: u64)) < 256"
  using take_bit_nat_less_exp [of 8 "unat c"] by (simp add: unsigned_take_bit_eq)

lemma crc_table0_nth: "n < 256 \<Longrightarrow> crc_table0 crc64_bitwise ! n = lbits 8 (of_nat n)"
proof -
  assume n: "n < 256"
  have "ucast (of_nat n :: byte) = (of_nat n :: u64)"
    using n by (simp add: word_unat_eq_iff unat_of_nat unsigned_ucast_eq take_bit_eq_mod)
  moreover have "word_reverse (0 :: u64) = 0" by (rule bit_word_eqI) (simp add: bit_word_reverse_iff)
  ultimately show ?thesis
    using n by (simp add: crc_table0_def crc64_bitwise_eq crc_step_def)
qed

lemma split8: "(c :: u64) = take_bit 8 c XOR push_bit 8 (drop_bit 8 c)"
  by (rule bit_word_eqI)
    (auto simp: bit_take_bit_iff bit_xor_iff bit_push_bit_iff bit_drop_bit_eq)

lemma lbits_push_small:
  assumes "take_bit (64 - n) w = w" "n \<le> 64"
  shows "lbits n (push_bit n w) = w"
proof -
  have z: "take_bit n (push_bit n w) = 0"
    by (rule bit_word_eqI) (auto simp: bit_take_bit_iff bit_push_bit_iff)
  have b: "n + i < 64" if "bit w i" for i
  proof -
    have "bit (take_bit (64 - n) w) i" using that by (simp only: assms(1))
    then show ?thesis by (simp add: bit_take_bit_iff) linarith
  qed
  have "drop_bit n (push_bit n w) = w"
    using assms(2) b by (intro bit_word_eqI) (auto simp: bit_drop_bit_eq bit_push_bit_iff)
  then show ?thesis using lbits_shift [OF z] by simp
qed

lemma lbits8: "lbits 8 c = lbits 8 (take_bit 8 c) XOR drop_bit 8 c"
proof -
  have "take_bit (64 - 8) (drop_bit 8 c) = drop_bit 8 c"
    by (rule bit_word_eqI) (auto simp: bit_take_bit_iff bit_drop_bit_eq dest: bit_imp_le_length)
  then have "lbits 8 (push_bit 8 (drop_bit 8 c)) = drop_bit 8 c" by (rule lbits_push_small) simp
  then show ?thesis by (metis split8 lbits_xor)
qed

lemma crc_next_eq: "crc_next (crc_table0 crc64_bitwise) c = lbits 8 c"
  unfolding crc_next_def and_ff crc_table0_nth [OF unat_take8] by (simp add: lbits8 [of c])

lemma crc_tab_nth:
  assumes "k < 8" "n < 256"
  shows "crc_tab ! k ! n = lbits (8 * Suc k) (of_nat n)"
proof -
  have "(crc_next (crc_table0 crc64_bitwise) ^^ k) x = lbits (8 * k) x" for x
    by (induction k arbitrary: x) (simp_all add: crc_next_eq lbits_lbits)
  then show ?thesis using assms
    by (simp add: crc_tab_def crcspeed64little_init_def Let_def crc_table0_nth lbits_lbits add.commute)
qed

lemma crc_byte_step_eq: "crc_byte_step crc_tab crc c = crc_step crc c"
proof -
  have "drop_bit 8 (crc XOR ucast c) = drop_bit 8 crc"
    by (rule bit_word_eqI) (auto simp: bit_drop_bit_eq bit_xor_iff bit_ucast_iff dest: bit_imp_le_length)
  then show ?thesis
    unfolding crc_byte_step_def and_ff crc_step_def lbits8 [of "crc XOR ucast c"]
    by (simp add: crc_tab_nth unat_take8 del: take_bit_xor drop_bit_xor)
qed

fun le_word :: "bytes \<Rightarrow> u64" where
  "le_word [] = 0"
| "le_word (b # bs) = ucast b XOR push_bit 8 (le_word bs)"

lemma le_word_get_le: "le_word bs = word_of_int (get_le bs)"
proof (induction bs)
  case (Cons b bs)
  have "ucast b AND push_bit 8 (le_word bs) = 0"
    by (rule bit_word_eqI)
      (auto simp: bit_and_iff bit_push_bit_iff bit_ucast_iff dest: bit_imp_le_length)
  then have "le_word (b # bs) = ucast b + push_bit 8 (le_word bs)"
    unfolding le_word.simps by (rule disjunctive_add_eq_xor [symmetric])
  also have "\<dots> = ucast b + 256 * word_of_int (get_le bs)"
    unfolding Cons.IH push_bit_eq_mult by simp
  finally show ?case by (simp only: get_le.simps ucast_eq wi_hom_add [symmetric] wi_hom_mult [symmetric] word_of_int_numeral)
qed simp

lemma bit_ucast8: "bit (ucast (b :: byte) :: u64) i \<Longrightarrow> i < 8"
  by (auto simp: bit_ucast_iff dest: bit_imp_le_length)

lemma le_word_small: "bit (le_word bs) i \<Longrightarrow> i < 8 * length bs"
proof (induction bs arbitrary: i)
  case (Cons b bs)
  then consider "bit (ucast b :: u64) i" | "8 \<le> i" "bit (le_word bs) (i - 8)"
    by (auto simp: bit_xor_iff bit_push_bit_iff)
  then show ?case using bit_ucast8 [of b i] Cons.IH [of "i - 8"] by cases auto
qed simp

lemma crc_steps_eq:
  "length bs \<le> 8 \<Longrightarrow> foldl crc_step crc bs = lbits (8 * length bs) (crc XOR le_word bs)"
proof (induction bs arbitrary: crc)
  case (Cons b bs)
  have "take_bit (64 - 8) (le_word bs) = le_word bs"
    using le_word_small [of bs] Cons.prems
    by (intro bit_word_eqI) (fastforce simp: bit_take_bit_iff)
  then have "lbits 8 (push_bit 8 (le_word bs)) = le_word bs" by (rule lbits_push_small) simp
  then have "crc_step crc b XOR le_word bs = lbits 8 (crc XOR le_word (b # bs))"
    by (simp add: crc_step_def lbits_xor xor.assoc)
  then show ?case using Cons by (simp add: lbits_lbits add.commute del: le_word.simps)
qed simp


lemma lbits_slice: "lbits (8 * Suc k) c = lbits (8 * Suc k) (take_bit 8 c) XOR lbits (8 * k) (drop_bit 8 c)"
proof -
  have "lbits (8 * k) (lbits 8 c) = lbits (8 * k) (lbits 8 (take_bit 8 c) XOR drop_bit 8 c)"
    by (simp only: lbits8 [of c])
  then show ?thesis by (simp add: lbits_xor lbits_lbits add.commute)
qed

lemma crc_tab_byte:
  "k < 8 \<Longrightarrow> crc_tab ! k ! unat (c AND 0xff) = lbits (8 * Suc k) (take_bit 8 c)"
  unfolding and_ff by (simp add: crc_tab_nth unat_take8)

lemma crc_word_step_eq:
  "crc_word_step crc_tab crc buf = lbits 64 (crc XOR le_word (take 8 buf))"
proof -
  define c where "c = crc XOR le_word (take 8 buf)"
  have top: "drop_bit 56 c = drop_bit 56 c AND 0xff" unfolding and_ff
    by (rule bit_word_eqI) (auto simp: bit_take_bit_iff bit_drop_bit_eq dest: bit_imp_le_length)
  have "drop_bit 64 c = 0"
    by (rule bit_word_eqI) (auto simp: bit_drop_bit_eq dest: bit_imp_le_length)
  then have "lbits 64 c = lbits (8 * Suc 7) (take_bit 8 c) XOR (lbits (8 * Suc 6) (take_bit 8 (drop_bit 8 c)) XOR
      (lbits (8 * Suc 5) (take_bit 8 (drop_bit 16 c)) XOR (lbits (8 * Suc 4) (take_bit 8 (drop_bit 24 c)) XOR
      (lbits (8 * Suc 3) (take_bit 8 (drop_bit 32 c)) XOR (lbits (8 * Suc 2) (take_bit 8 (drop_bit 40 c)) XOR
      (lbits (8 * Suc 1) (take_bit 8 (drop_bit 48 c)) XOR lbits (8 * Suc 0) (take_bit 8 (drop_bit 56 c))))))))"
    using lbits_slice [of 7 c] lbits_slice [of 6 "drop_bit 8 c"] lbits_slice [of 5 "drop_bit 16 c"]
      lbits_slice [of 4 "drop_bit 24 c"] lbits_slice [of 3 "drop_bit 32 c"]
      lbits_slice [of 2 "drop_bit 40 c"] lbits_slice [of 1 "drop_bit 48 c"]
      lbits_slice [of 0 "drop_bit 56 c"]
    by (simp add: drop_bit_drop_bit)
  then show ?thesis
    unfolding crc_word_step_def Let_def le_word_get_le [symmetric] c_def [symmetric]
    by (subst top) (simp only: crc_tab_byte numeral_less_iff rel_simps xor.assoc)
qed

lemma crc_word_step_foldl:
  "length buf \<ge> 8 \<Longrightarrow> crc_word_step crc_tab crc buf = foldl crc_step crc (take 8 buf)"
  by (simp add: crc_word_step_eq crc_steps_eq)

subsection \<open>The three loops\<close>

lemma crc_align_eq:
  "crc_align crc_tab crc addr buf = (crc', buf') \<Longrightarrow> foldl crc_step crc buf = foldl crc_step crc' buf'"
  by (induction crc_tab crc addr buf rule: crc_align.induct)
    (auto simp: crc_byte_step_eq split: if_splits)

lemma crc_words_eq:
  "crc_words crc_tab crc buf = (crc', buf') \<Longrightarrow> foldl crc_step crc buf = foldl crc_step crc' buf'"
proof (induction crc_tab crc buf rule: crc_words.induct)
  case (1 crc buf)
  show ?case
  proof (cases "length buf \<ge> 8")
    case True
    have "foldl crc_step crc buf = foldl crc_step (foldl crc_step crc (take 8 buf)) (drop 8 buf)"
      by (metis append_take_drop_id foldl_append)
    then show ?thesis using 1 True by (simp add: crc_words.simps [of _ _ buf] crc_word_step_foldl)
  qed (use 1 in \<open>simp add: crc_words.simps [of _ _ buf]\<close>)
qed

lemma crcspeed64little_eq: "crcspeed64little crc_tab crc addr buf = foldl crc_step crc buf"
proof -
  obtain c1 b1 where 1: "crc_align crc_tab crc addr buf = (c1, b1)" by fastforce
  obtain c2 b2 where 2: "crc_words crc_tab c1 b1 = (c2, b2)" by fastforce
  have "crc_byte_step crc_tab = crc_step" by (intro ext) (rule crc_byte_step_eq)
  then show ?thesis
    using crc_align_eq [OF 1] crc_words_eq [OF 2] by (simp add: crcspeed64little_def 1 2)
qed

subsection \<open>The properties\<close>

text \<open>C33. The case-insensitive hash of a string is the hash of the string in lower case.\<close>

theorem siphash_nocase_lower: "siphash_nocase inp k = siphash (map tolower inp) k"
  by (rule siphash_nocase_eq)

text \<open>
  C34. The slot of a key is a number below 16384. When the key holds a non-empty hash tag between its
  first opening brace and the first closing brace after it, the slot depends on the tag alone.
\<close>

theorem keyHashSlot_tag:
  assumes "0x7b \<notin> set a" "0x7d \<notin> set tag" "tag \<noteq> []"
  shows "keyHashSlot (a @ [0x7b] @ tag @ [0x7d] @ b) = crc16 tag AND 0x3FFF
    \<and> unat (keyHashSlot key) < 16384"
  using assms and_3fff by (simp add: keyHashSlot_def Let_def scan_char_absent)

theorem keyHashSlot_tag_witness:
  "keyHashSlot ([0x61] @ [0x7b] @ [0x62] @ [0x7d] @ [0x63]) = crc16 [0x62] AND 0x3FFF
    \<and> unat (keyHashSlot []) < 16384"
  using keyHashSlot_tag [of "[0x61]" "[0x62]" "[0x63]" "[]"] by simp

text \<open>
  C32. For every initial value, every buffer and every alignment of the buffer in memory, the
  slice-by-eight CRC64 with its tables is the bit-by-bit CRC64 started from the reflected value.
\<close>

theorem crc64_bitwise_equiv: "crc64 crc addr s = crc64_bitwise (crc_reflect crc 64) s"
  unfolding crc64_def crc_tab_def [symmetric] crcspeed64little_eq crc64_bitwise_eq crc_reflect_eq
  by (simp add: word_rev_rev)

text \<open>
  C35. The conversions between the byte orders reverse the bytes of a number, at each of the three widths,
  and so undo themselves.
\<close>

theorem intrev_reverses_bytes:
  "put_le 2 (uint (intrev16 a)) = rev (put_le 2 (uint a)) \<and> intrev16 (intrev16 a) = a \<and>
   put_le 4 (uint (intrev32 b)) = rev (put_le 4 (uint b)) \<and> intrev32 (intrev32 b) = b \<and>
   put_le 8 (uint (intrev64 c)) = rev (put_le 8 (uint c)) \<and> intrev64 (intrev64 c) = c"
  by (simp only: intrev_involutive intrev_bytes simp_thms)

end
