(* ===== verification/Util.thy ===== *)
theory Util
  imports Prelude
begin

section \<open>Number and string helpers (\<open>util.c\<close>)\<close>

text \<open>
  Models \<open>redis/redis-6.2.7/src/util.c\<close>: decimal conversion in both directions
  (\<open>digits10\<close>, \<open>sdigits10\<close>, \<open>ll2string\<close>, \<open>string2ll\<close>, \<open>string2l\<close>), the byte-set helpers
  \<open>mempbrk\<close> and \<open>memmapchars\<close>, and the glob matcher \<open>stringmatchlen\<close>. The reference
  definitions are \<open>decimal\<close> (the canonical decimal form) and \<open>glob_match\<close> over parsed
  pattern tokens; the lemmas show that the optimised C routines compute them.
\<close>

subsection \<open>Decimal conversion\<close>

fun digits10 :: "nat \<Rightarrow> nat" where
  "digits10 v =
    (if v < 10 then 1
     else if v < 100 then 2
     else if v < 1000 then 3
     else if v < 1000000000000 then
       (if v < 100000000 then
          (if v < 1000000 then
             (if v < 10000 then 4 else 5 + (if v \<ge> 100000 then 1 else 0))
           else 7 + (if v \<ge> 10000000 then 1 else 0))
        else if v < 10000000000 then 9 + (if v \<ge> 1000000000 then 1 else 0)
        else 11 + (if v \<ge> 100000000000 then 1 else 0))
     else 12 + digits10 (v div 1000000000000))"

declare digits10.simps [simp del]

definition llong_min :: int where "llong_min = - (2 ^ 63)"
definition llong_max :: int where "llong_max = 2 ^ 63 - 1"

text \<open>The absolute value as \<open>unsigned long long\<close>, with the special case of \<open>LLONG_MIN\<close>.\<close>

definition llabs :: "int \<Rightarrow> nat" where
  "llabs v = (if v \<noteq> llong_min then nat (- v) else nat llong_max + 1)"

definition sdigits10 :: "int \<Rightarrow> nat" where
  "sdigits10 v = (if v < 0 then digits10 (llabs v) + 1 else digits10 (nat v))"

text \<open>
  \<open>ll2string(dst, dstlen, svalue)\<close>. The table \<open>digits\<close> holds the two-digit forms of 0 to 99;
  entry \<open>2 * k\<close> and its successor are the tens and the units of \<open>k\<close>. The result is the buffer
  and the returned length; a store outside of \<open>dst\<close> is \<^const>\<open>None\<close>.
\<close>

definition digits_tab :: bytes where
  "digits_tab = asc (
    ''0001020304050607080910111213141516171819'' @
    ''2021222324252627282930313233343536373839'' @
    ''4041424344454647484950515253545556575859'' @
    ''6061626364656667686970717273747576777879'' @
    ''8081828384858687888990919293949596979899'')"

function ll2string_loop :: "bytes \<Rightarrow> int \<Rightarrow> nat \<Rightarrow> (bytes \<times> int \<times> nat) option" where
  "ll2string_loop dst next value =
    (if value \<ge> 100 then do {
       let i = (value mod 100) * 2;
       let value = value div 100;
       dst \<leftarrow> put_at dst next (digits_tab ! (i + 1));
       dst \<leftarrow> put_at dst (next - 1) (digits_tab ! i);
       ll2string_loop dst (next - 2) value
     } else Some (dst, next, value))"
  by pat_completeness auto
termination
  by (relation "measure (\<lambda>(dst, next, value). value)") auto

declare ll2string_loop.simps [simp del]

definition ll2string_digits :: "bytes \<Rightarrow> int \<Rightarrow> nat \<Rightarrow> bytes option" where
  "ll2string_digits dst next value = do {
     (dst, next, value) \<leftarrow> ll2string_loop dst next value;
     if value < 10 then put_at dst next (48 + of_nat value)
     else do {
       let i = value * 2;
       dst \<leftarrow> put_at dst next (digits_tab ! (i + 1));
       put_at dst (next - 1) (digits_tab ! i)
     } }"

definition ll2string :: "bytes \<Rightarrow> nat \<Rightarrow> int \<Rightarrow> (bytes \<times> nat) option" where
  "ll2string dst dstlen svalue =
    (let (value, negative) = (if svalue < 0 then (llabs svalue, 1) else (nat svalue, 0));
         len = digits10 value + negative
     in if len \<ge> dstlen then Some (dst, 0)
     else do {
       dst \<leftarrow> put_at dst (int len) 0;
       dst \<leftarrow> ll2string_digits dst (int len - 1) value;
       dst \<leftarrow> (if negative = 1 then put_at dst 0 45 else Some dst);
       Some (dst, len)
     })"

text \<open>
  \<open>string2ll(s, slen, value)\<close>: \<open>Some v\<close> where the C function returns 1 with \<open>*value = v\<close>.
  The digit loop works on \<open>unsigned long long\<close> and checks for overflow before each multiplication
  and each addition.
\<close>

fun string2ll_loop :: "u64 \<Rightarrow> bytes \<Rightarrow> (u64 \<times> bytes) option" where
  "string2ll_loop v [] = Some (v, [])"
| "string2ll_loop v (c # p) =
    (if 48 \<le> c \<and> c \<le> 57 then
       (if v > 0xFFFFFFFFFFFFFFFF div 10 then None
        else let v = v * 10 in
          if v > 0xFFFFFFFFFFFFFFFF - (ucast c - 48) then None
          else string2ll_loop (v + (ucast c - 48)) p)
     else Some (v, c # p))"

definition string2ll :: "bytes \<Rightarrow> int option" where
  "string2ll s =
    (if s = [] then None
     else if s = [48] then Some 0
     else let negative = (hd s = 45); p = (if negative then tl s else s)
     in case p of [] \<Rightarrow> None
     | c # p \<Rightarrow>
       if 49 \<le> c \<and> c \<le> 57 then
         (case string2ll_loop (ucast c - 48) p of None \<Rightarrow> None
          | Some (v, p) \<Rightarrow>
            if p \<noteq> [] then None
            else if negative then (if v > 0x8000000000000000 then None else Some (sint (- v)))
            else if v > 0x7FFFFFFFFFFFFFFF then None else Some (sint v))
       else None)"

text \<open>\<open>string2l\<close>, on a platform where \<open>long\<close> has 64 bits.\<close>

definition string2l :: "bytes \<Rightarrow> int option" where
  "string2l s = (case string2ll s of None \<Rightarrow> None
    | Some llval \<Rightarrow> if llval < llong_min \<or> llval > llong_max then None else Some llval)"

text \<open>The canonical decimal form, the reference for both directions.\<close>

fun decimal_nat :: "nat \<Rightarrow> bytes" where
  "decimal_nat n = (if n < 10 then [48 + of_nat n] else decimal_nat (n div 10) @ [48 + of_nat (n mod 10)])"

declare decimal_nat.simps [simp del]

definition decimal :: "int \<Rightarrow> bytes" where
  "decimal v = (if v < 0 then 45 # decimal_nat (nat (- v)) else decimal_nat (nat v))"

subsection \<open>Byte-set helpers\<close>

text \<open>\<open>mempbrk\<close> returns the offset of the first byte of \<open>s\<close> that is in \<open>chars\<close>.\<close>

fun mempbrk_from :: "nat \<Rightarrow> bytes \<Rightarrow> bytes \<Rightarrow> nat option" where
  "mempbrk_from j [] chars = None"
| "mempbrk_from j (c # s) chars = (if List.member chars c then Some j else mempbrk_from (Suc j) s chars)"

definition mempbrk :: "bytes \<Rightarrow> bytes \<Rightarrow> nat option" where
  "mempbrk s chars = mempbrk_from 0 s chars"

fun memmapchar :: "byte \<Rightarrow> bytes \<Rightarrow> bytes \<Rightarrow> byte" where
  "memmapchar c (f # from) (t # to) = (if c = f then t else memmapchar c from to)"
| "memmapchar c _ _ = c"

definition memmapchars :: "bytes \<Rightarrow> bytes \<Rightarrow> bytes \<Rightarrow> bytes" where
  "memmapchars s from to = map (\<lambda>c. memmapchar c from to) s"

subsection \<open>Correctness of the decimal conversions\<close>

definition is_digit :: "byte \<Rightarrow> bool" where
  "is_digit c \<longleftrightarrow> 48 \<le> c \<and> c \<le> 57"

definition digval :: "byte \<Rightarrow> nat" where
  "digval c = unat c - 48"

definition digits_val :: "nat \<Rightarrow> bytes \<Rightarrow> nat" where
  "digits_val a s = foldl (\<lambda>a c. 10 * a + digval c) a s"

lemma digits_val_simps [simp]:
  "digits_val a [] = a"
  "digits_val a (c # s) = digits_val (10 * a + digval c) s"
  "digits_val a (s @ [c]) = 10 * digits_val a s + digval c"
  by (simp_all add: digits_val_def)

lemma digits_val_ge: "a \<le> digits_val a s"
proof (induction s arbitrary: a)
  case (Cons c s)
  have "a \<le> 10 * a + digval c" by simp
  also have "\<dots> \<le> digits_val (10 * a + digval c) s" by (rule Cons)
  finally show ?case by simp
qed simp

lemma unat_digit: "n < 10 \<Longrightarrow> unat (48 + of_nat n :: byte) = 48 + n"
  by (simp add: unat_word_ariths unat_of_nat)

lemma digit_of_nat: "n < 10 \<Longrightarrow> is_digit (48 + of_nat n) \<and> digval (48 + of_nat n) = n"
  by (simp add: is_digit_def digval_def word_le_nat_alt unat_digit)

lemma of_digval: "is_digit c \<Longrightarrow> 48 + of_nat (digval c) = c"
  by (auto simp: is_digit_def digval_def word_le_nat_alt word_unat_eq_iff unat_word_ariths unat_of_nat)

lemma digval_less: "is_digit c \<Longrightarrow> digval c < 10"
  by (auto simp: is_digit_def digval_def word_le_nat_alt)

lemma decimal_nat_ne [simp]: "decimal_nat n \<noteq> []"
  by (subst decimal_nat.simps) simp

lemma decimal_nat_digits: "list_all is_digit (decimal_nat n)"
proof (induction n rule: decimal_nat.induct)
  case (1 n)
  then show ?case
    by (subst decimal_nat.simps) (simp add: digit_of_nat)
qed

lemma digits_val_decimal_nat: "digits_val 0 (decimal_nat n) = n"
proof (induction n rule: decimal_nat.induct)
  case (1 n)
  then show ?case
    by (subst decimal_nat.simps) (simp add: digit_of_nat)
qed

lemma hd_decimal_nat: "0 < n \<Longrightarrow> hd (decimal_nat n) \<noteq> 48"
proof (induction n rule: decimal_nat.induct)
  case (1 n)
  show ?case
  proof (cases "n < 10")
    case True
    then have "unat (48 + of_nat n :: byte) \<noteq> unat (48 :: byte)"
      using 1 by (simp add: unat_digit)
    with True show ?thesis
      by (subst decimal_nat.simps) auto
  next
    case False
    with 1 show ?thesis
      by (subst decimal_nat.simps) simp
  qed
qed

lemma digits_val_pos: "s \<noteq> [] \<Longrightarrow> is_digit (hd s) \<Longrightarrow> hd s \<noteq> 48 \<Longrightarrow> 0 < digits_val 0 s"
proof (cases s)
  case (Cons c s')
  assume "is_digit (hd s)" "hd s \<noteq> 48"
  with Cons have "0 < digval c"
    using of_digval [of c] by (cases "digval c") auto
  with Cons digits_val_ge [of "digval c" s'] show ?thesis by simp
qed simp

lemma decimal_nat_of_digits:
  "s \<noteq> [] \<Longrightarrow> list_all is_digit s \<Longrightarrow> hd s \<noteq> 48 \<Longrightarrow> decimal_nat (digits_val 0 s) = s"
proof (induction s rule: rev_induct)
  case (snoc c s)
  have c: "digval c < 10" "48 + of_nat (digval c) = c"
    using snoc.prems by (simp_all add: digval_less of_digval)
  show ?case
  proof (cases "s = []")
    case True
    with c show ?thesis by (subst decimal_nat.simps) simp
  next
    case False
    with snoc.prems have "0 < digits_val 0 s"
      by (intro digits_val_pos) (auto simp: list_all_iff)
    moreover have "decimal_nat (digits_val 0 s) = s"
      using snoc False by simp
    ultimately show ?thesis
      using c by (subst decimal_nat.simps) simp
  qed
qed simp

lemma decimal_nat_eq_iff:
  "0 < n \<Longrightarrow> s = decimal_nat n \<longleftrightarrow>
    s \<noteq> [] \<and> list_all is_digit s \<and> hd s \<noteq> 48 \<and> digits_val 0 s = n"
  using decimal_nat_of_digits [of s]
  by (auto simp: decimal_nat_digits hd_decimal_nat digits_val_decimal_nat)

subsubsection \<open>Lengths\<close>

lemma length_decimal_nat_div:
  "10 ^ k \<le> n \<Longrightarrow> length (decimal_nat n) = k + length (decimal_nat (n div 10 ^ k))"
proof (induction k arbitrary: n)
  case (Suc k)
  then have "10 \<le> n" "10 ^ k \<le> n div 10"
    by (simp_all add: less_eq_div_iff_mult_less_eq order_trans [OF _ Suc.prems] mult.commute)
  then show ?case
    using Suc.IH [of "n div 10"] by (subst decimal_nat.simps) (simp add: div_mult2_eq)
qed simp

lemma length_decimal_nat_range:
  assumes "10 ^ k \<le> n" and "n < 10 ^ Suc k"
  shows "length (decimal_nat n) = Suc k"
proof -
  have "n div 10 ^ k < 10"
    using assms(2) by (simp add: less_mult_imp_div_less mult.commute)
  then have "length (decimal_nat (n div 10 ^ k)) = 1"
    by (subst decimal_nat.simps) simp
  with length_decimal_nat_div [OF assms(1)] show ?thesis by simp
qed

lemma length_decimal_nat_le: "n < 10 ^ Suc k \<Longrightarrow> length (decimal_nat n) \<le> Suc k"
proof (induction n arbitrary: k rule: decimal_nat.induct)
  case (1 n)
  show ?case
  proof (cases "n < 10")
    case False
    then obtain k' where k: "k = Suc k'" using 1(2) by (cases k) auto
    then have "n div 10 < 10 ^ Suc k'" using 1(2) by (simp add: div_less_iff_less_mult)
    then show ?thesis using 1(1) [OF False, of k'] False k by (subst decimal_nat.simps) simp
  qed (simp add: decimal_nat.simps)
qed

lemma length_decimal_int64:
  assumes "int64_range v"
  shows "length (decimal v) \<le> 20"
proof -
  have "nat (- v) < 10 ^ Suc 18" "nat v < 10 ^ Suc 18"
    using assms by (auto simp: int64_range_def)
  then show ?thesis
    using length_decimal_nat_le [of "nat (- v)" 18] length_decimal_nat_le [of "nat v" 18] by (simp add: decimal_def)
qed

lemma length_decimal_nat_small: "n < 10 \<Longrightarrow> length (decimal_nat n) = 1"
  by (subst decimal_nat.simps) simp

lemma digits10_length: "digits10 v = length (decimal_nat v)"
proof (induction v rule: digits10.induct)
  case (1 v)
  have small: "digits10 v = length (decimal_nat v)" if "v < 1000000000000"
  proof -
    note range = length_decimal_nat_range [of _ v]
    have r: "10 \<le> v \<Longrightarrow> v < 100 \<Longrightarrow> length (decimal_nat v) = 2"
      "100 \<le> v \<Longrightarrow> v < 1000 \<Longrightarrow> length (decimal_nat v) = 3"
      "1000 \<le> v \<Longrightarrow> v < 10000 \<Longrightarrow> length (decimal_nat v) = 4"
      "10000 \<le> v \<Longrightarrow> v < 100000 \<Longrightarrow> length (decimal_nat v) = 5"
      "100000 \<le> v \<Longrightarrow> v < 1000000 \<Longrightarrow> length (decimal_nat v) = 6"
      "1000000 \<le> v \<Longrightarrow> v < 10000000 \<Longrightarrow> length (decimal_nat v) = 7"
      "10000000 \<le> v \<Longrightarrow> v < 100000000 \<Longrightarrow> length (decimal_nat v) = 8"
      "100000000 \<le> v \<Longrightarrow> v < 1000000000 \<Longrightarrow> length (decimal_nat v) = 9"
      "1000000000 \<le> v \<Longrightarrow> v < 10000000000 \<Longrightarrow> length (decimal_nat v) = 10"
      "10000000000 \<le> v \<Longrightarrow> v < 100000000000 \<Longrightarrow> length (decimal_nat v) = 11"
      "100000000000 \<le> v \<Longrightarrow> v < 1000000000000 \<Longrightarrow> length (decimal_nat v) = 12"
      using range [of 1] range [of 2] range [of 3] range [of 4] range [of 5] range [of 6]
        range [of 7] range [of 8] range [of 9] range [of 10] range [of 11] by simp_all
    show ?thesis
      by (subst digits10.simps) (simp add: that r length_decimal_nat_small not_less)
  qed
  show ?case
  proof (cases "v < 1000000000000")
    case False
    then show ?thesis
      using 1 length_decimal_nat_div [of 12 v] by (subst digits10.simps) simp
  qed (rule small)
qed

lemma llabs_eq: "int64_range v \<Longrightarrow> v < 0 \<Longrightarrow> llabs v = nat (- v)"
  by (auto simp: llabs_def llong_min_def llong_max_def int64_range_def)

lemma sdigits10_length: "int64_range v \<Longrightarrow> sdigits10 v = length (decimal v)"
  by (simp add: sdigits10_def decimal_def digits10_length llabs_eq)

subsubsection \<open>\<open>ll2string\<close> writes the decimal form\<close>

lemma digits_tab_pairs:
  "digits_tab = concat (map (\<lambda>k. [48 + of_nat (k div 10), 48 + of_nat (k mod 10)]) [0..<100])"
  by (simp add: digits_tab_def asc_def upt_conv_Cons)

lemma nth_concat_pairs:
  "k < n \<Longrightarrow> concat (map (\<lambda>k. [f k, g k]) [0..<n]) ! (2 * k) = f k \<and>
    concat (map (\<lambda>k. [f k, g k]) [0..<n]) ! Suc (2 * k) = g k"
proof (induction n)
  case (Suc n)
  have "length (concat (map (\<lambda>k. [f k, g k]) [0..<n])) = 2 * n"
    by (induction n) auto
  with Suc show ?case
    by (cases "k = n") (auto simp: nth_append)
qed simp

lemma digits_tab_nth:
  assumes "k < 100"
  shows "digits_tab ! (2 * k) = 48 + of_nat (k div 10)"
    and "digits_tab ! Suc (2 * k) = 48 + of_nat (k mod 10)"
  unfolding digits_tab_pairs
  using nth_concat_pairs [OF assms, of "\<lambda>k. 48 + of_nat (k div 10)" "\<lambda>k. 48 + of_nat (k mod 10)"]
  by blast+


lemma decimal_nat_two:
  "100 \<le> n \<Longrightarrow> decimal_nat n = decimal_nat (n div 100) @
    [48 + of_nat (n mod 100 div 10), 48 + of_nat (n mod 100 mod 10)]"
proof -
  assume "100 \<le> n"
  then have "\<not> n < 10" "\<not> n div 10 < 10" by auto
  moreover have "n div 10 div 10 = n div 100" by (simp add: div_mult2_eq [symmetric])
  moreover have "n div 10 mod 10 = n mod 100 div 10" "n mod 10 = n mod 100 mod 10"
    using mod_mult2_eq [of n 10 10] by simp_all
  ultimately show ?thesis
    by (subst decimal_nat.simps, subst decimal_nat.simps) simp
qed

lemma decimal_nat_last:
  assumes "n < 100" shows "decimal_nat n = (if n < 10 then [48 + of_nat n]
    else [48 + of_nat (n div 10), 48 + of_nat (n mod 10)])"
proof -
  have "n div 10 < 10" using assms by simp
  then have "decimal_nat (n div 10) = [48 + of_nat (n div 10)]"
    by (simp add: decimal_nat.simps [of "n div 10"])
  then show ?thesis by (simp add: decimal_nat.simps [of n])
qed

lemma list_update_split:
  "i < length xs \<Longrightarrow> xs[i := x] = take i xs @ [x] @ drop (Suc i) xs"
  by (simp add: upd_conv_take_nth_drop)

lemma two_updates:
  assumes "Suc i < length xs"
  shows "xs[Suc i := y, i := x] = take i xs @ [x, y] @ drop (Suc (Suc i)) xs"
  using assms by (simp add: list_update_split take_Suc_conv_app_nth min_def)

lemma ll2string_digits_correct:
  assumes "length (decimal_nat u) \<le> Suc k" and "k < length dst"
  shows "ll2string_digits dst (int k) u =
    Some (take (Suc k - length (decimal_nat u)) dst @ decimal_nat u @ drop (Suc k) dst)"
  using assms
proof (induction u arbitrary: k dst rule: less_induct)
  case (less u)
  show ?case
  proof (cases "100 \<le> u")
    case True
    let ?u = "u mod 100" and ?v = "u div 100"
    have dec: "decimal_nat u = decimal_nat ?v @
        [48 + of_nat (?u div 10), 48 + of_nat (?u mod 10)]"
      by (rule decimal_nat_two [OF True])
    have "0 < length (decimal_nat ?v)" by simp
    moreover have k: "length (decimal_nat ?v) + 2 \<le> Suc k"
      using less.prems(1) dec by simp
    ultimately obtain m where m: "k = Suc (Suc m)"
      by (cases k; cases "k - 1") auto
    let ?d = "take (Suc m) dst @ [48 + of_nat (?u div 10), 48 + of_nat (?u mod 10)]
        @ drop (Suc k) dst"
    have upd: "dst[k := 48 + of_nat (?u mod 10), Suc m := 48 + of_nat (?u div 10)] = ?d"
      using two_updates [of "Suc m" dst] m less.prems by simp
    have "ll2string_digits dst (int k) u = ll2string_digits ?d (int m) ?v"
      using True m less.prems(2) upd
      by (subst ll2string_digits_def, subst ll2string_loop.simps)
        (simp add: ll2string_digits_def put_at_def digits_tab_nth mult.commute nat_add_distrib)
    also have "\<dots> = Some (take (Suc m - length (decimal_nat ?v)) ?d @ decimal_nat ?v @ drop (Suc m) ?d)"
      using True k m less.prems(2) by (intro less.IH) auto
    also have "\<dots> = Some (take (Suc k - length (decimal_nat u)) dst @ decimal_nat u @ drop (Suc k) dst)"
      using k m less.prems(2) by (simp add: dec min_def)
    finally show ?thesis .
  next
    case False
    then have loop: "ll2string_loop dst (int k) u = Some (dst, int k, u)"
      by (subst ll2string_loop.simps) simp
    show ?thesis
    proof (cases "u < 10")
      case True
      with less.prems(2) show ?thesis
        by (simp add: ll2string_digits_def loop put_at_def decimal_nat_last list_update_split)
    next
      case False
      with less.prems \<open>\<not> 100 \<le> u\<close> obtain m where m: "k = Suc m"
        by (cases k) (auto simp: decimal_nat_last)
      then show ?thesis
        using False \<open>\<not> 100 \<le> u\<close> less.prems(2) two_updates [of m dst]
          digits_tab_nth [of u] loop
        by (simp add: ll2string_digits_def put_at_def decimal_nat_last nat_add_distrib mult.commute)
    qed
  qed
qed


lemma digits10_le: "int64_range v \<Longrightarrow> v < 0 \<Longrightarrow> digits10 (llabs v) = length (decimal_nat (nat (- v)))"
  by (simp add: digits10_length llabs_eq)

lemma ll2string_correct:
  assumes "int64_range v" and "dstlen \<le> length dst"
  shows "ll2string dst dstlen v =
    (if length (decimal v) < dstlen
     then Some (decimal v @ [0] @ drop (Suc (length (decimal v))) dst, length (decimal v))
     else Some (dst, 0))"
proof (cases "length (decimal v) < dstlen")
  case False
  then show ?thesis
    using assms(1)
    by (auto simp: ll2string_def Let_def digits10_length llabs_eq decimal_def split: if_splits)
next
  case True
  define u where "u = nat \<bar>v\<bar>"
  define dec where "dec = decimal_nat u"
  have dec_ne: "0 < length dec" by (simp add: dec_def)
  show ?thesis
  proof (cases "v < 0")
    case neg: True
    then have d: "decimal v = 45 # dec"
      by (simp add: decimal_def dec_def u_def)
    have len: "digits10 (llabs v) = length dec"
      using neg assms(1) by (simp add: digits10_le dec_def u_def)
    have la: "llabs v = u"
      using neg assms(1) by (simp add: llabs_eq u_def)
    have k: "Suc (length dec) < length dst"
      using True assms(2) d by simp
    let ?d = "dst[Suc (length dec) := 0]"
    have "ll2string_digits ?d (int (length dec)) u =
        Some (take 1 ?d @ dec @ drop (Suc (length dec)) ?d)"
      using k ll2string_digits_correct [of u "length dec" ?d] by (simp add: dec_def)
    moreover have "take 1 ?d @ dec @ drop (Suc (length dec)) ?d =
        hd dst # dec @ 0 # drop (Suc (Suc (length dec))) dst"
      using k by (cases dst) (auto simp: Cons_nth_drop_Suc [symmetric] drop_update_swap)
    ultimately show ?thesis
      using neg True k d len la
      by (simp add: ll2string_def Let_def put_at_def nat_add_distrib)
  next
    case pos: False
    then have d: "decimal v = dec" and u: "nat v = u"
      by (simp_all add: decimal_def dec_def u_def)
    have k: "length dec < length dst"
      using True assms(2) d by simp
    let ?d = "dst[length dec := 0]"
    have "ll2string_digits ?d (int (length dec - 1)) u =
        Some (take 0 ?d @ dec @ drop (length dec) ?d)"
      using k dec_ne ll2string_digits_correct [of u "length dec - 1" ?d] by (simp add: dec_def)
    moreover have "drop (length dec) ?d = 0 # drop (Suc (length dec)) dst"
      using k by (simp add: Cons_nth_drop_Suc [symmetric])
    ultimately show ?thesis
      using pos True k d u dec_ne
      by (simp add: ll2string_def Let_def put_at_def digits10_length dec_def of_nat_diff Suc_le_eq)
  qed
qed


subsubsection \<open>\<open>string2ll\<close> accepts exactly the canonical decimal forms\<close>

lemma unat_digit_u64: "is_digit c \<Longrightarrow> unat (ucast c - 48 :: u64) = digval c"
  by (subst unat_sub) (auto simp: is_digit_def digval_def word_le_nat_alt)

lemma top_less: "0 < N \<Longrightarrow> N - 1 - d < a \<longleftrightarrow> (if d < N then N \<le> a + d else 0 < a)" for N d a :: nat
  by auto

lemma guard_cong:
  "(B \<Longrightarrow> \<not> L) \<Longrightarrow> (\<not> B \<Longrightarrow> A \<longleftrightarrow> \<not> L) \<Longrightarrow>
    (if B then None else if A then None else X) = (if L then X else None)"
  by auto

lemma string2ll_loop_step:
  assumes "is_digit c"
  shows "string2ll_loop v (c # p) =
    (if 10 * unat v + digval c < 2 ^ 64 then string2ll_loop (of_nat (10 * unat v + digval c)) p else None)"
proof -
  have d: "unat (ucast c - 48 :: u64) = digval c" "digval c < 10"
    using assms by (simp_all add: unat_digit_u64 digval_less)
  let ?d = "ucast c - 48 :: u64" and ?m = "0xFFFFFFFFFFFFFFFF :: u64"
  have big: "?m div 10 < v \<longleftrightarrow> 2 ^ 64 \<le> 10 * unat v"
    by (simp add: word_less_nat_alt) linarith
  have mul: "unat (v * 10) = 10 * unat v" if "10 * unat v < 2 ^ 64"
    using that by (simp add: unat_word_ariths mult.commute)
  have max: "unat (?m - ?d) = 2 ^ 64 - 1 - digval c"
    using d by (subst unat_sub) (simp_all add: word_le_nat_alt)
  have add: "?m - ?d < v * 10 \<longleftrightarrow> 2 ^ 64 \<le> 10 * unat v + digval c" if "10 * unat v < 2 ^ 64"
    using top_less [of "2 ^ 64" "digval c" "10 * unat v"] d(2)
    by (simp only: word_less_nat_alt max mul [OF that]) simp
  have val: "v * 10 + ?d = (of_nat (10 * unat v + digval c) :: u64)"
    using d(1) [symmetric] by (simp add: mult.commute)
  have step: "string2ll_loop v (c # p) =
    (if ?m div 10 < v then None else if ?m - ?d < v * 10 then None
     else string2ll_loop (v * 10 + ?d) p)"
    using assms by (simp only: string2ll_loop.simps is_digit_def Let_def if_True simp_thms)
  show ?thesis
    unfolding step val
  proof (rule guard_cong)
    show "\<not> 10 * unat v + digval c < 2 ^ 64" if "?m div 10 < v"
      using that big by simp
    show "?m - ?d < v * 10 \<longleftrightarrow> \<not> 10 * unat v + digval c < 2 ^ 64" if "\<not> ?m div 10 < v"
      using that big add by (simp only: not_le not_less)
  qed
qed

lemma string2ll_loop_eq:
  "string2ll_loop v p = Some (v', []) \<longleftrightarrow>
    list_all is_digit p \<and> digits_val (unat v) p < 2 ^ 64 \<and> unat v' = digits_val (unat v) p"
proof (induction p arbitrary: v)
  case Nil
  then show ?case using unsigned_less [of v] by (auto simp: word_unat_eq_iff)
next
  case (Cons c p)
  show ?case
  proof (cases "is_digit c")
    case True
    let ?n = "10 * unat v + digval c"
    have "string2ll_loop v (c # p) = Some (v', []) \<longleftrightarrow>
        ?n < 2 ^ 64 \<and> string2ll_loop (of_nat ?n) p = Some (v', [])"
      by (simp only: string2ll_loop_step [OF True] split: if_split) simp
    also have "\<dots> \<longleftrightarrow> ?n < 2 ^ 64 \<and> list_all is_digit p \<and> digits_val ?n p < 2 ^ 64 \<and>
        unat v' = digits_val ?n p"
      by (rule conj_cong [OF refl]) (simp only: Cons.IH unat_of_nat_u64)
    also have "\<dots> \<longleftrightarrow> list_all is_digit p \<and> digits_val ?n p < 2 ^ 64 \<and> unat v' = digits_val ?n p"
      using le_less_trans [OF digits_val_ge [of ?n p]] by blast
    finally show ?thesis using True by simp
  next
    case False
    then have "string2ll_loop v (c # p) = Some (v, c # p)"
      by (simp only: string2ll_loop.simps is_digit_def if_False)
    with False show ?thesis by (simp del: string2ll_loop.simps)
  qed
qed

definition parse_abs :: "bytes \<Rightarrow> nat option" where
  "parse_abs p = (case p of [] \<Rightarrow> None
     | c # p \<Rightarrow> if 49 \<le> c \<and> c \<le> 57 then
         (case string2ll_loop (ucast c - 48) p of Some (v, []) \<Rightarrow> Some (unat v) | _ \<Rightarrow> None)
       else None)"

lemma parse_abs_eq: "parse_abs p = Some n \<longleftrightarrow> 0 < n \<and> n < 2 ^ 64 \<and> p = decimal_nat n"
proof (cases p)
  case (Cons c p')
  have c: "49 \<le> c \<and> c \<le> 57 \<longleftrightarrow> is_digit c \<and> c \<noteq> 48"
    by (auto simp: is_digit_def word_le_nat_alt word_unat_eq_iff)
  show ?thesis
  proof (cases "is_digit c \<and> c \<noteq> 48")
    case True
    have u: "unat (ucast c - 48 :: u64) = digval c"
      using True by (simp add: unat_digit_u64)
    have "parse_abs p = Some n \<longleftrightarrow> (\<exists>v. string2ll_loop (ucast c - 48) p' = Some (v, []) \<and> n = unat v)"
      using True c by (auto simp: parse_abs_def Cons split: option.splits list.splits)
    also have "\<dots> \<longleftrightarrow> list_all is_digit p' \<and> digits_val (digval c) p' < 2 ^ 64 \<and> n = digits_val (digval c) p'"
      by (auto simp: string2ll_loop_eq u unat_of_nat_u64 intro!: exI [of _ "of_nat n"])
    also have "\<dots> \<longleftrightarrow> 0 < n \<and> n < 2 ^ 64 \<and> p = decimal_nat n"
      using True digits_val_pos [of p] decimal_nat_eq_iff [of n p] by (auto simp: Cons)
    finally show ?thesis .
  next
    case False
    then have "p \<noteq> decimal_nat n" if "0 < n"
      using decimal_nat_eq_iff [OF that, of p] by (auto simp: Cons)
    then show ?thesis using False c by (auto simp: parse_abs_def Cons)
  qed
qed (use decimal_nat_ne [of n] in \<open>auto simp: parse_abs_def simp del: decimal_nat_ne\<close>)

lemma string2ll_parse_abs:
  "string2ll s =
    (if s = [48] then Some 0
     else if s \<noteq> [] \<and> hd s = 45 then
       (case parse_abs (tl s) of Some n \<Rightarrow> if n > 2 ^ 63 then None else Some (- int n) | None \<Rightarrow> None)
     else (case parse_abs s of Some n \<Rightarrow> if n \<ge> 2 ^ 63 then None else Some (int n) | None \<Rightarrow> None))"
proof -
  have neg: "v > 0x8000000000000000 \<longleftrightarrow> unat v > 2 ^ 63" for v :: u64
    by (simp add: word_less_nat_alt)
  have pos: "v > 0x7FFFFFFFFFFFFFFF \<longleftrightarrow> unat v \<ge> 2 ^ 63" for v :: u64
    by (simp add: word_less_nat_alt) linarith
  have *: "(case p of [] \<Rightarrow> None | c # p \<Rightarrow> if 49 \<le> c \<and> c \<le> 57 then
         (case string2ll_loop (ucast c - 48) p of None \<Rightarrow> None
          | Some (v, p) \<Rightarrow> if p \<noteq> [] then None else f v) else None) =
      (case parse_abs p of None \<Rightarrow> None | Some n \<Rightarrow> f (of_nat n))" for p and f :: "u64 \<Rightarrow> int option"
    by (auto simp: parse_abs_def split: list.splits option.splits)
  have neg': "(if of_nat n > (0x8000000000000000 :: u64) then None else Some (sint (- (of_nat n :: u64)))) =
      (if n > 2 ^ 63 then None else Some (- int n))" if "n < 2 ^ 64" for n
    using that sint_neg_u64 [of "of_nat n"] by (simp only: neg unat_of_nat_u64) auto
  have pos': "(if of_nat n > (0x7FFFFFFFFFFFFFFF :: u64) then None else Some (sint (of_nat n :: u64))) =
      (if n \<ge> 2 ^ 63 then None else Some (int n))" if "n < 2 ^ 64" for n
    using that sint_pos_u64 [of "of_nat n"] by (simp only: pos unat_of_nat_u64) auto
  show ?thesis
  proof (cases "s = [] \<or> s = [48]")
    case True
    then show ?thesis by (auto simp: string2ll_def parse_abs_def)
  next
    case False
    define neg where "neg \<longleftrightarrow> hd s = 45"
    define p where "p = (if neg then tl s else s)"
    have "string2ll s = (case parse_abs p of None \<Rightarrow> None | Some n \<Rightarrow>
        if neg then (if of_nat n > (0x8000000000000000 :: u64) then None else Some (sint (- (of_nat n :: u64))))
        else (if of_nat n > (0x7FFFFFFFFFFFFFFF :: u64) then None else Some (sint (of_nat n :: u64))))"
      using False by (simp only: string2ll_def Let_def * de_Morgan_disj if_False
          flip: neg_def p_def)
    also have "\<dots> = (case parse_abs p of None \<Rightarrow> None | Some n \<Rightarrow>
        if neg then (if n > 2 ^ 63 then None else Some (- int n))
        else (if n \<ge> 2 ^ 63 then None else Some (int n)))"
    proof (cases "parse_abs p")
      case (Some n)
      then have "n < 2 ^ 64" by (simp only: parse_abs_eq)
      then show ?thesis by (simp only: Some option.case neg' pos')
    qed simp
    also have "\<dots> = (if s = [48] then Some 0 else if s \<noteq> [] \<and> hd s = 45 then
       (case parse_abs (tl s) of Some n \<Rightarrow> if n > 2 ^ 63 then None else Some (- int n) | None \<Rightarrow> None)
     else (case parse_abs s of Some n \<Rightarrow> if n \<ge> 2 ^ 63 then None else Some (int n) | None \<Rightarrow> None))"
      using False by (cases neg) (auto simp: p_def neg_def split: option.split)
    finally show ?thesis .
  qed
qed

lemma string2ll_iff: "string2ll s = Some v \<longleftrightarrow> int64_range v \<and> s = decimal v"
proof -
  have minus: "decimal_nat n \<noteq> 45 # t" for n t
    using decimal_nat_digits [of n] by (auto simp: is_digit_def)
  have dec_zero: "decimal_nat n = [48] \<longleftrightarrow> n = 0" for n
  proof
    show "n = 0" if "decimal_nat n = [48]"
      using digits_val_decimal_nat [of n] that by (simp add: digval_def)
    show "decimal_nat n = [48]" if "n = 0"
      using that by (simp add: decimal_nat.simps)
  qed
  consider "s = [48]" | t where "s = 45 # t" | "s \<noteq> [48]" "\<not> (s \<noteq> [] \<and> hd s = 45)"
    by (cases s) auto
  then show ?thesis
  proof cases
    case 1
    have "[48] = decimal v \<longleftrightarrow> v = 0"
      using dec_zero [of "nat v"] by (auto simp: decimal_def)
    with 1 show ?thesis by (auto simp: string2ll_parse_abs int64_range_def)
  next
    case (2 t)
    have "string2ll s = Some v \<longleftrightarrow> (\<exists>n. parse_abs t = Some n \<and> n \<le> 2 ^ 63 \<and> v = - int n)"
      using 2 by (auto simp: string2ll_parse_abs split: option.split)
    also have "\<dots> \<longleftrightarrow> (\<exists>n. 0 < n \<and> n \<le> 2 ^ 63 \<and> t = decimal_nat n \<and> v = - int n)"
      unfolding parse_abs_eq by auto
    also have "\<dots> \<longleftrightarrow> - (2 ^ 63) \<le> v \<and> v < 0 \<and> t = decimal_nat (nat (- v))"
      by (auto intro!: exI [of _ "nat (- v)"])
    also have "\<dots> \<longleftrightarrow> int64_range v \<and> s = decimal v"
      using 2 minus [of "nat v" t] by (auto simp: decimal_def int64_range_def)
    finally show ?thesis .
  next
    case 3
    then have "string2ll s = Some v \<longleftrightarrow> (\<exists>n. parse_abs s = Some n \<and> n < 2 ^ 63 \<and> v = int n)"
      by (auto simp: string2ll_parse_abs split: option.split)
    also have "\<dots> \<longleftrightarrow> (\<exists>n. 0 < n \<and> n < 2 ^ 63 \<and> s = decimal_nat n \<and> v = int n)"
      unfolding parse_abs_eq by auto
    also have "\<dots> \<longleftrightarrow> 0 < v \<and> v < 2 ^ 63 \<and> s = decimal_nat (nat v)"
      by (auto intro!: exI [of _ "nat v"])
    also have "\<dots> \<longleftrightarrow> int64_range v \<and> s = decimal v"
      using 3 dec_zero [of 0] by (cases "v = 0") (auto simp: decimal_def int64_range_def)
    finally show ?thesis .
  qed
qed

subsection \<open>Glob-style matching\<close>

text \<open>
  \<open>stringmatchlen\<close>. Pattern and string are the bytes still to be read; the code reads one byte
  past the end of the pattern in a few places (\<open>pattern[0] == ']'\<close> before the length check,
  \<open>*pattern == '*'\<close>), where its callers' buffers hold the terminating NUL, which is neither of
  these characters. The character codes are \<open>*\<close> 42, \<open>-\<close> 45, \<open>?\<close> 63, \<open>[\<close> 91, \<open>\\<close> 92,
  \<open>]\<close> 93 and \<open>^\<close> 94. A byte becomes an \<open>int\<close> through the signed \<open>char\<close> of the platform.
\<close>

definition tolower_int :: "int \<Rightarrow> int" where
  "tolower_int c = (if 65 \<le> c \<and> c \<le> 90 then c + 32 else c)"

definition char_eq :: "bool \<Rightarrow> byte \<Rightarrow> byte \<Rightarrow> bool" where
  "char_eq nocase a b = (if \<not> nocase then a = b else tolower_int (sint a) = tolower_int (sint b))"

definition range_match :: "bool \<Rightarrow> byte \<Rightarrow> byte \<Rightarrow> byte \<Rightarrow> bool" where
  "range_match nocase p0 p2 s0 =
    (let start = sint p0; end = sint p2; c = sint s0;
         (start, end) = (if start > end then (end, start) else (start, end));
         (start, end, c) = (if nocase then (tolower_int start, tolower_int end, tolower_int c)
                            else (start, end, c))
     in c \<ge> start \<and> c \<le> end)"

text \<open>The loop over a bracket expression: the match flag and the pattern after it.\<close>

function class_loop :: "bool \<Rightarrow> byte \<Rightarrow> bytes \<Rightarrow> bool \<Rightarrow> bool \<times> bytes" where
  "class_loop nocase s0 [] match = (match, [])"
| "class_loop nocase s0 (p0 # p) match =
    (if p0 = 92 \<and> length (p0 # p) \<ge> 2 then class_loop nocase s0 (tl p) (match \<or> hd p = s0)
     else if p0 = 93 then (match, p)
     else if length (p0 # p) \<ge> 3 \<and> hd p = 45 then
       class_loop nocase s0 (drop 2 p) (match \<or> range_match nocase p0 (p ! 1) s0)
     else class_loop nocase s0 p (match \<or> char_eq nocase p0 s0))"
  by pat_completeness auto
termination
  by (relation "measure (\<lambda>(nocase, s0, p, match). length p)") auto

text \<open>
  One element of the pattern other than a star against one byte of the string: the pattern after
  the element, or nothing if the byte does not match.
\<close>

definition glob_step :: "bool \<Rightarrow> bytes \<Rightarrow> byte \<Rightarrow> bytes option" where
  "glob_step nocase pattern s0 =
    (if hd pattern = 63 then Some (tl pattern)
     else if hd pattern = 91 then
       (let p = tl pattern;
            not = (p \<noteq> [] \<and> hd p = 94);
            p = (if not then tl p else p);
            (match, p) = class_loop nocase s0 p False;
            match = (if not then \<not> match else match)
        in if match then Some p else None)
     else
       (let p = (if hd pattern = 92 \<and> length pattern \<ge> 2 then tl pattern else pattern)
        in if char_eq nocase (hd p) s0 then Some (tl p) else None))"

fun skip_stars :: "bytes \<Rightarrow> bytes" where
  "skip_stars (a # b # p) = (if b = 42 then skip_stars (b # p) else a # b # p)"
| "skip_stars p = p"

lemma length_skip_stars: "length (skip_stars p) \<le> length p"
  by (induction p rule: skip_stars.induct) auto

lemma length_class_loop: "length (snd (class_loop nocase s0 p match)) \<le> length p"
  by (induction nocase s0 p match rule: class_loop.induct) auto

lemma length_glob_step: "pattern \<noteq> [] \<Longrightarrow> glob_step nocase pattern s0 = Some p \<Longrightarrow> length p < length pattern"
  using length_class_loop [of nocase s0 "tl pattern" False]
    length_class_loop [of nocase s0 "tl (tl pattern)" False]
  by (cases pattern) (auto simp: glob_step_def Let_def split: if_splits prod.splits)

function (sequential) stringmatchlen :: "bool \<Rightarrow> bytes \<Rightarrow> bytes \<Rightarrow> bool"
  and stringmatchlen_star :: "bool \<Rightarrow> bytes \<Rightarrow> bytes \<Rightarrow> bool" where
  "stringmatchlen nocase pattern string =
    (if pattern = [] \<or> string = [] then pattern = [] \<and> string = []
     else if hd pattern = 42 then
       (let pattern = skip_stars pattern
        in if length pattern = 1 then True
           else stringmatchlen_star nocase (tl pattern) string)
     else
       (case glob_step nocase pattern (hd string) of None \<Rightarrow> False
        | Some p \<Rightarrow>
          if tl string = [] then dropWhile (\<lambda>c. c = 42) p = []
          else stringmatchlen nocase p (tl string)))"
| "stringmatchlen_star nocase pattern [] = False"
| "stringmatchlen_star nocase pattern (c # string) =
    (stringmatchlen nocase pattern (c # string) \<or> stringmatchlen_star nocase pattern string)"
  by pat_completeness auto
termination
proof (relation "measure (\<lambda>x. case x of
      Inl (nocase, p, s) \<Rightarrow> 2 * (length p + length s)
    | Inr (nocase, p, s) \<Rightarrow> 2 * (length p + length s) + 1)", goal_cases)
  case (2 nocase pattern string x)
  then show ?case
    using length_skip_stars [of pattern] by (cases pattern) auto
next
  case (3 nocase pattern string p)
  then show ?case
    using length_glob_step [of pattern nocase "hd string" p] by (cases string) auto
qed auto

declare stringmatchlen.simps [simp del]

text \<open>\<open>stringmatch\<close> works on C strings: up to the first NUL.\<close>

definition c_str :: "bytes \<Rightarrow> bytes" where
  "c_str s = takeWhile (\<lambda>c. c \<noteq> 0) s"

definition stringmatch :: "bytes \<Rightarrow> bytes \<Rightarrow> bool \<Rightarrow> bool" where
  "stringmatch pattern string nocase = stringmatchlen nocase (c_str pattern) (c_str string)"

subsubsection \<open>The reference: patterns as token lists\<close>

datatype class_item = Single byte | Escaped byte | Range byte byte

datatype glob_token = Star | AnyChar | Bracket bool "class_item list" | Lit byte

function parse_class :: "bytes \<Rightarrow> class_item list \<times> bytes" where
  "parse_class [] = ([], [])"
| "parse_class (p0 # p) =
    (if p0 = 92 \<and> p \<noteq> [] then apfst (Cons (Escaped (hd p))) (parse_class (tl p))
     else if p0 = 93 then ([], p)
     else if length p \<ge> 2 \<and> hd p = 45 then apfst (Cons (Range p0 (p ! 1))) (parse_class (drop 2 p))
     else apfst (Cons (Single p0)) (parse_class p))"
  by pat_completeness auto
termination
  by (relation "measure length") auto

fun item_matches :: "bool \<Rightarrow> byte \<Rightarrow> class_item \<Rightarrow> bool" where
  "item_matches nocase c (Single b) = char_eq nocase b c"
| "item_matches nocase c (Escaped b) = (b = c)"
| "item_matches nocase c (Range a b) = range_match nocase a b c"

fun token_matches :: "bool \<Rightarrow> glob_token \<Rightarrow> byte \<Rightarrow> bool" where
  "token_matches nocase AnyChar c = True"
| "token_matches nocase (Bracket neg items) c = (list_ex (item_matches nocase c) items \<noteq> neg)"
| "token_matches nocase (Lit b) c = char_eq nocase b c"
| "token_matches nocase Star c = False"

lemma length_parse_class: "length (snd (parse_class p)) \<le> length p"
  by (induction p rule: parse_class.induct) auto

function glob_parse :: "bytes \<Rightarrow> glob_token list" where
  "glob_parse [] = []"
| "glob_parse (p0 # p) =
    (if p0 = 42 then Star # glob_parse p
     else if p0 = 63 then AnyChar # glob_parse p
     else if p0 = 91 then
       (let neg = (p \<noteq> [] \<and> hd p = 94); q = parse_class (if neg then tl p else p)
        in Bracket neg (fst q) # glob_parse (snd q))
     else if p0 = 92 \<and> p \<noteq> [] then Lit (hd p) # glob_parse (tl p)
     else Lit p0 # glob_parse p)"
  by pat_completeness auto
termination
proof (relation "measure length", goal_cases)
  case (4 p0 p x xa)
  then show ?case
    using length_parse_class [of p] length_parse_class [of "tl p"]
    by (auto simp: less_Suc_eq_le intro: le_trans)
qed auto

fun glob_match :: "bool \<Rightarrow> glob_token list \<Rightarrow> bytes \<Rightarrow> bool" where
  "glob_match nocase [] s = (s = [])"
| "glob_match nocase (Star # ts) [] = glob_match nocase ts []"
| "glob_match nocase (Star # ts) (c # s) = (glob_match nocase ts (c # s) \<or> glob_match nocase (Star # ts) s)"
| "glob_match nocase (t # ts) [] = False"
| "glob_match nocase (t # ts) (c # s) = (token_matches nocase t c \<and> glob_match nocase ts s)"

subsubsection \<open>The matcher computes the reference\<close>

lemma class_loop_parse:
  "class_loop nocase c p m =
    (m \<or> list_ex (item_matches nocase c) (fst (parse_class p)), snd (parse_class p))"
proof (induction nocase c p m rule: class_loop.induct)
  case (2 nocase c p0 p m)
  have "length (p0 # p) \<ge> 2 \<longleftrightarrow> p \<noteq> []" by (cases p) auto
  with 2 show ?case by auto
qed simp

lemma glob_step_token:
  assumes "hd (p0 # p) \<noteq> 42"
  obtains t q where "t \<noteq> Star" and "glob_parse (p0 # p) = t # glob_parse q"
    and "\<forall>c. glob_step nocase (p0 # p) c = (if token_matches nocase t c then Some q else None)"
proof -
  consider "p0 = 63" | "p0 = 91" | "p0 = 92" "p \<noteq> []" | "p0 \<noteq> 63" "p0 \<noteq> 91" "\<not> (p0 = 92 \<and> p \<noteq> [])"
    by blast
  then show ?thesis
  proof cases
    case 1
    then show ?thesis using that [of AnyChar p] by (simp add: glob_step_def)
  next
    case 2
    define neg where "neg \<longleftrightarrow> p \<noteq> [] \<and> hd p = 94"
    define q where "q = parse_class (if neg then tl p else p)"
    have "glob_parse (p0 # p) = Bracket neg (fst q) # glob_parse (snd q)"
      using 2 by (simp add: Let_def neg_def q_def)
    moreover have "glob_step nocase (p0 # p) c =
        (if token_matches nocase (Bracket neg (fst q)) c then Some (snd q) else None)" for c
      using 2 by (simp add: glob_step_def Let_def class_loop_parse q_def flip: neg_def)
    ultimately show ?thesis using that [of "Bracket neg (fst q)" "snd q"] by simp
  next
    case 3
    then have "glob_step nocase (p0 # p) c = (if token_matches nocase (Lit (hd p)) c then Some (tl p) else None)" for c
      by (cases p) (auto simp: glob_step_def)
    with 3 show ?thesis using that [of "Lit (hd p)" "tl p"] by simp
  next
    case 4
    then have "glob_step nocase (p0 # p) c = (if token_matches nocase (Lit p0) c then Some p else None)" for c
      by (cases p) (auto simp: glob_step_def)
    moreover have "glob_parse (p0 # p) = Lit p0 # glob_parse p"
      using 4 assms by auto
    ultimately show ?thesis using that [of "Lit p0" p] by simp
  qed
qed

lemma ex_le_Suc: "(\<exists>k \<le> Suc n. P k) \<longleftrightarrow> P 0 \<or> (\<exists>k \<le> n. P (Suc k))"
proof
  assume "\<exists>k \<le> Suc n. P k"
  then obtain k where "k \<le> Suc n" "P k" by blast
  then show "P 0 \<or> (\<exists>k \<le> n. P (Suc k))" by (cases k) auto
qed auto

lemma glob_match_star: "glob_match nocase (Star # ts) s \<longleftrightarrow> (\<exists>k \<le> length s. glob_match nocase ts (drop k s))"
proof (induction s)
  case (Cons c s)
  then show ?case by (simp add: ex_le_Suc)
qed simp

lemma glob_match_star_star: "glob_match nocase (Star # Star # ts) s = glob_match nocase (Star # ts) s"
proof -
  have "(\<exists>k\<le>length s. \<exists>j\<le>length s - k. glob_match nocase ts (drop (j + k) s)) \<longleftrightarrow>
      (\<exists>k\<le>length s. glob_match nocase ts (drop k s))"
    by (metis add.right_neutral le_add_diff_inverse2 nat_le_linear add_le_cancel_right diff_zero le0 add_0)
  then show ?thesis
    by (simp add: glob_match_star [of nocase "Star # ts"] glob_match_star [of nocase ts] add.commute)
qed

lemma glob_match_skip_stars:
  "hd p = 42 \<Longrightarrow> glob_match nocase (glob_parse (skip_stars p)) s = glob_match nocase (glob_parse p) s"
  by (induction p rule: skip_stars.induct) (auto simp: glob_match_star_star)

lemma skip_stars_shape:
  "p \<noteq> [] \<Longrightarrow> hd p = 42 \<Longrightarrow> \<exists>q. skip_stars p = 42 # q \<and> (q = [] \<or> hd q \<noteq> 42)"
  by (induction p rule: skip_stars.induct) auto

lemma glob_match_nil: "glob_match nocase (glob_parse p) [] \<longleftrightarrow> dropWhile (\<lambda>c. c = 42) p = []"
proof (induction p)
  case (Cons p0 p)
  show ?case
  proof (cases "p0 = 42")
    case False
    then have "hd (p0 # p) \<noteq> 42" by simp
    then obtain t q where "t \<noteq> Star" "glob_parse (p0 # p) = t # glob_parse q"
      by (rule glob_step_token)
    then show ?thesis using False by (cases t) (simp_all del: glob_parse.simps)
  qed (use Cons in simp)
qed simp

lemma glob_match_token:
  "t \<noteq> Star \<Longrightarrow> glob_match nocase (t # ts) (c # s) = (token_matches nocase t c \<and> glob_match nocase ts s)"
  by (cases t) auto

lemma stringmatchlen_glob:
  "s \<noteq> [] \<Longrightarrow> stringmatchlen nocase p s = glob_match nocase (glob_parse p) s"
  "p \<noteq> [] \<Longrightarrow> hd p \<noteq> 42 \<Longrightarrow> stringmatchlen_star nocase p s = glob_match nocase (Star # glob_parse p) s"
proof (induction nocase p s and nocase p s rule: stringmatchlen_stringmatchlen_star.induct)
  case (1 nocase p s)
  from 1(3) obtain c s' where s: "s = c # s'" by (cases s) auto
  show ?case
  proof (cases p)
    case Nil
    then show ?thesis using s by (simp add: stringmatchlen.simps)
  next
    case (Cons p0 p')
    show ?thesis
    proof (cases "p0 = 42")
      case True
      then obtain q where q: "skip_stars p = 42 # q" "q = [] \<or> hd q \<noteq> 42"
        using skip_stars_shape [of p] Cons by auto
      have "stringmatchlen nocase p s = glob_match nocase (Star # glob_parse q) s"
      proof (cases "q = []")
        case True
        have "glob_match nocase [Star] s"
          by (subst glob_match_star) (auto intro: exI [of _ "length s"])
        with True q Cons \<open>p0 = 42\<close> s show ?thesis
          by (subst stringmatchlen.simps) simp
      next
        case False
        then have "length (skip_stars p) \<noteq> 1" using q by (cases q) auto
        then show ?thesis
          using 1(1) [of "skip_stars p"] q False Cons \<open>p0 = 42\<close> s
          by (subst stringmatchlen.simps) simp
      qed
      also have "\<dots> = glob_match nocase (glob_parse p) s"
        using glob_match_skip_stars [of p nocase s] q Cons \<open>p0 = 42\<close> by simp
      finally show ?thesis .
    next
      case False
      then have "hd (p0 # p') \<noteq> 42" by simp
      then obtain t q where "t \<noteq> Star" "glob_parse (p0 # p') = t # glob_parse q"
        "\<forall>c. glob_step nocase (p0 # p') c = (if token_matches nocase t c then Some q else None)"
        by (rule glob_step_token [of p0 p' nocase])
      note t = this [folded Cons]
      show ?thesis
      proof (cases "s' = [] \<or> \<not> token_matches nocase t c")
        case True
        then show ?thesis
          using t s Cons False
          by (subst stringmatchlen.simps)
            (auto simp: glob_match_token glob_match_nil simp del: glob_parse.simps)
      next
        case nonempty: False
        then have "stringmatchlen nocase q s' = glob_match nocase (glob_parse q) s'"
          using 1(2) [of q] t(3) s Cons False by simp
        then show ?thesis
          using t s Cons False nonempty
          by (subst stringmatchlen.simps) (simp add: glob_match_token del: glob_parse.simps)
      qed
    qed
  qed
next
  case (2 nocase p)
  then show ?case by (cases p) (auto simp: glob_match_nil simp del: glob_parse.simps)
next
  case (3 nocase p c s)
  then show ?case by simp
qed

subsection \<open>Properties\<close>

text \<open>
  C14. \<open>ll2string\<close> for every 64-bit integer (the most negative one included): when the buffer has room
  for the digits and the terminator it writes the canonical decimal form and a NUL inside of it and
  returns the length, and otherwise leaves the buffer alone and returns 0. No access leaves the buffer.
\<close>

theorem ll2string_writes_decimal:
  assumes "int64_range v" and "dstlen \<le> length dst"
  shows "ll2string dst dstlen v =
    (if length (decimal v) < dstlen
     then Some (decimal v @ [0] @ drop (Suc (length (decimal v))) dst, length (decimal v))
     else Some (dst, 0))"
  by (rule ll2string_correct [OF assms])

theorem ll2string_writes_decimal_witness:
  "ll2string [7, 7, 7, 7] 4 (- 12) = Some ([45, 49, 50, 0], 3)"
proof -
  have "decimal (- 12) = [45, 49, 50]" by (simp add: decimal_def decimal_nat.simps)
  then show ?thesis using ll2string_writes_decimal [of "- 12" 4 "[7, 7, 7, 7]"] by (simp add: int64_range_def)
qed

text \<open>
  C15. \<open>string2ll\<close> accepts exactly the canonical decimal forms of the 64-bit integers (no leading zeros,
  no plus sign, no spaces, no overflow) and returns the integer.
\<close>

theorem string2ll_accepts_decimal: "string2ll s = Some v \<longleftrightarrow> int64_range v \<and> s = decimal v"
  by (rule string2ll_iff)

text \<open>
  C16. Round trip: what \<open>ll2string\<close> prints into a buffer of at least 21 bytes, \<open>string2ll\<close> reads back.
\<close>

theorem ll2string_string2ll:
  assumes "int64_range v" and "21 \<le> length dst"
  shows "\<exists>dst' n. ll2string dst (length dst) v = Some (dst', n) \<and> 0 < n \<and> string2ll (take n dst') = Some v"
proof -
  have "length (decimal v) < 21" using length_decimal_int64 [OF assms(1)] by simp
  moreover have "0 < length (decimal v)" by (simp add: decimal_def)
  ultimately show ?thesis
    using ll2string_correct [OF assms(1), of "length dst" dst] assms string2ll_iff [of "decimal v" v] by simp
qed

theorem ll2string_string2ll_witness:
  "\<exists>dst' n. ll2string (replicate 21 0) 21 (- 9223372036854775808) = Some (dst', n) \<and> 0 < n \<and>
    string2ll (take n dst') = Some (- 9223372036854775808)"
  using ll2string_string2ll [of "- 9223372036854775808" "replicate 21 0"] by (simp add: int64_range_def)

text \<open>
  C17. The backtracking matcher \<open>stringmatchlen\<close> (KEYS, SCAN MATCH, PSUBSCRIBE, ACL and CONFIG GET
  patterns) decides whether a non-empty string is in the language of the parsed pattern. The empty string
  is an exception: it is matched by the empty pattern only, although the language of a pattern of stars
  contains it, because the loop is not entered.
\<close>

theorem stringmatchlen_refines_glob:
  "stringmatchlen nocase p s = (if s = [] then p = [] else glob_match nocase (glob_parse p) s)"
proof (cases "s = []")
  case True
  then show ?thesis by (subst stringmatchlen.simps) simp
next
  case False
  then show ?thesis by (simp add: stringmatchlen_glob(1))
qed

end
