(* ===== verification/Dict_Types.thy ===== *)
theory Dict_Types
  imports Dict_Scan Hashes Util
begin

section \<open>The dictionary types of the server\<close>

text \<open>
  Models the hash and comparison functions that \<open>redis/redis-6.2.7/src/server.c\<close> gives to its
  dictionaries, and one dictionary type of each kind: keys compared byte by byte (the keyspace),
  keys compared without case (the command table) and string objects that may be encoded as integers
  (the channels of \<open>pubsub.c\<close>). For each of them the laws of the interface of \<open>dict.c\<close> are proved.

  The theorems on dictionaries are stated here for every type that satisfies these laws: the
  operations implement a finite map, rehashing keeps the content and comes to an end, and a cursor
  iteration reports every key that stays. The seed of the hash and the answer of
  \<open>overMaxmemoryAfterAlloc\<close> are parameters. A static object is never encoded as an integer
  (\<open>initStaticStringObject\<close>), so the two cases of \<open>dictEncObjKeyCompare\<close> on the reference count decode
  the same string.
\<close>

subsection \<open>Keys that are byte strings\<close>

definition dictGenHashFunction :: "bytes \<Rightarrow> bytes \<Rightarrow> u64" where
  "dictGenHashFunction seed key = siphash key seed"

definition dictGenCaseHashFunction :: "bytes \<Rightarrow> bytes \<Rightarrow> u64" where
  "dictGenCaseHashFunction seed buf = siphash_nocase buf seed"

definition dictSdsHash :: "bytes \<Rightarrow> bytes \<Rightarrow> u64" where
  "dictSdsHash seed key = dictGenHashFunction seed key"

definition dictSdsCaseHash :: "bytes \<Rightarrow> bytes \<Rightarrow> u64" where
  "dictSdsCaseHash seed key = dictGenCaseHashFunction seed key"

definition dictSdsKeyCompare :: "bytes \<Rightarrow> bytes \<Rightarrow> bool" where
  "dictSdsKeyCompare key1 key2 =
    (let l1 = length key1; l2 = length key2
     in if l1 \<noteq> l2 then False else take l1 key1 = take l1 key2)"

text \<open>\<open>strcasecmp (a, b) == 0\<close> on two null-terminated strings.\<close>

definition strcasecmp_eq :: "bytes \<Rightarrow> bytes \<Rightarrow> bool" where
  "strcasecmp_eq a b \<longleftrightarrow> map tolower (c_str a) = map tolower (c_str b)"

definition dictSdsKeyCaseCompare :: "bytes \<Rightarrow> bytes \<Rightarrow> bool" where
  "dictSdsKeyCaseCompare key1 key2 = strcasecmp_eq key1 key2"

text \<open>The load factor is passed as the pair of the two numbers that are divided.\<close>

definition dictExpandAllowed :: "(nat \<Rightarrow> bool) \<Rightarrow> nat \<Rightarrow> nat \<times> nat \<Rightarrow> bool" where
  "dictExpandAllowed overMaxmemoryAfterAlloc moreMem ratio =
    (if fst ratio * 1000 \<le> 1618 * snd ratio then \<not> overMaxmemoryAfterAlloc moreMem else True)"

definition dbDictType :: "bytes \<Rightarrow> (nat \<Rightarrow> bool) \<Rightarrow> (bytes, 'v) dictType" where
  "dbDictType seed over =
    \<lparr>hashFunction = dictSdsHash seed, keyDup = None, valDup = None, keyCompare = Some dictSdsKeyCompare,
     expandAllowed = Some (dictExpandAllowed over)\<rparr>"

definition commandTableDictType :: "bytes \<Rightarrow> (bytes, 'v) dictType" where
  "commandTableDictType seed =
    \<lparr>hashFunction = dictSdsCaseHash seed, keyDup = None, valDup = None,
     keyCompare = Some dictSdsKeyCaseCompare, expandAllowed = None\<rparr>"

subsection \<open>Keys that are string objects\<close>

datatype strobj = SdsObj bytes | IntObj int

text \<open>\<open>ll2string\<close> into a local buffer of 32 bytes: the bytes written.\<close>

definition int_obj_bytes :: "int \<Rightarrow> bytes" where
  "int_obj_bytes v = (case ll2string (replicate 32 0) 32 v of Some (buf, len) \<Rightarrow> take len buf | None \<Rightarrow> [])"

fun getDecodedObject :: "strobj \<Rightarrow> bytes" where
  "getDecodedObject (SdsObj s) = s"
| "getDecodedObject (IntObj v) =
    (case ll2string (replicate 32 0) 32 v of Some (buf, len) \<Rightarrow> c_str buf | None \<Rightarrow> [])"

fun dictEncObjKeyCompare :: "strobj \<Rightarrow> strobj \<Rightarrow> bool" where
  "dictEncObjKeyCompare (IntObj v1) (IntObj v2) = (v1 = v2)"
| "dictEncObjKeyCompare o1 o2 = dictSdsKeyCompare (getDecodedObject o1) (getDecodedObject o2)"

fun dictEncObjHash :: "bytes \<Rightarrow> strobj \<Rightarrow> u64" where
  "dictEncObjHash seed (SdsObj s) = dictGenHashFunction seed s"
| "dictEncObjHash seed (IntObj v) = dictGenHashFunction seed (int_obj_bytes v)"

definition objectKeyPointerValueDictType :: "bytes \<Rightarrow> (strobj, 'v) dictType" where
  "objectKeyPointerValueDictType seed =
    \<lparr>hashFunction = dictEncObjHash seed, keyDup = None, valDup = None,
     keyCompare = Some dictEncObjKeyCompare, expandAllowed = None\<rparr>"

text \<open>An integer object holds a \<open>long\<close>; the text of an object does not depend on its encoding.\<close>

fun long_obj :: "strobj \<Rightarrow> bool" where
  "long_obj (SdsObj s) = True"
| "long_obj (IntObj v) = int64_range v"

fun obj_text :: "strobj \<Rightarrow> bytes" where
  "obj_text (SdsObj s) = s"
| "obj_text (IntObj v) = decimal v"

subsection \<open>The laws of the three types\<close>

lemma dictSdsKeyCompare_eq: "dictSdsKeyCompare a b \<longleftrightarrow> a = b"
  by (auto simp: dictSdsKeyCompare_def Let_def)

lemma c_str_id: "0 \<notin> set s \<Longrightarrow> c_str s = s"
  by (auto simp: c_str_def takeWhile_eq_all_conv)

interpretation db: dict_api "dbDictType seed over" "\<lambda>_. True" "\<lambda>k. k" junk can_resize
  for seed over junk can_resize
  by unfold_locales (simp_all add: dbDictType_def dictSdsKeyCompare_eq)

interpretation cmd: dict_api "commandTableDictType seed" "\<lambda>k. 0 \<notin> set k" "map tolower" junk can_resize
  for seed junk can_resize
  by unfold_locales
    (auto simp: commandTableDictType_def dictSdsKeyCaseCompare_def strcasecmp_eq_def c_str_id
      dictSdsCaseHash_def dictGenCaseHashFunction_def siphash_nocase_eq)

lemma ll2string_32:
  assumes "int64_range v"
  shows "ll2string (replicate 32 0) 32 v =
    Some (decimal v @ [0] @ drop (Suc (length (decimal v))) (replicate 32 0), length (decimal v))"
  using ll2string_correct [OF assms, of 32 "replicate 32 0"] length_decimal_int64 [OF assms] by simp

lemma decimal_no_nul: "0 \<notin> set (decimal v)"
proof -
  have "0 \<notin> set (decimal_nat n)" for n
    using decimal_nat_digits [of n] by (auto simp: list_all_iff is_digit_def)
  then show ?thesis by (auto simp: decimal_def)
qed

lemma int_obj_bytes_eq: "int64_range v \<Longrightarrow> int_obj_bytes v = decimal v"
  by (simp add: int_obj_bytes_def ll2string_32)

lemma c_str_append: "0 \<notin> set s \<Longrightarrow> c_str (s @ 0 # r) = s"
  by (induction s) (auto simp: c_str_def)

lemma getDecodedObject_eq: "long_obj x \<Longrightarrow> getDecodedObject x = obj_text x"
  by (cases x) (auto simp: ll2string_32 c_str_append decimal_no_nul)

lemma decimal_inj: "int64_range v \<Longrightarrow> int64_range w \<Longrightarrow> decimal v = decimal w \<longleftrightarrow> v = w"
  using string2ll_iff by (metis option.inject)

lemma dictEncObjKeyCompare_eq:
  "long_obj x \<Longrightarrow> long_obj y \<Longrightarrow> dictEncObjKeyCompare x y \<longleftrightarrow> obj_text x = obj_text y"
  by (cases x; cases y)
    (simp_all add: dictSdsKeyCompare_eq decimal_inj getDecodedObject_eq del: getDecodedObject.simps)

lemma dictEncObjHash_eq: "long_obj x \<Longrightarrow> dictEncObjHash seed x = dictGenHashFunction seed (obj_text x)"
  by (cases x) (simp_all add: int_obj_bytes_eq)

interpretation encobj: dict_api "objectKeyPointerValueDictType seed" long_obj obj_text junk can_resize
  for seed junk can_resize
  by unfold_locales (auto simp: objectKeyPointerValueDictType_def dictEncObjKeyCompare_eq dictEncObjHash_eq)

subsection \<open>Dictionaries as finite maps\<close>

abbreviation dict_ok :: "('k, 'v) dictType \<Rightarrow> ('k \<Rightarrow> bool) \<Rightarrow> ('k \<Rightarrow> 'c) \<Rightarrow> ('k, 'v) dict \<Rightarrow> bool" where
  "dict_ok ty okkey canon d \<equiv> dict_inv okkey canon d \<and> d_type d = ty"

text \<open>A dictionary of the keyspace type with one entry, and the laws of that type as hypotheses.\<close>

abbreviation (input) seed0 :: bytes where "seed0 \<equiv> replicate 16 0"
abbreviation (input) ty0 :: "(bytes, nat) dictType" where "ty0 \<equiv> dbDictType seed0 (\<lambda>_. False)"

definition dict1 :: "(bytes, nat) dict" where
  "dict1 = \<lparr>d_type = ty0,
    ht0 = \<lparr>table = (replicate 4 [])[unat (dictSdsHash seed0 [1] AND 3) := [\<lparr>de_key = [1], de_val = 7\<rparr>]],
      ht_size = 4, sizemask = 3, used = 1\<rparr>,
    ht1 = dictReset, rehashidx = - 1, pauserehash = 0\<rparr>"

lemma and_3_less: "unat (x AND 3 :: u64) < 4"
  using word_and_le1 [of x 3] by (simp add: word_le_nat_alt)

lemma dict1_entries: "dict_entries dict1 = [\<lparr>de_key = [1], de_val = 7\<rparr>]"
proof -
  have "concat ((replicate n [])[i := [x]]) = [x]" if "i < n" for n i and x :: "(bytes, nat) dictEntry"
    using that by (induction n arbitrary: i) (auto split: nat.splits)
  then show ?thesis using and_3_less by (simp add: dict_entries_def dict1_def)
qed

lemma dict1_ok: "dict_ok ty0 (\<lambda>_. True) (\<lambda>k. k) dict1"
proof -
  have k: "(\<exists>k\<in>{2..60}. 4 = (2 :: nat) ^ k \<and> (3 :: u64) = mask k)"
    by (intro bexI [of _ 2]) (simp_all add: mask_eq_exp_minus_1)
  have c: "concat (table (ht0 dict1)) = [\<lparr>de_key = [1], de_val = 7\<rparr>]"
    using dict1_entries by (simp add: dict_entries_def dict1_def)
  have "dictHashKey dict1 = dictSdsHash seed0"
    by (simp add: dict1_def dictHashKey_def dbDictType_def fun_eq_iff)
  then have "ht_inv (dictHashKey dict1) (ht0 dict1)"
    using k c and_3_less by (auto simp: ht_inv_def dict1_def nth_list_update split: if_splits)
  then show ?thesis
    using dict1_entries by (simp add: dict_inv_def) (simp add: dict1_def dictIsRehashing_def)
qed

lemma dict1_map: "dict_map (\<lambda>k. k) dict1 = [[1] \<mapsto> 7]" "dictSize dict1 = 1"
  by (auto simp: dict_map_def dict1_entries) (simp add: dict1_def dictSize_def)

text \<open>C23. \<open>dictFetchValue\<close> returns the value of the key or nothing, and leaves the map unchanged.\<close>

theorem dictFetchValue_refines:
  assumes "dict_type ty okkey canon" "dict_ok ty okkey canon d" "okkey key"
  shows "\<exists>d'. dictFetchValue d key = Some (d', dict_map canon d (canon key)) \<and>
    dict_ok ty okkey canon d' \<and> dict_map canon d' = dict_map canon d"
  using dict_type.dictFetchValue_correct [OF assms(1)] assms by (simp add: dict_type.wf_def)

theorem dictFetchValue_refines_witness:
  "\<exists>d'. dictFetchValue dict1 [1] = Some (d', Some 7)"
  using dictFetchValue_refines [OF db.dict_type_axioms dict1_ok, of "[1]"] by (auto simp: dict1_map)

text \<open>
  C22. \<open>dictAdd\<close> adds a key that is absent, and refuses with \<open>DICT_ERR\<close>, changing nothing of the map,
  a key that is present. The number of entries is bounded by what a 64-bit machine can address.
\<close>

theorem dictAdd_refines:
  assumes "dict_type ty okkey canon" "dict_ok ty okkey canon d" "okkey key" "dictSize d < 2 ^ 60"
  shows "\<exists>d' r. dictAdd junk can_resize d key v = Some (d', r) \<and> dict_ok ty okkey canon d' \<and>
    (if dict_map canon d (canon key) = None
     then r = DICT_OK \<and> dict_map canon d' = (dict_map canon d)(canon key \<mapsto> v)
     else r = DICT_ERR \<and> dict_map canon d' = dict_map canon d)"
proof -
  note * = dict_type.dictAdd_correct [OF assms(1), of d key junk can_resize v]
  obtain d' where "dictAdd junk can_resize d key v =
      Some (d', if dict_map canon d (canon key) = None then DICT_OK else DICT_ERR)" "dict_ok ty okkey canon d'"
    "dict_map canon d' = (if dict_map canon d (canon key) = None then (dict_map canon d)(canon key \<mapsto> v) else dict_map canon d)"
    using * assms unfolding dict_type.wf_def [OF assms(1)] by blast
  then show ?thesis by simp
qed

theorem dictAdd_refines_witness:
  "(\<exists>d'. dictAdd 0 True dict1 [2] 9 = Some (d', DICT_OK) \<and> dict_map (\<lambda>k. k) d' = [[1] \<mapsto> 7, [2] \<mapsto> 9]) \<and>
   (\<exists>d'. dictAdd 0 True dict1 [1] 9 = Some (d', DICT_ERR) \<and> dict_map (\<lambda>k. k) d' = [[1] \<mapsto> 7])"
  using dictAdd_refines [OF db.dict_type_axioms dict1_ok, where key = "[2]" and junk = 0 and can_resize = True and v = 9]
    dictAdd_refines [OF db.dict_type_axioms dict1_ok, where key = "[1]" and junk = 0 and can_resize = True and v = 9] dict1_map
  by simp blast

text \<open>C24. \<open>dictReplace\<close> binds the key to the value and tells whether the key was absent.\<close>

theorem dictReplace_refines:
  assumes "dict_type ty okkey canon" "dict_ok ty okkey canon d" "okkey key" "dictSize d < 2 ^ 60"
  shows "\<exists>d'. dictReplace junk can_resize d key v = Some (d', dict_map canon d (canon key) = None) \<and>
    dict_ok ty okkey canon d' \<and> dict_map canon d' = (dict_map canon d)(canon key \<mapsto> v)"
  using dict_type.dictReplace_correct [OF assms(1), of d key junk can_resize v] assms
  unfolding dict_type.wf_def [OF assms(1)] by blast

theorem dictReplace_refines_witness:
  "\<exists>d'. dictReplace 0 True dict1 [1] 9 = Some (d', False) \<and> dict_map (\<lambda>k. k) d' = [[1] \<mapsto> 9]"
  using dictReplace_refines [OF db.dict_type_axioms dict1_ok, where key = "[1]" and junk = 0 and can_resize = True and v = 9] by (auto simp: dict1_map)

text \<open>C25. \<open>dictDelete\<close> removes the key and answers \<open>DICT_OK\<close> exactly when it was present.\<close>

theorem dictDelete_refines:
  assumes "dict_type ty okkey canon" "dict_ok ty okkey canon d" "okkey key"
  shows "\<exists>d' r. dictDelete d key = Some (d', r) \<and> (r = DICT_OK \<longleftrightarrow> dict_map canon d (canon key) \<noteq> None) \<and>
    dict_ok ty okkey canon d' \<and> dict_map canon d' = (dict_map canon d)(canon key := None)"
  using dict_type.dictDelete_correct [OF assms(1), of d key] assms
  unfolding dict_type.wf_def [OF assms(1)] by blast

theorem dictDelete_refines_witness:
  "\<exists>d'. dictDelete dict1 [1] = Some (d', DICT_OK) \<and> dict_map (\<lambda>k. k) d' = Map.empty"
  using dictDelete_refines [OF db.dict_type_axioms dict1_ok, of "[1]"] by (auto simp: dict1_map)

text \<open>
  C30. In the command table a name finds what was stored under any name that differs from it only in
  case, and storing a command leaves what the other names find unchanged.
\<close>

theorem command_lookup_nocase:
  assumes "dict_ok (commandTableDictType seed) (\<lambda>k. 0 \<notin> set k) (map tolower) d" "dictSize d < 2 ^ 60"
    "0 \<notin> set name" "0 \<notin> set name'"
  shows "do { (d, new) \<leftarrow> dictReplace junk can_resize d name c; map_option snd (dictFetchValue d name') } =
    Some (if map tolower name' = map tolower name then Some c else dict_map (map tolower) d (map tolower name'))"
  using assms by (intro cmd.store.replace_then_find) (simp_all add: cmd.wf_def)

theorem command_lookup_nocase_witness:
  "do { (d, new) \<leftarrow> dictReplace 0 True (dictCreate (commandTableDictType seed0)) [0x67, 0x65, 0x74] (1 :: nat);
        map_option snd (dictFetchValue d [0x47, 0x45, 0x54]) } = Some (Some 1)"
  using command_lookup_nocase [where d = "dictCreate (commandTableDictType seed0)" and name = "[0x67, 0x65, 0x74]"
      and name' = "[0x47, 0x45, 0x54]" and junk = "0 :: nat" and can_resize = True and c = 1 and seed = seed0]
    cmd.dictCreate_wf [of seed0]
  by (simp add: cmd.wf_def tolower_def dictSize_def dictCreate_def dictInit_def)

text \<open>
  C31. In a dictionary keyed by string objects the encoding of a key does not matter: what is stored
  under an object is fetched under every object with the same text, be it a string or an integer.
\<close>

theorem encoded_key_lookup:
  assumes "dict_ok (objectKeyPointerValueDictType seed) long_obj obj_text d" "dictSize d < 2 ^ 60"
    "long_obj k" "long_obj k'"
  shows "do { (d, new) \<leftarrow> dictReplace junk can_resize d k v; map_option snd (dictFetchValue d k') } =
    Some (if obj_text k' = obj_text k then Some v else dict_map obj_text d (obj_text k'))"
  using assms by (intro encobj.store.replace_then_find) (simp_all add: encobj.wf_def)

theorem encoded_key_lookup_witness:
  "do { (d, new) \<leftarrow> dictReplace 0 True (dictCreate (objectKeyPointerValueDictType seed0)) (IntObj 12) (1 :: nat);
        map_option snd (dictFetchValue d (SdsObj [0x31, 0x32])) } = Some (Some 1)"
proof -
  have "decimal 12 = [0x31, 0x32]" by (simp add: decimal_def decimal_nat.simps [of 12] decimal_nat.simps [of "Suc 0"])
  then show ?thesis
    using encoded_key_lookup [where d = "dictCreate (objectKeyPointerValueDictType seed0)" and k = "IntObj 12"
      and k' = "SdsObj [0x31, 0x32]" and junk = "0 :: nat" and can_resize = True and v = 1 and seed = seed0]
    encobj.dictCreate_wf [of seed0]
  by (simp add: encobj.wf_def int64_range_def dictSize_def dictCreate_def dictInit_def)
qed

subsection \<open>Rehashing and iterating\<close>

lemma rehash_ms_loop_completes:
  assumes "dict_inv okkey canon d" "\<forall>now \<in> set clock. now - start \<le> ms"
    "nat (int (ht_size (ht0 d)) - rehashidx d) \<le> length clock"
  shows "\<exists>d' r. rehash_ms_loop d start ms clock k = Some (d', r) \<and> dict_inv okkey canon d' \<and>
    \<not> dictIsRehashing d' \<and> same_content d d'"
  using assms
proof (induction clock arbitrary: d k)
  case Nil
  obtain d' more where d': "dictRehash d 100 = Some (d', more)" "dict_inv okkey canon d'" "same_content d d'"
    "more = dictIsRehashing d'" "dictIsRehashing d' \<longrightarrow> ht_size (ht0 d') = ht_size (ht0 d) \<and> rehashidx d < rehashidx d'"
    using dictRehash_spec [OF Nil(1), of 100] by auto
  moreover have "\<not> dictIsRehashing d'"
    using d' Nil(3) by (auto simp: dict_inv_def)
  ultimately show ?case by auto
next
  case (Cons now clock)
  obtain d' more where d': "dictRehash d 100 = Some (d', more)" "dict_inv okkey canon d'" "same_content d d'"
    "more = dictIsRehashing d'" "dictIsRehashing d' \<longrightarrow> ht_size (ht0 d') = ht_size (ht0 d) \<and> rehashidx d < rehashidx d'"
    using dictRehash_spec [OF Cons.prems(1), of 100] by auto
  show ?case
  proof (cases "dictIsRehashing d'")
    case True
    then have "nat (int (ht_size (ht0 d')) - rehashidx d') \<le> length clock"
      using d'(5) Cons.prems(3) by (simp add: nat_le_iff)
    then obtain d'' r where "rehash_ms_loop d' start ms clock (k + 100) = Some (d'', r)" "dict_inv okkey canon d''"
      "\<not> dictIsRehashing d''" "same_content d' d''"
      using Cons.IH [OF d'(2)] Cons.prems(2) by fastforce
    then show ?thesis using d' True Cons.prems(2) same_content_trans [OF d'(3)] by auto
  qed (use d' in auto)
qed

text \<open>
  C27. As long as the clock stays within the time limit, \<open>dictRehashMilliseconds\<close> brings the rehashing
  of a dictionary that is not paused to its end, in at most as many rounds as the old table has
  buckets, and the dictionary still holds the same entries.
\<close>

theorem dictRehashMilliseconds_completes:
  assumes "dict_inv okkey canon d" "pauserehash d = 0" "\<forall>now \<in> set clock. now - start \<le> ms"
    "ht_size (ht0 d) < length clock"
  shows "\<exists>d' r. dictRehashMilliseconds d ms start clock = Some (d', r) \<and> \<not> dictIsRehashing d' \<and>
    dict_inv okkey canon d' \<and> mset (dict_entries d') = mset (dict_entries d)"
proof -
  have "- 1 \<le> rehashidx d" using assms(1) by (auto simp: dict_inv_def dictIsRehashing_def split: if_splits)
  then have "nat (int (ht_size (ht0 d)) - rehashidx d) \<le> length clock" using assms(4) by linarith
  from rehash_ms_loop_completes [OF assms(1,3) this, of 0] show ?thesis
    using assms(2) by (auto simp: dictRehashMilliseconds_def same_content_def)
qed

text \<open>The dictionary with one entry in the state right after an expansion to eight buckets.\<close>

definition dict1_expanded :: "(bytes, nat) dict" where
  "dict1_expanded = fst (dictExpand dict1 8)"

lemma dict1_expanded_facts:
  "dict_inv (\<lambda>_. True) (\<lambda>k. k) dict1_expanded" "dictIsRehashing dict1_expanded"
  "pauserehash dict1_expanded = 0" "ht_size (ht0 dict1_expanded) = 4"
proof -
  have np: "dictNextPower 8 = 8" by (simp add: dictNextPower_def next_power_loop.simps)
  have ne: "(replicate 4 [])[i := [x]] \<noteq> []" for i and x :: "(bytes, nat) dictEntry" by simp
  have "dictExpand dict1 8 = (dict1\<lparr>ht1 := \<lparr>table = replicate 8 [], ht_size = 8, sizemask = 7, used = 0\<rparr>,
      rehashidx := 0\<rparr>, DICT_OK)"
    using ne by (simp add: dictExpand_def dictExpand_gen_def np Let_def) (simp add: dict1_def dictIsRehashing_def)
  then show "dictIsRehashing dict1_expanded" "pauserehash dict1_expanded = 0" "ht_size (ht0 dict1_expanded) = 4"
    by (simp_all add: dict1_expanded_def dictIsRehashing_def dict1_def)
  have "\<not> dictIsRehashing dict1" "used (ht0 dict1) \<le> 8" "dictNextPower 8 \<noteq> ht_size (ht0 dict1)"
    by (simp_all add: np) (simp_all add: dict1_def dictIsRehashing_def)
  from dictExpand_spec [OF conjunct1 [OF dict1_ok] _ this] show "dict_inv (\<lambda>_. True) (\<lambda>k. k) dict1_expanded"
    by (auto simp: dict1_expanded_def)
qed

theorem dictRehashMilliseconds_completes_witness:
  "dictIsRehashing dict1_expanded \<and>
   (\<exists>d' r. dictRehashMilliseconds dict1_expanded 1 0 [1, 1, 1, 1, 1] = Some (d', r) \<and> \<not> dictIsRehashing d')"
  using dictRehashMilliseconds_completes [OF dict1_expanded_facts(1), of "[1, 1, 1, 1, 1]" 0 1] dict1_expanded_facts
  by auto

text \<open>
  C26. One call of \<open>dictRehash\<close> never fails, keeps the invariant and the entries, and answers whether
  there is more to do; if so, the position of the rehashing has advanced.
\<close>

theorem dictRehash_preserves:
  assumes "dict_inv okkey canon d" "0 < n"
  shows "\<exists>d' more. dictRehash d n = Some (d', more) \<and> dict_inv okkey canon d' \<and>
    mset (dict_entries d') = mset (dict_entries d) \<and> more = dictIsRehashing d' \<and>
    (more \<longrightarrow> rehashidx d < rehashidx d')"
  using dictRehash_spec [OF assms(1), of n] assms(2) by (auto simp: same_content_def)

theorem dictRehash_preserves_witness:
  "\<exists>d' more. dictRehash dict1_expanded 1 = Some (d', more) \<and>
    mset (dict_entries d') = mset (dict_entries dict1_expanded)"
  using dictRehash_preserves [OF dict1_expanded_facts(1), of 1] by auto

text \<open>
  C28. The guarantee of \<open>SCAN\<close>: a cursor iteration from 0 to 0, between whose calls the dictionary may
  have been resized, rehashed and changed in any way, reports every key that was in the dictionary
  at each of the calls.
\<close>

theorem dictScan_complete:
  assumes "scan_run ds 0 em"
    and "\<forall>d \<in> set ds. dict_ok ty okkey canon d \<and> key \<in> de_key ` set (dict_entries d)"
  shows "key \<in> de_key ` set em"
  using scan_run_covers [OF assms(1), of okkey canon ty key] assms(2) by simp

text \<open>
  C29. A cursor iteration over a dictionary that is not empty and does not change returns to the cursor
  0 after at most as many calls as the smaller table has buckets.
\<close>

theorem dictScan_terminates:
  assumes "dict_inv okkey canon d" "dictSize d \<noteq> 0"
  shows "\<exists>k em. 0 < k \<and> k \<le> scan_buckets d \<and> scan_run (replicate k d) 0 em"
  by (rule scan_run_unchanged [OF assms])

theorem dictScan_terminates_witness: "\<exists>k em. 0 < k \<and> k \<le> 4 \<and> scan_run (replicate k dict1) 0 em"
proof -
  have "scan_buckets dict1 = 4" by (simp add: scan_buckets_def dict1_def dictIsRehashing_def)
  then show ?thesis using dictScan_terminates [of "\<lambda>_. True" "\<lambda>k. k" dict1] dict1_ok dict1_map(2) by auto
qed

theorem dictScan_complete_witness:
  "\<exists>k em. scan_run (replicate k dict1) 0 em \<and> [1] \<in> de_key ` set em"
proof -
  obtain k em where run: "scan_run (replicate k dict1) 0 em"
    using scan_run_unchanged [of "\<lambda>_. True" "\<lambda>k. k" dict1] dict1_ok dict1_map(2) by auto
  have "\<forall>d \<in> set (replicate k dict1). dict_ok ty0 (\<lambda>_. True) (\<lambda>k. k) d \<and> [1] \<in> de_key ` set (dict_entries d)"
    using dict1_ok dict1_entries by auto
  from dictScan_complete [OF run this] run show ?thesis by blast
qed

end
