(* ===== verification/Server.thy ===== *)
theory Server
  imports Dict_Types "HOL-Library.Finite_Map"
begin

section \<open>The state of the server\<close>

text \<open>
  The part of \<open>struct redisServer\<close>, \<open>struct redisDb\<close> and \<open>struct client\<close> (\<open>server.h\<close>) that the
  commands on keys and strings use, and the helpers of \<open>object.c\<close>, \<open>server.c\<close> and \<open>networking.c\<close> that
  every command calls. The keyspace and the table of expiry times are finite maps: \<open>dict.c\<close> implements
  them by \<open>Dict_Types.dictAdd_refines\<close> and its companions. A client is a number, its connection state
  a record. A function that can fail an assertion has an option result.

  Left out of the state: the eviction fields of objects, the cluster index of slots to keys,
  notifications to modules, client-side caching, blocked clients, scripts and the statistics of
  commands. The value of a key that is not a string is opaque; a module value has the name of its type.
\<close>

subsection \<open>Objects\<close>

datatype objtype = OBJ_LIST | OBJ_SET | OBJ_ZSET | OBJ_HASH | OBJ_STREAM | OBJ_MODULE string

datatype robj = StringObj strobj | OtherObj objtype bytes

abbreviation OBJ_ENCODING_INT_LIMIT :: nat where "OBJ_ENCODING_INT_LIMIT \<equiv> 20"

definition tryObjectEncoding :: "bytes \<Rightarrow> strobj" where
  "tryObjectEncoding s =
    (if length s \<le> OBJ_ENCODING_INT_LIMIT then case string2l s of Some v \<Rightarrow> IntObj v | None \<Rightarrow> SdsObj s
     else SdsObj s)"

fun stringObjectLen :: "strobj \<Rightarrow> nat" where
  "stringObjectLen (SdsObj s) = length s"
| "stringObjectLen (IntObj v) = sdigits10 v"

text \<open>The missing object counts as 0.\<close>

fun getLongLongFromObject :: "strobj option \<Rightarrow> int option" where
  "getLongLongFromObject None = Some 0"
| "getLongLongFromObject (Some (SdsObj s)) = string2ll s"
| "getLongLongFromObject (Some (IntObj v)) = Some v"

definition createStringObjectFromLongLongForValue :: "int \<Rightarrow> strobj" where
  "createStringObjectFromLongLongForValue v = IntObj v"

definition getObjectTypeName :: "robj option \<Rightarrow> string" where
  "getObjectTypeName x =
    (case x of
       None \<Rightarrow> ''none''
     | Some (StringObj _) \<Rightarrow> ''string''
     | Some (OtherObj OBJ_LIST _) \<Rightarrow> ''list''
     | Some (OtherObj OBJ_SET _) \<Rightarrow> ''set''
     | Some (OtherObj OBJ_ZSET _) \<Rightarrow> ''zset''
     | Some (OtherObj OBJ_HASH _) \<Rightarrow> ''hash''
     | Some (OtherObj OBJ_STREAM _) \<Rightarrow> ''stream''
     | Some (OtherObj (OBJ_MODULE name) _) \<Rightarrow> name)"

text \<open>\<open>long long\<close> arithmetic that wraps.\<close>

definition wrap64 :: "int \<Rightarrow> int" where
  "wrap64 v = sint (word_of_int v :: u64)"

lemma wrap64_range [simp]: "int64_range (wrap64 v)"
  using sint_range_size [of "word_of_int v :: u64"] by (simp add: wrap64_def int64_range_def word_size)

lemma wrap64_id: "int64_range v \<Longrightarrow> wrap64 v = v"
  by (simp add: wrap64_def sint_word_of_int_u64)

subsection \<open>Clients, databases and the server\<close>

datatype reply =
  ROk | RQueued | RNull | RNullArray | RInt int | RBulk bytes | RStatus string | RArrayLen nat | RError string

record client =
  c_db :: nat
  c_master :: bool
  c_multi :: bool
  c_dirty_cas :: bool
  c_dirty_exec :: bool
  c_watched :: "(nat \<times> bytes) list"
  c_commands :: "(string \<times> bytes list) list"
  c_argv :: "bytes list"
  c_cmd :: string
  c_reply :: "reply list"

record redisDb =
  db_dict :: "(bytes, robj) fmap"
  db_expires :: "(bytes, int) fmap"
  db_watched_keys :: "(bytes, nat list) fmap"

datatype notify_class = NOTIFY_GENERIC | NOTIFY_STRING | NOTIFY_EXPIRED | NOTIFY_KEY_MISS

datatype pause_type = CLIENT_PAUSE_OFF | CLIENT_PAUSE_WRITE | CLIENT_PAUSE_ALL

text \<open>
  \<open>sv_mstime\<close> is the time cached at the start of a command and \<open>sv_clock\<close> what \<open>mstime()\<close> returns;
  the clock stands still while a request is processed. A pause of the clients is never started
  by a transaction that runs (\<open>client_pause_in_transaction\<close> is 0).
  \<open>sv_readonly_cmd\<close> says that the current client is not the link to the master and runs a
  read-only command. \<open>sv_propagated\<close> is the stream to the append only file and the replicas.
\<close>

record server =
  sv_db :: "redisDb list"
  sv_client :: "nat \<Rightarrow> client"
  sv_dirty :: int
  sv_mstime :: int
  sv_clock :: int
  sv_masterhost :: bool
  sv_loading :: bool
  sv_pause_type :: pause_type
  sv_readonly_cmd :: bool
  sv_cluster :: bool
  sv_in_exec :: bool
  sv_propagate_in_transaction :: bool
  sv_max_bulk :: int
  sv_lazy_expire :: bool
  sv_lazy_user_del :: bool
  sv_propagated :: "(nat \<times> bytes list) list"
  sv_notified :: "(notify_class \<times> string \<times> bytes \<times> nat) list"
  sv_expiredkeys :: nat
  sv_hits :: nat
  sv_misses :: nat

abbreviation sv_paused :: "server \<Rightarrow> bool" where
  "sv_paused s \<equiv> sv_pause_type s \<noteq> CLIENT_PAUSE_OFF"

text \<open>Access to one database and one client.\<close>

definition upd_db :: "nat \<Rightarrow> (redisDb \<Rightarrow> redisDb) \<Rightarrow> server \<Rightarrow> server" where
  "upd_db d f s = s\<lparr>sv_db := (sv_db s)[d := f (sv_db s ! d)]\<rparr>"

definition upd_client :: "nat \<Rightarrow> (client \<Rightarrow> client) \<Rightarrow> server \<Rightarrow> server" where
  "upd_client c f s = s\<lparr>sv_client := (sv_client s)(c := f (sv_client s c))\<rparr>"

abbreviation dict_of :: "server \<Rightarrow> nat \<Rightarrow> bytes \<Rightarrow> robj option" where
  "dict_of s d \<equiv> fmlookup (db_dict (sv_db s ! d))"

abbreviation expires_of :: "server \<Rightarrow> nat \<Rightarrow> bytes \<Rightarrow> int option" where
  "expires_of s d \<equiv> fmlookup (db_expires (sv_db s ! d))"

abbreviation watchers_of :: "server \<Rightarrow> nat \<Rightarrow> bytes \<Rightarrow> nat list option" where
  "watchers_of s d \<equiv> fmlookup (db_watched_keys (sv_db s ! d))"

definition dirty_add :: "int \<Rightarrow> server \<Rightarrow> server" where
  "dirty_add n s = s\<lparr>sv_dirty := sv_dirty s + n\<rparr>"

subsection \<open>Replies, notifications and propagation\<close>

definition addReply :: "nat \<Rightarrow> reply \<Rightarrow> server \<Rightarrow> server" where
  "addReply c r s = upd_client c (\<lambda>cl. cl\<lparr>c_reply := c_reply cl @ [r]\<rparr>) s"

abbreviation addReplyError :: "nat \<Rightarrow> string \<Rightarrow> server \<Rightarrow> server" where
  "addReplyError c e \<equiv> addReply c (RError e)"

abbreviation addReplyLongLong :: "nat \<Rightarrow> int \<Rightarrow> server \<Rightarrow> server" where
  "addReplyLongLong c n \<equiv> addReply c (RInt n)"

abbreviation addReplyBulk :: "nat \<Rightarrow> strobj \<Rightarrow> server \<Rightarrow> server" where
  "addReplyBulk c x \<equiv> addReply c (RBulk (getDecodedObject x))"

abbreviation (input) syntaxerr :: reply where "syntaxerr \<equiv> RError ''ERR syntax error''"
abbreviation (input) wrongtypeerr :: reply where
  "wrongtypeerr \<equiv> RError ''WRONGTYPE Operation against a key holding the wrong kind of value''"
abbreviation (input) notinteger :: string where "notinteger \<equiv> ''value is not an integer or out of range''"

text \<open>The check \<open>checkType (c, o, OBJ_STRING)\<close>: the string if the object is missing or a string.\<close>

datatype 'a checked = Wrong_type | Checked 'a

definition checkType_string :: "robj option \<Rightarrow> strobj option checked" where
  "checkType_string x =
    (case x of None \<Rightarrow> Checked None | Some (StringObj so) \<Rightarrow> Checked (Some so) | Some (OtherObj _ _) \<Rightarrow> Wrong_type)"

definition notifyKeyspaceEvent :: "notify_class \<Rightarrow> string \<Rightarrow> bytes \<Rightarrow> nat \<Rightarrow> server \<Rightarrow> server" where
  "notifyKeyspaceEvent cl ev key d s = s\<lparr>sv_notified := sv_notified s @ [(cl, ev, key, d)]\<rparr>"

definition rewriteClientCommandVector :: "nat \<Rightarrow> bytes list \<Rightarrow> server \<Rightarrow> server" where
  "rewriteClientCommandVector c argv s = upd_client c (\<lambda>cl. cl\<lparr>c_argv := argv\<rparr>) s"

definition beforePropagateMulti :: "server \<Rightarrow> server option" where
  "beforePropagateMulti s =
    (if sv_propagate_in_transaction s then None else Some (s\<lparr>sv_propagate_in_transaction := True\<rparr>))"

definition afterPropagateExec :: "server \<Rightarrow> server option" where
  "afterPropagateExec s =
    (if \<not> sv_propagate_in_transaction s then None else Some (s\<lparr>sv_propagate_in_transaction := False\<rparr>))"

definition feed :: "nat \<Rightarrow> bytes list \<Rightarrow> server \<Rightarrow> server option" where
  "feed d argv s = (if sv_paused s then None else Some (s\<lparr>sv_propagated := sv_propagated s @ [(d, argv)]\<rparr>))"

definition execCommandPropagateMulti :: "nat \<Rightarrow> server \<Rightarrow> server option" where
  "execCommandPropagateMulti d s = do { s \<leftarrow> beforePropagateMulti s; feed d [asc ''MULTI''] s }"

definition propagate :: "nat \<Rightarrow> bytes list \<Rightarrow> server \<Rightarrow> server option" where
  "propagate d argv s = do {
     s \<leftarrow> (if sv_in_exec s \<and> \<not> sv_propagate_in_transaction s then execCommandPropagateMulti d s else Some s);
     feed d argv s }"

text \<open>
  \<open>call\<close>: run the command with a fixed time and propagate it, as the command may have rewritten it,
  if it counted a change of the data set (\<open>CMD_CALL_PROPAGATE\<close> is set unless \<open>flags\<close> is \<open>CMD_CALL_NONE\<close>).
  No command of the model forces or prevents its propagation or uses \<open>alsoPropagate\<close>.
\<close>

datatype call_flags = CMD_CALL_NONE | CMD_CALL_FULL

definition call_propagate :: "int \<Rightarrow> call_flags \<Rightarrow> nat \<Rightarrow> server \<Rightarrow> server option" where
  "call_propagate dirty flags c s =
    (if flags = CMD_CALL_FULL \<and> dirty > 0 then propagate (c_db (sv_client s c)) (c_argv (sv_client s c)) s
     else Some s)"

definition call :: "(nat \<Rightarrow> server \<Rightarrow> server option) \<Rightarrow> call_flags \<Rightarrow> nat \<Rightarrow> server \<Rightarrow> server option" where
  "call pr flags c s = do {
     let dirty = sv_dirty s;
     let s = (if sv_in_exec s then s else s\<lparr>sv_mstime := sv_clock s\<rparr>);
     s \<leftarrow> pr c s;
     call_propagate (sv_dirty s - dirty) flags c s }"

subsection \<open>Watched keys (\<open>multi.c\<close>)\<close>

definition touchWatchedKey :: "nat \<Rightarrow> bytes \<Rightarrow> server \<Rightarrow> server" where
  "touchWatchedKey d key s =
    (case watchers_of s d key of
       None \<Rightarrow> s
     | Some cs \<Rightarrow> fold (\<lambda>c. upd_client c (\<lambda>cl. cl\<lparr>c_dirty_cas := True\<rparr>)) cs s)"

definition signalModifiedKey :: "nat \<Rightarrow> bytes \<Rightarrow> server \<Rightarrow> server" where
  "signalModifiedKey d key s = touchWatchedKey d key s"

subsection \<open>The start of the server (\<open>server.c\<close>, \<open>networking.c\<close>)\<close>

definition createClient :: client where
  "createClient = \<lparr>c_db = 0, c_master = False, c_multi = False, c_dirty_cas = False, c_dirty_exec = False,
     c_watched = [], c_commands = [], c_argv = [], c_cmd = '''', c_reply = []\<rparr>"

definition initServer :: "nat \<Rightarrow> server \<Rightarrow> server" where
  "initServer dbnum s =
    s\<lparr>sv_db := replicate dbnum \<lparr>db_dict = fmempty, db_expires = fmempty, db_watched_keys = fmempty\<rparr>,
      sv_client := (\<lambda>_. createClient), sv_dirty := 0, sv_pause_type := CLIENT_PAUSE_OFF,
      sv_in_exec := False, sv_propagate_in_transaction := False\<rparr>"

end
