(* ===== verification/Db.thy ===== *)
theory Db
  imports Server
begin

section \<open>The keyspace (\<open>db.c\<close>)\<close>

text \<open>
  Models the access functions of \<open>redis/redis-6.2.7/src/db.c\<close> (lookup, add, overwrite, delete, expiry)
  and its commands on whole keys. Deletion in the background (\<open>lazyfree.c\<close>) removes the same entries
  as \<open>dbSyncDelete\<close>, so the lazy-free options are not distinguished.
\<close>

subsection \<open>Expiry\<close>

definition getExpire :: "nat \<Rightarrow> bytes \<Rightarrow> server \<Rightarrow> int option" where
  "getExpire d key s =
    (case expires_of s d key of
       None \<Rightarrow> Some (- 1)
     | Some t \<Rightarrow> if dict_of s d key \<noteq> None then Some t else None)"

definition keyIsExpired :: "nat \<Rightarrow> bytes \<Rightarrow> server \<Rightarrow> bool option" where
  "keyIsExpired d key s = do {
     w \<leftarrow> getExpire d key s;
     if w < 0 then Some False
     else if sv_loading s then Some False
     else Some (sv_mstime s > w) }"

definition removeExpire :: "nat \<Rightarrow> bytes \<Rightarrow> server \<Rightarrow> (server \<times> bool) option" where
  "removeExpire d key s =
    (if dict_of s d key = None then None
     else Some (upd_db d (\<lambda>db. db\<lparr>db_expires := fmdrop key (db_expires db)\<rparr>) s, expires_of s d key \<noteq> None))"

definition setExpire :: "nat \<Rightarrow> bytes \<Rightarrow> int \<Rightarrow> server \<Rightarrow> server option" where
  "setExpire d key w s =
    (if dict_of s d key = None then None
     else Some (upd_db d (\<lambda>db. db\<lparr>db_expires := fmupd key w (db_expires db)\<rparr>) s))"

definition dbSyncDelete :: "nat \<Rightarrow> bytes \<Rightarrow> server \<Rightarrow> server \<times> bool" where
  "dbSyncDelete d key s =
    (upd_db d (\<lambda>db. db\<lparr>db_expires := fmdrop key (db_expires db), db_dict := fmdrop key (db_dict db)\<rparr>) s,
     dict_of s d key \<noteq> None)"

abbreviation dbDelete :: "nat \<Rightarrow> bytes \<Rightarrow> server \<Rightarrow> server \<times> bool" where
  "dbDelete \<equiv> dbSyncDelete"

definition propagateExpire :: "nat \<Rightarrow> bytes \<Rightarrow> server \<Rightarrow> server option" where
  "propagateExpire d key s = propagate d [if sv_lazy_expire s then asc ''UNLINK'' else asc ''DEL'', key] s"

definition deleteExpiredKeyAndPropagate :: "nat \<Rightarrow> bytes \<Rightarrow> server \<Rightarrow> server option" where
  "deleteExpiredKeyAndPropagate d key s = do {
     let s = fst (dbSyncDelete d key s);
     let s = notifyKeyspaceEvent NOTIFY_EXPIRED ''expired'' key d s;
     let s = signalModifiedKey d key s;
     s \<leftarrow> propagateExpire d key s;
     Some (s\<lparr>sv_expiredkeys := Suc (sv_expiredkeys s)\<rparr>) }"

definition expireIfNeeded :: "nat \<Rightarrow> bytes \<Rightarrow> server \<Rightarrow> (server \<times> bool) option" where
  "expireIfNeeded d key s = do {
     e \<leftarrow> keyIsExpired d key s;
     if \<not> e then Some (s, False)
     else if sv_masterhost s then Some (s, True)
     else if sv_paused s then Some (s, True)
     else do { s \<leftarrow> deleteExpiredKeyAndPropagate d key s; Some (s, True) } }"

subsection \<open>Lookup\<close>

definition lookupKey :: "nat \<Rightarrow> bytes \<Rightarrow> server \<Rightarrow> robj option" where
  "lookupKey d key s = dict_of s d key"

definition keymiss :: "nat \<Rightarrow> bytes \<Rightarrow> server \<Rightarrow> server" where
  "keymiss d key s =
    (let s = notifyKeyspaceEvent NOTIFY_KEY_MISS ''keymiss'' key d s in s\<lparr>sv_misses := Suc (sv_misses s)\<rparr>)"

text \<open>
  The only flag that the commands of the model pass, \<open>LOOKUP_NOTOUCH\<close>, concerns the access time, which
  is not part of the model.
\<close>

definition lookupKeyReadWithFlags :: "nat \<Rightarrow> bytes \<Rightarrow> server \<Rightarrow> (server \<times> robj option) option" where
  "lookupKeyReadWithFlags d key s = do {
     (s, e) \<leftarrow> expireIfNeeded d key s;
     if e \<and> (\<not> sv_masterhost s \<or> sv_readonly_cmd s) then Some (keymiss d key s, None)
     else case lookupKey d key s of
         None \<Rightarrow> Some (keymiss d key s, None)
       | Some v \<Rightarrow> Some (s\<lparr>sv_hits := Suc (sv_hits s)\<rparr>, Some v) }"

definition lookupKeyRead :: "nat \<Rightarrow> bytes \<Rightarrow> server \<Rightarrow> (server \<times> robj option) option" where
  "lookupKeyRead d key s = lookupKeyReadWithFlags d key s"

definition lookupKeyWrite :: "nat \<Rightarrow> bytes \<Rightarrow> server \<Rightarrow> (server \<times> robj option) option" where
  "lookupKeyWrite d key s = do {
     (s, e) \<leftarrow> expireIfNeeded d key s;
     Some (s, lookupKey d key s) }"

definition lookupKeyReadOrReply :: "nat \<Rightarrow> bytes \<Rightarrow> reply \<Rightarrow> server \<Rightarrow> (server \<times> robj option) option" where
  "lookupKeyReadOrReply c key r s = do {
     (s, x) \<leftarrow> lookupKeyRead (c_db (sv_client s c)) key s;
     Some (if x = None then addReply c r s else s, x) }"

definition lookupKeyWriteOrReply :: "nat \<Rightarrow> bytes \<Rightarrow> reply \<Rightarrow> server \<Rightarrow> (server \<times> robj option) option" where
  "lookupKeyWriteOrReply c key r s = do {
     (s, x) \<leftarrow> lookupKeyWrite (c_db (sv_client s c)) key s;
     Some (if x = None then addReply c r s else s, x) }"

subsection \<open>Writing\<close>

definition dbAdd :: "nat \<Rightarrow> bytes \<Rightarrow> robj \<Rightarrow> server \<Rightarrow> server option" where
  "dbAdd d key v s =
    (if dict_of s d key \<noteq> None then None
     else Some (upd_db d (\<lambda>db. db\<lparr>db_dict := fmupd key v (db_dict db)\<rparr>) s))"

definition dbOverwrite :: "nat \<Rightarrow> bytes \<Rightarrow> robj \<Rightarrow> server \<Rightarrow> server option" where
  "dbOverwrite d key v s =
    (if dict_of s d key = None then None
     else Some (upd_db d (\<lambda>db. db\<lparr>db_dict := fmupd key v (db_dict db)\<rparr>) s))"

text \<open>An object that is modified in place: the same entry, a new content.\<close>

definition setObject :: "nat \<Rightarrow> bytes \<Rightarrow> robj \<Rightarrow> server \<Rightarrow> server option" where
  "setObject = dbOverwrite"

definition genericSetKey :: "nat \<Rightarrow> bytes \<Rightarrow> robj \<Rightarrow> bool \<Rightarrow> bool \<Rightarrow> server \<Rightarrow> server option" where
  "genericSetKey d key v keepttl signal s = do {
     (s, x) \<leftarrow> lookupKeyWrite d key s;
     s \<leftarrow> (if x = None then dbAdd d key v s else dbOverwrite d key v s);
     s \<leftarrow> (if \<not> keepttl then map_option fst (removeExpire d key s) else Some s);
     Some (if signal then signalModifiedKey d key s else s) }"

definition setKey :: "nat \<Rightarrow> bytes \<Rightarrow> robj \<Rightarrow> server \<Rightarrow> server option" where
  "setKey d key v s = genericSetKey d key v False True s"

definition dbUnshareStringValue :: "nat \<Rightarrow> bytes \<Rightarrow> strobj \<Rightarrow> server \<Rightarrow> (server \<times> bytes) option" where
  "dbUnshareStringValue d key x s = do {
     let decoded = getDecodedObject x;
     s \<leftarrow> dbOverwrite d key (StringObj (SdsObj decoded)) s;
     Some (s, decoded) }"

subsection \<open>Flushing\<close>

text \<open>The walk over all watched keys of a database and over the clients of each.\<close>

definition touchAllWatchedKeysInDb :: "nat \<Rightarrow> nat option \<Rightarrow> server \<Rightarrow> server" where
  "touchAllWatchedKeysInDb emptied replaced_with s =
    (let touched = (\<lambda>key. dict_of s emptied key \<noteq> None \<or>
       (case replaced_with of None \<Rightarrow> False | Some d \<Rightarrow> dict_of s d key \<noteq> None))
     in s\<lparr>sv_client := (\<lambda>c.
       if \<exists>key \<in> fset (fmdom (db_watched_keys (sv_db s ! emptied))).
            touched key \<and> c \<in> set (the (watchers_of s emptied key))
       then (sv_client s c)\<lparr>c_dirty_cas := True\<rparr> else sv_client s c)\<rparr>)"

text \<open>The databases named by a database number, -1 standing for all of them.\<close>

definition db_range :: "int \<Rightarrow> server \<Rightarrow> nat list" where
  "db_range dbnum s = (if dbnum = - 1 then [0..<length (sv_db s)] else [nat dbnum])"

definition signalFlushedDb :: "int \<Rightarrow> server \<Rightarrow> server" where
  "signalFlushedDb dbid s = fold (\<lambda>d. touchAllWatchedKeysInDb d None) (db_range dbid s) s"

definition dictSize_of :: "server \<Rightarrow> nat \<Rightarrow> int" where
  "dictSize_of s d = int (fcard (fmdom (db_dict (sv_db s ! d))))"

definition emptyDbStructure :: "int \<Rightarrow> server \<Rightarrow> server \<times> int" where
  "emptyDbStructure dbnum s =
    fold (\<lambda>d (s, removed). (upd_db d (\<lambda>db. db\<lparr>db_dict := fmempty, db_expires := fmempty\<rparr>) s, removed + dictSize_of s d))
      (db_range dbnum s) (s, 0)"

definition emptyDb :: "int \<Rightarrow> server \<Rightarrow> server \<times> int" where
  "emptyDb dbnum s =
    (if dbnum < - 1 \<or> dbnum \<ge> int (length (sv_db s)) then (s, - 1)
     else emptyDbStructure dbnum (signalFlushedDb dbnum s))"

subsection \<open>Commands\<close>

abbreviation arg :: "server \<Rightarrow> nat \<Rightarrow> nat \<Rightarrow> bytes" where
  "arg s c i \<equiv> c_argv (sv_client s c) ! i"

abbreviation argc :: "server \<Rightarrow> nat \<Rightarrow> nat" where
  "argc s c \<equiv> length (c_argv (sv_client s c))"

definition ci_eq :: "bytes \<Rightarrow> string \<Rightarrow> bool" where
  "ci_eq x name = strcasecmp_eq x (asc name)"

definition getFlushCommandFlags :: "nat \<Rightarrow> server \<Rightarrow> bool" where
  "getFlushCommandFlags c s =
    (if argc s c = 2 \<and> ci_eq (arg s c 1) ''sync'' then True
     else if argc s c = 2 \<and> ci_eq (arg s c 1) ''async'' then True
     else argc s c = 1)"

definition flushdbCommand :: "nat \<Rightarrow> server \<Rightarrow> server option" where
  "flushdbCommand c s =
    (if \<not> getFlushCommandFlags c s then Some (addReply c syntaxerr s)
     else let (s, removed) = emptyDb (int (c_db (sv_client s c))) s
          in Some (addReply c ROk (dirty_add removed s)))"

text \<open>\<open>FLUSHALL\<close> without the RDB file that it saves when save points are configured.\<close>

definition flushAllData :: "server \<Rightarrow> server" where
  "flushAllData s = (let (s, removed) = emptyDb (- 1) s in dirty_add 1 (dirty_add removed s))"

definition flushallCommand :: "nat \<Rightarrow> server \<Rightarrow> server option" where
  "flushallCommand c s =
    (if \<not> getFlushCommandFlags c s then Some (addReply c syntaxerr s)
     else Some (addReply c ROk (flushAllData s)))"

fun del_loop :: "nat \<Rightarrow> bytes list \<Rightarrow> server \<Rightarrow> int \<Rightarrow> (server \<times> int) option" where
  "del_loop d [] s numdel = Some (s, numdel)"
| "del_loop d (key # keys) s numdel = do {
     (s, e) \<leftarrow> expireIfNeeded d key s;
     let (s, deleted) = dbSyncDelete d key s;
     if deleted then do {
       let s = signalModifiedKey d key s;
       let s = notifyKeyspaceEvent NOTIFY_GENERIC ''del'' key d s;
       del_loop d keys (dirty_add 1 s) (numdel + 1) }
     else del_loop d keys s numdel }"

definition delGenericCommand :: "nat \<Rightarrow> server \<Rightarrow> server option" where
  "delGenericCommand c s = do {
     (s, numdel) \<leftarrow> del_loop (c_db (sv_client s c)) (tl (c_argv (sv_client s c))) s 0;
     Some (addReplyLongLong c numdel s) }"

fun exists_loop :: "nat \<Rightarrow> bytes list \<Rightarrow> server \<Rightarrow> int \<Rightarrow> (server \<times> int) option" where
  "exists_loop d [] s n = Some (s, n)"
| "exists_loop d (key # keys) s n = do {
     (s, x) \<leftarrow> lookupKeyReadWithFlags d key s;
     exists_loop d keys s (if x \<noteq> None then n + 1 else n) }"

definition existsCommand :: "nat \<Rightarrow> server \<Rightarrow> server option" where
  "existsCommand c s = do {
     (s, n) \<leftarrow> exists_loop (c_db (sv_client s c)) (tl (c_argv (sv_client s c))) s 0;
     Some (addReplyLongLong c n s) }"

text \<open>\<open>getLongFromObjectOrReply\<close> and its relatives on an argument; \<open>long\<close> has 64 bits.\<close>

definition getLongLongArg :: "bytes \<Rightarrow> int option" where
  "getLongLongArg x = getLongLongFromObject (Some (SdsObj x))"

definition getIntArg :: "bytes \<Rightarrow> (string, int) sum" where
  "getIntArg x =
    (case getLongLongArg x of
       None \<Rightarrow> Inl notinteger
     | Some v \<Rightarrow> if v < - (2 ^ 31) \<or> v > 2 ^ 31 - 1
                 then Inl ''value is out of range, value must between -2147483648 and 2147483647''
                 else Inr v)"

definition selectDb :: "nat \<Rightarrow> int \<Rightarrow> server \<Rightarrow> server option" where
  "selectDb c i s =
    (if i < 0 \<or> i \<ge> int (length (sv_db s)) then None
     else Some (upd_client c (\<lambda>cl. cl\<lparr>c_db := nat i\<rparr>) s))"

definition selectCommand :: "nat \<Rightarrow> server \<Rightarrow> server option" where
  "selectCommand c s =
    (case getIntArg (arg s c 1) of
       Inl e \<Rightarrow> Some (addReplyError c e s)
     | Inr i \<Rightarrow>
         if sv_cluster s \<and> i \<noteq> 0 then Some (addReplyError c ''SELECT is not allowed in cluster mode'' s)
         else case selectDb c i s of
             None \<Rightarrow> Some (addReplyError c ''DB index is out of range'' s)
           | Some s \<Rightarrow> Some (addReply c ROk s))"

definition dbsizeCommand :: "nat \<Rightarrow> server \<Rightarrow> server option" where
  "dbsizeCommand c s = Some (addReplyLongLong c (dictSize_of s (c_db (sv_client s c))) s)"

definition typeCommand :: "nat \<Rightarrow> server \<Rightarrow> server option" where
  "typeCommand c s = do {
     (s, x) \<leftarrow> lookupKeyReadWithFlags (c_db (sv_client s c)) (arg s c 1) s;
     Some (addReply c (RStatus (getObjectTypeName x)) s) }"

definition renameGenericCommand :: "bool \<Rightarrow> nat \<Rightarrow> server \<Rightarrow> server option" where
  "renameGenericCommand nx c s = do {
     let d = c_db (sv_client s c);
     let src = arg s c 1;
     let dst = arg s c 2;
     let samekey = (src = dst);
     (s, x) \<leftarrow> lookupKeyWriteOrReply c src (RError ''ERR no such key'') s;
     case x of
       None \<Rightarrow> Some s
     | Some v \<Rightarrow>
         if samekey then Some (addReply c (if nx then RInt 0 else ROk) s)
         else do {
           expire \<leftarrow> getExpire d src s;
           (s, y) \<leftarrow> lookupKeyWrite d dst s;
           if y \<noteq> None \<and> nx then Some (addReply c (RInt 0) s)
           else do {
             let s = (if y \<noteq> None then fst (dbDelete d dst s) else s);
             s \<leftarrow> dbAdd d dst v s;
             s \<leftarrow> (if expire \<noteq> - 1 then setExpire d dst expire s else Some s);
             let s = fst (dbDelete d src s);
             let s = signalModifiedKey d src s;
             let s = signalModifiedKey d dst s;
             let s = notifyKeyspaceEvent NOTIFY_GENERIC ''rename_from'' src d s;
             let s = notifyKeyspaceEvent NOTIFY_GENERIC ''rename_to'' dst d s;
             Some (addReply c (if nx then RInt 1 else ROk) (dirty_add 1 s)) } } }"

definition moveCommand :: "nat \<Rightarrow> server \<Rightarrow> server option" where
  "moveCommand c s =
    (if sv_cluster s then Some (addReplyError c ''MOVE is not allowed in cluster mode'' s)
     else let src = c_db (sv_client s c); key = arg s c 1 in
       case getIntArg (arg s c 2) of
         Inl e \<Rightarrow> Some (addReplyError c e s)
       | Inr dbid \<Rightarrow>
           if selectDb c dbid s = None then Some (addReplyError c ''DB index is out of range'' s)
           else let dst = nat dbid in
             if src = dst then Some (addReplyError c ''ERR source and destination objects are the same'' s)
             else do {
               (s, x) \<leftarrow> lookupKeyWrite src key s;
               case x of
                 None \<Rightarrow> Some (addReply c (RInt 0) s)
               | Some v \<Rightarrow> do {
                   expire \<leftarrow> getExpire src key s;
                   (s, y) \<leftarrow> lookupKeyWrite dst key s;
                   if y \<noteq> None then Some (addReply c (RInt 0) s)
                   else do {
                     s \<leftarrow> dbAdd dst key v s;
                     s \<leftarrow> (if expire \<noteq> - 1 then setExpire dst key expire s else Some s);
                     let s = fst (dbDelete src key s);
                     let s = signalModifiedKey src key s;
                     let s = signalModifiedKey dst key s;
                     let s = notifyKeyspaceEvent NOTIFY_GENERIC ''move_from'' key src s;
                     let s = notifyKeyspaceEvent NOTIFY_GENERIC ''move_to'' key dst s;
                     Some (addReply c (RInt 1) (dirty_add 1 s)) } } })"

text \<open>The options of \<open>COPY\<close>: the target database and whether to replace, or an error reply.\<close>

fun copy_options :: "bytes list \<Rightarrow> nat \<Rightarrow> nat \<Rightarrow> bool \<Rightarrow> (reply, nat \<times> bool) sum" where
  "copy_options [] dbnum dst replace = Inr (dst, replace)"
| "copy_options (x # xs) dbnum dst replace =
    (if ci_eq x ''replace'' then copy_options xs dbnum dst True
     else if ci_eq x ''db'' then
       (case xs of
          [] \<Rightarrow> Inl syntaxerr
        | y # ys \<Rightarrow>
            (case getIntArg y of
               Inl e \<Rightarrow> Inl (RError e)
             | Inr i \<Rightarrow> if i < 0 \<or> i \<ge> int dbnum then Inl (RError ''DB index is out of range'')
                        else copy_options ys dbnum (nat i) replace))
     else Inl syntaxerr)"

text \<open>
  The copy of an object has the same value. The copy callback of a module type, if the type has one,
  is the parameter \<open>mt_copy\<close>.
\<close>

type_synonym module_copy = "string \<Rightarrow> (bytes \<Rightarrow> bytes \<Rightarrow> bytes \<Rightarrow> bytes option) option"

definition moduleTypeDupOrReply :: "module_copy \<Rightarrow> bytes \<Rightarrow> bytes \<Rightarrow> string \<Rightarrow> bytes \<Rightarrow> (string, robj) sum" where
  "moduleTypeDupOrReply mt_copy fromkey tokey name m =
    (case mt_copy name of
       None \<Rightarrow> Inl ''not supported for this module key''
     | Some copy \<Rightarrow>
         (case copy fromkey tokey m of
            None \<Rightarrow> Inl ''module key failed to copy''
          | Some newval \<Rightarrow> Inr (OtherObj (OBJ_MODULE name) newval)))"

definition dupObject :: "module_copy \<Rightarrow> bytes \<Rightarrow> bytes \<Rightarrow> robj \<Rightarrow> (string, robj) sum" where
  "dupObject mt_copy fromkey tokey v =
    (case v of
       OtherObj (OBJ_MODULE name) m \<Rightarrow> moduleTypeDupOrReply mt_copy fromkey tokey name m
     | _ \<Rightarrow> Inr v)"

definition copyCommand :: "module_copy \<Rightarrow> nat \<Rightarrow> server \<Rightarrow> server option" where
  "copyCommand mt_copy c s =
    (let src = c_db (sv_client s c); key = arg s c 1; newkey = arg s c 2 in
     case copy_options (drop 3 (c_argv (sv_client s c))) (length (sv_db s)) src False of
       Inl r \<Rightarrow> Some (addReply c r s)
     | Inr (dst, replace) \<Rightarrow>
         if sv_cluster s \<and> (src \<noteq> 0 \<or> dst \<noteq> 0)
         then Some (addReplyError c ''Copying to another database is not allowed in cluster mode'' s)
         else if src = dst \<and> key = newkey
         then Some (addReplyError c ''ERR source and destination objects are the same'' s)
         else do {
           (s, x) \<leftarrow> lookupKeyWrite src key s;
           case x of
             None \<Rightarrow> Some (addReply c (RInt 0) s)
           | Some v \<Rightarrow> do {
               expire \<leftarrow> getExpire src key s;
               (s, y) \<leftarrow> lookupKeyWrite dst newkey s;
               if y \<noteq> None \<and> \<not> replace then Some (addReply c (RInt 0) s)
               else case dupObject mt_copy key newkey v of
                 Inl e \<Rightarrow> Some (addReplyError c e s)
               | Inr newobj \<Rightarrow> do {
                 let s = (if y \<noteq> None then fst (dbDelete dst newkey s) else s);
                 s \<leftarrow> dbAdd dst newkey newobj s;
                 s \<leftarrow> (if expire \<noteq> - 1 then setExpire dst newkey expire s else Some s);
                 let s = signalModifiedKey dst newkey s;
                 let s = notifyKeyspaceEvent NOTIFY_GENERIC ''copy_to'' newkey dst s;
                 Some (addReply c (RInt 1) (dirty_add 1 s)) } } })"

definition dbSwapDatabases :: "int \<Rightarrow> int \<Rightarrow> server \<Rightarrow> server option" where
  "dbSwapDatabases id1 id2 s =
    (if id1 < 0 \<or> id1 \<ge> int (length (sv_db s)) \<or> id2 < 0 \<or> id2 \<ge> int (length (sv_db s)) then None
     else if id1 = id2 then Some s
     else
       (let i = nat id1; j = nat id2; aux = sv_db s ! i; db2 = sv_db s ! j;
            s = upd_db i (\<lambda>db. db\<lparr>db_dict := db_dict db2, db_expires := db_expires db2\<rparr>) s;
            s = upd_db j (\<lambda>db. db\<lparr>db_dict := db_dict aux, db_expires := db_expires aux\<rparr>) s
        in Some (touchAllWatchedKeysInDb j (Some i) (touchAllWatchedKeysInDb i (Some j) s))))"

definition swapdbCommand :: "nat \<Rightarrow> server \<Rightarrow> server option" where
  "swapdbCommand c s =
    (if sv_cluster s then Some (addReplyError c ''SWAPDB is not allowed in cluster mode'' s)
     else case getIntArg (arg s c 1) of
         Inl e \<Rightarrow> Some (addReplyError c ''invalid first DB index'' s)
       | Inr id1 \<Rightarrow>
           case getIntArg (arg s c 2) of
             Inl e \<Rightarrow> Some (addReplyError c ''invalid second DB index'' s)
           | Inr id2 \<Rightarrow>
               case dbSwapDatabases id1 id2 s of
                 None \<Rightarrow> Some (addReplyError c ''DB index is out of range'' s)
               | Some s \<Rightarrow> Some (addReply c ROk (dirty_add 1 s)))"

end
