(* ===== verification/Db_Logic.thy ===== *)
theory Db_Logic
  imports Db "HOL-Library.Sublist"
begin

section \<open>Reasoning about commands\<close>

text \<open>
  The invariant of the keyspace, and the relation \<open>tracked\<close> between the state before a command and a
  state during the command: what has changed, which of the changes are still to be announced to the
  clients that watch the keys, and whether the change has been recorded for replication. Every
  primitive of \<open>Db\<close> has one rule for \<open>tracked\<close>; the rules run backwards over the final state of a
  command. The locales \<open>frame\<close>, \<open>quiet\<close> and \<open>keyspace_frame\<close> collect what an operation leaves alone.
\<close>

named_theorems tracked_intro \<open>rules for the relation tracked\<close>
named_theorems exec_simps \<open>symbolic execution of commands\<close>

subsection \<open>Invariants\<close>

fun obj_ok :: "robj \<Rightarrow> bool" where
  "obj_ok (StringObj x) = long_obj x"
| "obj_ok (OtherObj t v) = True"

definition db_ok :: "redisDb \<Rightarrow> bool" where
  "db_ok db \<longleftrightarrow> fmdom (db_expires db) |\<subseteq>| fmdom (db_dict db) \<and> fmpred (\<lambda>k v. obj_ok v) (db_dict db)"

definition srv_ok :: "server \<Rightarrow> bool" where
  "srv_ok s \<longleftrightarrow> list_all db_ok (sv_db s) \<and> (\<forall>c. c_db (sv_client s c) < length (sv_db s))"

text \<open>What a client sees of a key, and the clients that watch it.\<close>

definition content :: "server \<Rightarrow> nat \<Rightarrow> bytes \<Rightarrow> robj option \<times> int option" where
  "content s d k = (dict_of s d k, expires_of s d k)"

definition watching :: "server \<Rightarrow> nat \<Rightarrow> bytes \<Rightarrow> nat set" where
  "watching s d k = (case watchers_of s d k of None \<Rightarrow> {} | Some cs \<Rightarrow> set cs)"

text \<open>The parts of the state that no command on data changes.\<close>

definition txn :: "client \<Rightarrow> bool \<times> bool \<times> bool \<times> (nat \<times> bytes) list \<times> (string \<times> bytes list) list" where
  "txn cl = (c_master cl, c_multi cl, c_dirty_exec cl, c_watched cl, c_commands cl)"

definition conf :: "server \<Rightarrow> (int \<times> int \<times> int) \<times> (bool \<times> bool \<times> bool \<times> bool \<times> bool) \<times> pause_type" where
  "conf s = ((sv_mstime s, sv_clock s, sv_max_bulk s),
    (sv_masterhost s, sv_loading s, sv_cluster s, sv_in_exec s, sv_readonly_cmd s), sv_pause_type s)"

subsection \<open>The relation \<open>tracked\<close>\<close>

definition changed :: "server \<Rightarrow> server \<Rightarrow> nat \<Rightarrow> bytes \<Rightarrow> bool" where
  "changed s0 s d k \<longleftrightarrow> d < length (sv_db s0) \<and> content s d k \<noteq> content s0 d k"

definition recorded :: "server \<Rightarrow> server \<Rightarrow> bool" where
  "recorded s0 s \<longleftrightarrow> sv_dirty s0 < sv_dirty s \<or> length (sv_propagated s0) < length (sv_propagated s)"

text \<open>
  The stream of propagated commands only grows (it stays as it is while the clients are paused), and the first command that is propagated by a running
  transaction is preceded by \<open>MULTI\<close>.
\<close>

definition stream :: "server \<Rightarrow> server \<Rightarrow> bool" where
  "stream s0 s \<longleftrightarrow>
    prefix (sv_propagated s0) (sv_propagated s) \<and>
    (sv_paused s0 \<longrightarrow> sv_propagated s = sv_propagated s0) \<and>
    (if sv_in_exec s0 \<and> \<not> sv_propagate_in_transaction s0
     then if sv_propagate_in_transaction s
          then \<exists>d xs. sv_propagated s = sv_propagated s0 @ (d, [asc ''MULTI'']) # xs
          else sv_propagated s = sv_propagated s0
     else sv_propagate_in_transaction s = sv_propagate_in_transaction s0)"

lemma stream_same:
  "sv_propagated s = sv_propagated s0 \<Longrightarrow> sv_propagate_in_transaction s = sv_propagate_in_transaction s0 \<Longrightarrow> stream s0 s"
  by (simp add: stream_def)

lemma stream_trans:
  assumes "stream s0 s" and "stream s s'" and "conf s = conf s0"
  shows "stream s0 s'"
  using assms by (auto simp: stream_def prefix_def conf_def split: if_splits)

lemma stream_length: "stream s0 s \<Longrightarrow> length (sv_propagated s0) \<le> length (sv_propagated s)"
  by (auto simp: stream_def prefix_def)

definition tracked :: "server \<Rightarrow> (nat \<times> bytes) set \<Rightarrow> bool \<Rightarrow> server \<Rightarrow> bool" where
  "tracked s0 P m s \<longleftrightarrow>
    srv_ok s \<and> length (sv_db s) = length (sv_db s0) \<and> conf s = conf s0 \<and>
    (\<forall>d < length (sv_db s0). db_watched_keys (sv_db s ! d) = db_watched_keys (sv_db s0 ! d)) \<and>
    (\<forall>c. txn (sv_client s c) = txn (sv_client s0 c) \<and>
         (c_dirty_cas (sv_client s0 c) \<longrightarrow> c_dirty_cas (sv_client s c))) \<and>
    sv_dirty s0 \<le> sv_dirty s \<and> stream s0 s \<and>
    (\<forall>d k. changed s0 s d k \<longrightarrow> (d, k) \<in> P \<or> (\<forall>c \<in> watching s0 d k. c_dirty_cas (sv_client s c))) \<and>
    (\<forall>d k. changed s0 s d k \<longrightarrow> m \<or> recorded s0 s)"

lemma tracked_refl [tracked_intro]: "srv_ok s \<Longrightarrow> tracked s P m s"
  by (simp add: tracked_def changed_def stream_same)

lemma tracked_stream: "tracked s0 P m s \<Longrightarrow> stream s0 s"
  by (simp add: tracked_def)

lemma tracked_conf: "tracked s0 P m s \<Longrightarrow> conf s = conf s0"
  by (simp add: tracked_def)

lemma tracked_in_exec: "tracked s0 P m s \<Longrightarrow> sv_in_exec s = sv_in_exec s0"
  by (simp add: tracked_def conf_def)

lemma tracked_mono: "tracked s0 P m s \<Longrightarrow> P \<subseteq> P' \<Longrightarrow> (m \<Longrightarrow> m') \<Longrightarrow> tracked s0 P' m' s"
  unfolding tracked_def by blast

lemma tracked_weaken: "tracked s0 {} False s \<Longrightarrow> tracked s0 P m s"
  by (erule tracked_mono) simp_all

lemma tracked_ok: "tracked s0 P m s \<Longrightarrow> srv_ok s"
  by (simp add: tracked_def)

lemma tracked_changed:
  "tracked s0 P m s \<Longrightarrow> changed s0 s d k \<Longrightarrow> (d, k) \<in> P \<or> (\<forall>c \<in> watching s0 d k. c_dirty_cas (sv_client s c))"
  unfolding tracked_def by blast

lemma tracked_recorded: "tracked s0 P m s \<Longrightarrow> changed s0 s d k \<Longrightarrow> m \<or> recorded s0 s"
  unfolding tracked_def by blast

lemma tracked_length: "tracked s0 P m s \<Longrightarrow> length (sv_db s) = length (sv_db s0)"
  by (simp add: tracked_def)

lemma watching_cong: "db_watched_keys (sv_db s ! d) = db_watched_keys (sv_db s0 ! d) \<Longrightarrow> watching s d k = watching s0 d k"
  by (simp add: watching_def)

lemma tracked_trans_pending:
  assumes 1: "tracked s0 P m s" and 2: "tracked s {} m' s'"
  shows "tracked s0 P (m \<or> m') s'"
proof -
  have len: "length (sv_db s) = length (sv_db s0)" using 1 by (simp add: tracked_def)
  have w: "watching s d k = watching s0 d k" if "d < length (sv_db s0)" for d k
    using 1 that by (intro watching_cong) (simp add: tracked_def)
  have ch: "changed s s' d k \<or> changed s0 s d k \<and> content s' d k = content s d k" if "changed s0 s' d k" for d k
    using that len by (auto simp: changed_def)
  have mono: "c_dirty_cas (sv_client s c) \<Longrightarrow> c_dirty_cas (sv_client s' c)" for c
    using 2 by (simp add: tracked_def)
  have "(d, k) \<in> P \<or> (\<forall>c \<in> watching s0 d k. c_dirty_cas (sv_client s' c))" if "changed s0 s' d k" for d k
    using ch [OF that]
  proof
    assume "changed s s' d k"
    then have "\<forall>c \<in> watching s d k. c_dirty_cas (sv_client s' c)" using 2 by (simp add: tracked_def)
    then show ?thesis using w that by (simp add: changed_def)
  next
    assume "changed s0 s d k \<and> content s' d k = content s d k"
    then show ?thesis using 1 mono unfolding tracked_def by blast
  qed
  moreover have "(m \<or> m') \<or> recorded s0 s'" if "changed s0 s' d k" for d k
  proof -
    have "sv_dirty s0 \<le> sv_dirty s" "length (sv_propagated s0) \<le> length (sv_propagated s)"
      "sv_dirty s \<le> sv_dirty s'" "length (sv_propagated s) \<le> length (sv_propagated s')"
      using 1 2 by (simp_all add: tracked_def stream_length)
    then have "recorded s s' \<or> recorded s0 s \<Longrightarrow> recorded s0 s'"
      unfolding recorded_def by linarith
    moreover have "changed s s' d k \<Longrightarrow> m' \<or> recorded s s'" using 2 unfolding tracked_def by blast
    moreover have "changed s0 s d k \<Longrightarrow> m \<or> recorded s0 s" using 1 unfolding tracked_def by blast
    ultimately show ?thesis using ch [OF that] by blast
  qed
  moreover have "stream s0 s'"
    using tracked_stream [OF 1] tracked_stream [OF 2] tracked_conf [OF 1] by (rule stream_trans)
  ultimately show ?thesis using 1 2 by (auto simp: tracked_def)
qed

lemma tracked_trans: "tracked s0 P m s \<Longrightarrow> tracked s {} False s' \<Longrightarrow> tracked s0 P m s'"
  using tracked_trans_pending [of s0 P m s False s'] by simp

subsection \<open>Frames\<close>

locale frame =
  fixes f :: "server \<Rightarrow> server"
  assumes conf [simp]: "conf (f s) = conf s"
    and number [simp]: "length (sv_db (f s)) = length (sv_db s)"
    and txn [simp]: "txn (sv_client (f s) c) = txn (sv_client s c)"
    and c_db [simp]: "c_db (sv_client (f s) c) = c_db (sv_client s c)"
begin

lemma conf_fields [simp]:
  "sv_mstime (f s) = sv_mstime s" "sv_clock (f s) = sv_clock s" "sv_max_bulk (f s) = sv_max_bulk s"
  "sv_masterhost (f s) = sv_masterhost s" "sv_loading (f s) = sv_loading s" "sv_cluster (f s) = sv_cluster s"
  "sv_in_exec (f s) = sv_in_exec s" "sv_readonly_cmd (f s) = sv_readonly_cmd s"
  "sv_pause_type (f s) = sv_pause_type s"
  using conf [of s] by (simp_all add: conf_def)

lemma txn_fields [simp]:
  "c_master (sv_client (f s) c) = c_master (sv_client s c)"
  "c_multi (sv_client (f s) c) = c_multi (sv_client s c)"
  "c_dirty_exec (sv_client (f s) c) = c_dirty_exec (sv_client s c)"
  "c_watched (sv_client (f s) c) = c_watched (sv_client s c)"
  "c_commands (sv_client (f s) c) = c_commands (sv_client s c)"
  using txn [of s c] by (simp_all add: txn_def)

end

text \<open>An operation that leaves the databases alone.\<close>

locale quiet = frame +
  assumes db [simp]: "sv_db (f s) = sv_db s"
    and cas: "c_dirty_cas (sv_client s c) \<Longrightarrow> c_dirty_cas (sv_client (f s) c)"
    and dirty [simp]: "sv_dirty (f s) = sv_dirty s"
    and propagated: "stream s (f s)"
begin

lemma srv_ok [simp]: "srv_ok (f s) = srv_ok s"
  by (simp add: srv_ok_def)

lemma changed [simp]: "changed s0 (f s) = changed s0 s" "changed (f s) s0 = changed s s0"
  by (simp_all add: changed_def content_def fun_eq_iff)

lemma recorded: "recorded s0 s \<Longrightarrow> recorded s0 (f s)"
  using stream_length [OF propagated, of s] by (auto simp: recorded_def)

lemma tracked_quiet [tracked_intro]: "tracked s0 P m s \<Longrightarrow> tracked s0 P m (f s)"
  using recorded [of s0 s] cas stream_trans [of s0 s "f s"] propagated [of s] tracked_conf [of s0 P m s]
  by (simp add: tracked_def) blast

end

text \<open>An operation on the entries of one key in one database.\<close>

locale keyspace_frame = frame f for f +
  fixes d :: nat and k :: bytes
  assumes client [simp]: "sv_client (f s) = sv_client s"
    and dirty [simp]: "sv_dirty (f s) = sv_dirty s"
    and propagated [simp]: "sv_propagated (f s) = sv_propagated s"
    and transaction [simp]: "sv_propagate_in_transaction (f s) = sv_propagate_in_transaction s"
    and watched [simp]: "db_watched_keys (sv_db (f s) ! d') = db_watched_keys (sv_db s ! d')"
    and other: "d' \<noteq> d \<or> k' \<noteq> k \<Longrightarrow> content (f s) d' k' = content s d' k'"
begin

lemma other_key [simp]:
  "d' \<noteq> d \<Longrightarrow> dict_of (f s) d' k' = dict_of s d' k'" "k' \<noteq> k \<Longrightarrow> dict_of (f s) d' k' = dict_of s d' k'"
  "d' \<noteq> d \<Longrightarrow> expires_of (f s) d' k' = expires_of s d' k'" "k' \<noteq> k \<Longrightarrow> expires_of (f s) d' k' = expires_of s d' k'"
  using other [of d' k' s] by (simp_all add: content_def)

lemma changed_other: "(d', k') \<noteq> (d, k) \<Longrightarrow> changed s0 (f s) d' k' = changed s0 s d' k'"
  using other [of d' k' s] by (auto simp: changed_def)

lemma stream [simp]: "stream s0 (f s) = stream s0 s"
  by (simp add: stream_def)

lemma tracked_key:
  assumes "srv_ok (f s)" and "(d, k) \<in> P" and "tracked s0 P True s"
  shows "tracked s0 P True (f s)"
proof -
  have "(d', k') \<in> P \<or> (\<forall>c \<in> watching s0 d' k'. c_dirty_cas (sv_client s c))"
    if "changed s0 (f s) d' k'" for d' k'
    using assms(2,3) that changed_other [of d' k' s0 s] unfolding tracked_def by (cases "(d', k') = (d, k)") auto
  then show ?thesis using assms by (simp add: tracked_def)
qed

end

subsection \<open>The primitives\<close>

definition add_key :: "nat \<Rightarrow> bytes \<Rightarrow> robj \<Rightarrow> server \<Rightarrow> server" where
  "add_key d k v = upd_db d (\<lambda>db. db\<lparr>db_dict := fmupd k v (db_dict db)\<rparr>)"

definition del_key :: "nat \<Rightarrow> bytes \<Rightarrow> server \<Rightarrow> server" where
  "del_key d k = upd_db d (\<lambda>db. db\<lparr>db_expires := fmdrop k (db_expires db), db_dict := fmdrop k (db_dict db)\<rparr>)"

definition set_exp :: "nat \<Rightarrow> bytes \<Rightarrow> int \<Rightarrow> server \<Rightarrow> server" where
  "set_exp d k w = upd_db d (\<lambda>db. db\<lparr>db_expires := fmupd k w (db_expires db)\<rparr>)"

definition drop_exp :: "nat \<Rightarrow> bytes \<Rightarrow> server \<Rightarrow> server" where
  "drop_exp d k = upd_db d (\<lambda>db. db\<lparr>db_expires := fmdrop k (db_expires db)\<rparr>)"

lemma upd_db_simps [simp]:
  "sv_client (upd_db d f s) = sv_client s" "length (sv_db (upd_db d f s)) = length (sv_db s)"
  "sv_dirty (upd_db d f s) = sv_dirty s" "sv_propagated (upd_db d f s) = sv_propagated s"
  "sv_propagate_in_transaction (upd_db d f s) = sv_propagate_in_transaction s"
  "conf (upd_db d f s) = conf s"
  by (simp_all add: upd_db_def conf_def)

lemma upd_db_nth: "sv_db (upd_db d f s) ! d' = (if d' = d \<and> d < length (sv_db s) then f (sv_db s ! d) else sv_db s ! d')"
  by (cases "d < length (sv_db s)") (auto simp: upd_db_def nth_list_update list_update_beyond)

lemmas key_ops = add_key_def del_key_def set_exp_def drop_exp_def

interpretation add_key: keyspace_frame "add_key d k v" d k for d k v
  by unfold_locales (auto simp: key_ops upd_db_nth content_def)

interpretation del_key: keyspace_frame "del_key d k" d k for d k
  by unfold_locales (auto simp: key_ops upd_db_nth content_def)

interpretation set_exp: keyspace_frame "set_exp d k w" d k for d k w
  by unfold_locales (auto simp: key_ops upd_db_nth content_def)

interpretation drop_exp: keyspace_frame "drop_exp d k" d k for d k
  by unfold_locales (auto simp: key_ops upd_db_nth content_def)

lemma same_key [simp]:
  assumes "d < length (sv_db s)"
  shows "dict_of (add_key d k v s) d k = Some v" "expires_of (add_key d k v s) d k' = expires_of s d k'"
    "dict_of (del_key d k s) d k = None" "expires_of (del_key d k s) d k = None"
    "dict_of (set_exp d k w s) d k' = dict_of s d k'" "expires_of (set_exp d k w s) d k = Some w"
    "dict_of (drop_exp d k s) d k' = dict_of s d k'" "expires_of (drop_exp d k s) d k = None"
  using assms by (simp_all add: key_ops upd_db_nth)

lemma db_ok_nth: "srv_ok s \<Longrightarrow> d < length (sv_db s) \<Longrightarrow> db_ok (sv_db s ! d)"
  by (simp add: srv_ok_def list_all_length)

lemma srv_ok_upd_db:
  "srv_ok s \<Longrightarrow> (d < length (sv_db s) \<Longrightarrow> db_ok (f (sv_db s ! d))) \<Longrightarrow> srv_ok (upd_db d f s)"
  by (auto simp: srv_ok_def list_all_length upd_db_nth)

lemma srv_ok_c_db [simp]: "srv_ok s \<Longrightarrow> c_db (sv_client s c) < length (sv_db s)"
  by (simp add: srv_ok_def)

lemma expires_in_dict:
  assumes "srv_ok s" and "d < length (sv_db s)" and "expires_of s d k = Some w"
  shows "\<exists>v. dict_of s d k = Some v"
  using db_ok_nth [OF assms(1,2)] assms(3) unfolding db_ok_def by (meson fmdomI fmdomE fsubsetD)

lemma dict_obj_ok: "srv_ok s \<Longrightarrow> d < length (sv_db s) \<Longrightarrow> dict_of s d k = Some v \<Longrightarrow> obj_ok v"
  using db_ok_nth [of s d] by (auto simp: db_ok_def fmpred_iff)

lemma srv_ok_add_key: "srv_ok s \<Longrightarrow> obj_ok v \<Longrightarrow> srv_ok (add_key d k v s)"
  unfolding add_key_def by (rule srv_ok_upd_db) (auto dest!: db_ok_nth simp: db_ok_def)

lemma srv_ok_del_key [simp]: "srv_ok s \<Longrightarrow> srv_ok (del_key d k s)"
  unfolding del_key_def by (rule srv_ok_upd_db) (auto dest!: db_ok_nth simp: db_ok_def fmpred_iff)

lemma srv_ok_set_exp: "srv_ok s \<Longrightarrow> dict_of s d k \<noteq> None \<Longrightarrow> srv_ok (set_exp d k w s)"
  unfolding set_exp_def by (rule srv_ok_upd_db) (auto dest!: db_ok_nth simp: db_ok_def fmdomI)

lemma srv_ok_drop_exp [simp]: "srv_ok s \<Longrightarrow> srv_ok (drop_exp d k s)"
  unfolding drop_exp_def by (rule srv_ok_upd_db) (auto dest!: db_ok_nth simp: db_ok_def)

lemma tracked_add_key [tracked_intro]:
  "obj_ok v \<Longrightarrow> (d, k) \<in> P \<Longrightarrow> tracked s0 P True s \<Longrightarrow> tracked s0 P True (add_key d k v s)"
  by (rule add_key.tracked_key) (simp_all add: srv_ok_add_key tracked_ok)

lemma tracked_del_key [tracked_intro]:
  "(d, k) \<in> P \<Longrightarrow> tracked s0 P True s \<Longrightarrow> tracked s0 P True (del_key d k s)"
  by (rule del_key.tracked_key) (simp_all add: tracked_ok)

lemma tracked_set_exp [tracked_intro]:
  "dict_of s d k \<noteq> None \<Longrightarrow> (d, k) \<in> P \<Longrightarrow> tracked s0 P True s \<Longrightarrow> tracked s0 P True (set_exp d k w s)"
  by (rule set_exp.tracked_key) (simp_all add: srv_ok_set_exp tracked_ok)

lemma tracked_drop_exp [tracked_intro]:
  "(d, k) \<in> P \<Longrightarrow> tracked s0 P True s \<Longrightarrow> tracked s0 P True (drop_exp d k s)"
  by (rule drop_exp.tracked_key) (simp_all add: tracked_ok)

subsection \<open>Operations that are quiet\<close>

lemma upd_client_simps [simp]:
  "sv_db (upd_client c f s) = sv_db s" "sv_dirty (upd_client c f s) = sv_dirty s"
  "sv_propagated (upd_client c f s) = sv_propagated s" "conf (upd_client c f s) = conf s"
  "sv_propagate_in_transaction (upd_client c f s) = sv_propagate_in_transaction s"
  "sv_client (upd_client c f s) c' = (if c' = c then f (sv_client s c) else sv_client s c')"
  by (simp_all add: upd_client_def conf_def)

interpretation addReply: quiet "addReply c r" for c r
  by unfold_locales (auto simp: addReply_def txn_def stream_same)

interpretation rewrite: quiet "rewriteClientCommandVector c argv" for c argv
  by unfold_locales (auto simp: rewriteClientCommandVector_def txn_def stream_same)

interpretation notify: quiet "notifyKeyspaceEvent cl ev k d" for cl ev k d
  by unfold_locales (simp_all add: notifyKeyspaceEvent_def conf_def stream_same)

definition hit :: "server \<Rightarrow> server" where "hit s = s\<lparr>sv_hits := Suc (sv_hits s)\<rparr>"

interpretation keymiss: quiet "keymiss d k" for d k
  by unfold_locales (simp_all add: keymiss_def notifyKeyspaceEvent_def conf_def Let_def stream_same)

interpretation hit: quiet hit
  by unfold_locales (simp_all add: hit_def conf_def stream_same)

interpretation dirty_add: frame "dirty_add n" for n
  by unfold_locales (simp_all add: dirty_add_def conf_def)

lemma dirty_add_simps [simp]:
  "sv_db (dirty_add n s) = sv_db s" "sv_client (dirty_add n s) = sv_client s"
  "sv_dirty (dirty_add n s) = sv_dirty s + n" "sv_propagated (dirty_add n s) = sv_propagated s"
  "sv_propagate_in_transaction (dirty_add n s) = sv_propagate_in_transaction s"
  "stream s0 (dirty_add n s) = stream s0 s"
  by (simp_all add: dirty_add_def stream_def)

lemma tracked_dirty_add [tracked_intro]:
  "0 < n \<Longrightarrow> tracked s0 P True s \<Longrightarrow> tracked s0 P m (dirty_add n s)"
  by (auto simp: tracked_def recorded_def srv_ok_def changed_def content_def)

text \<open>The marks that a change of a key leaves.\<close>

lemma fold_dirty_cas:
  "fold (\<lambda>c. upd_client c (\<lambda>cl. cl\<lparr>c_dirty_cas := True\<rparr>)) cs s =
   s\<lparr>sv_client := (\<lambda>c. if c \<in> set cs then (sv_client s c)\<lparr>c_dirty_cas := True\<rparr> else sv_client s c)\<rparr>"
  by (induction cs arbitrary: s) (auto simp: upd_client_def fun_eq_iff)

lemma signalModifiedKey_eq:
  "signalModifiedKey d k s =
   s\<lparr>sv_client := (\<lambda>c. if c \<in> watching s d k then (sv_client s c)\<lparr>c_dirty_cas := True\<rparr> else sv_client s c)\<rparr>"
  by (auto simp: signalModifiedKey_def touchWatchedKey_def watching_def fold_dirty_cas split: option.splits)

interpretation signal: quiet "signalModifiedKey d k" for d k
  by unfold_locales (simp_all add: signalModifiedKey_eq conf_def txn_def stream_same)

lemma signal_simps [simp]:
  "stream s0 (signalModifiedKey d k s) = stream s0 s"
  "sv_propagated (signalModifiedKey d k s) = sv_propagated s"
  "c_argv (sv_client (signalModifiedKey d k s) c) = c_argv (sv_client s c)"
  "c_dirty_cas (sv_client (signalModifiedKey d k s) c) \<longleftrightarrow> c \<in> watching s d k \<or> c_dirty_cas (sv_client s c)"
  by (auto simp: signalModifiedKey_eq stream_def)

lemma tracked_signal [tracked_intro]:
  assumes "tracked s0 (insert (d, k) P) m s"
  shows "tracked s0 P m (signalModifiedKey d k s)"
proof -
  have "watching s d k = watching s0 d k" if "changed s0 s d k"
    using assms that by (intro watching_cong) (auto simp: tracked_def changed_def)
  then have "(d', k') \<in> P \<or> (\<forall>c \<in> watching s0 d' k'. c_dirty_cas (sv_client (signalModifiedKey d k s) c))"
    if "changed s0 s d' k'" for d' k'
    using tracked_changed [OF assms that] that by auto
  then show ?thesis
    using assms signal.recorded [of s0 s d k] unfolding tracked_def by auto
qed

subsection \<open>Propagation and expiry\<close>

definition prop_st :: "nat \<Rightarrow> bytes list \<Rightarrow> server \<Rightarrow> server" where
  "prop_st d argv s =
    (if sv_paused s then s
     else if sv_in_exec s \<and> \<not> sv_propagate_in_transaction s
     then s\<lparr>sv_propagate_in_transaction := True, sv_propagated := sv_propagated s @ [(d, [asc ''MULTI'']), (d, argv)]\<rparr>
     else s\<lparr>sv_propagated := sv_propagated s @ [(d, argv)]\<rparr>)"

lemma propagate_eq [exec_simps]: "\<not> sv_paused s \<Longrightarrow> propagate d argv s = Some (prop_st d argv s)"
  by (simp add: propagate_def prop_st_def execCommandPropagateMulti_def beforePropagateMulti_def feed_def)

interpretation prop_st: quiet "prop_st d argv" for d argv
  by unfold_locales (auto simp: prop_st_def conf_def stream_def)

declare prop_st.tracked_quiet [tracked_intro del]

lemma prop_st_simps [simp]:
  "sv_client (prop_st d argv s) = sv_client s"
  "\<not> sv_paused s \<Longrightarrow> length (sv_propagated s) < length (sv_propagated (prop_st d argv s))"
  by (simp_all add: prop_st_def)

lemma tracked_prop_st [tracked_intro]:
  assumes "\<not> sv_paused s" and "tracked s0 P True s"
  shows "tracked s0 P m (prop_st d argv s)"
proof -
  have "length (sv_propagated s0) < length (sv_propagated (prop_st d argv s))"
    using stream_length [OF tracked_stream [OF assms(2)]] prop_st_simps(2) [OF assms(1)] by (rule le_less_trans)
  then have "recorded s0 (prop_st d argv s)" by (simp add: recorded_def)
  then show ?thesis using prop_st.tracked_quiet [OF assms(2), of d argv] by (simp add: tracked_def)
qed

definition expired :: "nat \<Rightarrow> bytes \<Rightarrow> server \<Rightarrow> bool" where
  "expired d k s \<longleftrightarrow>
    (case expires_of s d k of None \<Rightarrow> False | Some w \<Rightarrow> 0 \<le> w \<and> \<not> sv_loading s \<and> w < sv_mstime s)"

lemma getExpire_eq [exec_simps]:
  assumes "srv_ok s" and "d < length (sv_db s)"
  shows "getExpire d k s = Some (case expires_of s d k of None \<Rightarrow> - 1 | Some w \<Rightarrow> w)"
  using expires_in_dict [OF assms] by (auto simp: getExpire_def split: option.splits)

lemma keyIsExpired_eq [exec_simps]: "srv_ok s \<Longrightarrow> d < length (sv_db s) \<Longrightarrow> keyIsExpired d k s = Some (expired d k s)"
  by (auto simp: keyIsExpired_def getExpire_eq expired_def split: option.splits)

definition expired_count :: "server \<Rightarrow> server" where
  "expired_count s = s\<lparr>sv_expiredkeys := Suc (sv_expiredkeys s)\<rparr>"

interpretation expired_count: quiet expired_count
  by unfold_locales (simp_all add: expired_count_def conf_def stream_same)

lemma del_key_idle [simp]:
  assumes "srv_ok s" and "dict_of s d k = None"
  shows "del_key d k s = s"
proof (cases "d < length (sv_db s)")
  case True
  have "expires_of s d k = None"
    using expires_in_dict [OF assms(1) True, of k] assms(2) by (cases "expires_of s d k") auto
  then have "fmdrop k (db_expires (sv_db s ! d)) = db_expires (sv_db s ! d)"
    "fmdrop k (db_dict (sv_db s ! d)) = db_dict (sv_db s ! d)"
    using assms(2) by (simp_all add: fmdrop_idle fmdom_notI)
  then show ?thesis by (simp add: del_key_def upd_db_def)
qed (simp add: del_key_def upd_db_def list_update_beyond)

lemma drop_exp_idle [simp]: "expires_of s d k = None \<Longrightarrow> drop_exp d k s = s"
  by (cases "d < length (sv_db s)")
    (simp_all add: drop_exp_def upd_db_def fmdrop_idle fmdom_notI list_update_beyond)

lemma dbSyncDelete_eq [exec_simps]: "dbSyncDelete d k s = (del_key d k s, dict_of s d k \<noteq> None)"
  by (simp add: dbSyncDelete_def del_key_def)

definition expire_st :: "nat \<Rightarrow> bytes \<Rightarrow> server \<Rightarrow> server" where
  "expire_st d k s =
    (if expired d k s \<and> \<not> sv_masterhost s \<and> \<not> sv_paused s
     then expired_count (prop_st d [if sv_lazy_expire s then asc ''UNLINK'' else asc ''DEL'', k]
       (signalModifiedKey d k (notifyKeyspaceEvent NOTIFY_EXPIRED ''expired'' k d (del_key d k s))))
     else s)"

lemma lazy_expire_simps [simp]:
  "sv_lazy_expire (upd_db d f s) = sv_lazy_expire s"
  "sv_lazy_expire (notifyKeyspaceEvent cl ev k d s) = sv_lazy_expire s"
  "sv_lazy_expire (signalModifiedKey d k s) = sv_lazy_expire s"
  "sv_lazy_expire (del_key d k s) = sv_lazy_expire s"
  by (simp_all add: upd_db_def notifyKeyspaceEvent_def signalModifiedKey_eq del_key_def)

lemma expireIfNeeded_eq [exec_simps]:
  assumes "srv_ok s" and "d < length (sv_db s)"
  shows "expireIfNeeded d k s = Some (expire_st d k s, expired d k s)"
  using assms
  by (auto simp: expireIfNeeded_def keyIsExpired_eq expire_st_def deleteExpiredKeyAndPropagate_def
      propagateExpire_def propagate_eq dbSyncDelete_eq expired_count_def Let_def)

lemma tracked_expire_st [tracked_intro]: "tracked s0 P m s \<Longrightarrow> tracked s0 P m (expire_st d k s)"
  unfolding expire_st_def by (auto intro!: tracked_intro elim: tracked_mono)

interpretation expire_st: frame "expire_st d k" for d k
  by unfold_locales (simp_all add: expire_st_def)

lemma dirty_expire_st [simp]: "sv_dirty (expire_st d k s) = sv_dirty s"
  by (simp add: expire_st_def)

lemma srv_ok_expire_st [simp]: "srv_ok s \<Longrightarrow> srv_ok (expire_st d k s)"
  by (simp add: expire_st_def)

lemma argv_simps [simp]:
  "c_argv (sv_client (expire_st d k s) c) = c_argv (sv_client s c)"
  "c_argv (sv_client (addReply c' r s) c) = c_argv (sv_client s c)"
  "c_argv (sv_client (notifyKeyspaceEvent cl ev k d s) c) = c_argv (sv_client s c)"
  "c_argv (sv_client (keymiss d k s) c) = c_argv (sv_client s c)"
  "c_argv (sv_client (hit s) c) = c_argv (sv_client s c)"
  by (simp_all add: expire_st_def expired_count_def notifyKeyspaceEvent_def addReply_def keymiss_def hit_def Let_def)

text \<open>The effect of expiry on the entries.\<close>

lemma expire_st_dict:
  assumes "d < length (sv_db s)"
  shows "dict_of (expire_st d k s) d k =
      (if expired d k s \<and> \<not> sv_masterhost s \<and> \<not> sv_paused s then None else dict_of s d k)"
    and "expires_of (expire_st d k s) d k =
      (if expired d k s \<and> \<not> sv_masterhost s \<and> \<not> sv_paused s then None else expires_of s d k)"
  using assms by (simp_all add: expire_st_def)

lemma expire_st_other [simp]:
  "d' \<noteq> d \<Longrightarrow> dict_of (expire_st d k s) d' k' = dict_of s d' k'"
  "k' \<noteq> k \<Longrightarrow> dict_of (expire_st d k s) d' k' = dict_of s d' k'"
  "d' \<noteq> d \<Longrightarrow> expires_of (expire_st d k s) d' k' = expires_of s d' k'"
  "k' \<noteq> k \<Longrightarrow> expires_of (expire_st d k s) d' k' = expires_of s d' k'"
  by (simp_all add: expire_st_def)

subsection \<open>Lookups and writes\<close>

definition read_val :: "nat \<Rightarrow> bytes \<Rightarrow> server \<Rightarrow> robj option" where
  "read_val d k s =
    (if expired d k s \<and> (\<not> sv_masterhost s \<or> sv_readonly_cmd s) then None else dict_of (expire_st d k s) d k)"

definition read_st :: "nat \<Rightarrow> bytes \<Rightarrow> server \<Rightarrow> server" where
  "read_st d k s = (if read_val d k s = None then keymiss d k (expire_st d k s) else hit (expire_st d k s))"

lemma lookupKeyRead_eq [exec_simps]:
  assumes "srv_ok s" and "d < length (sv_db s)"
  shows "lookupKeyReadWithFlags d k s = Some (read_st d k s, read_val d k s)"
    and "lookupKeyRead d k s = Some (read_st d k s, read_val d k s)"
  using assms
  by (auto simp: lookupKeyRead_def lookupKeyReadWithFlags_def expireIfNeeded_eq lookupKey_def read_st_def
      read_val_def hit_def split: option.splits)

lemma lookupKeyWrite_eq [exec_simps]:
  "srv_ok s \<Longrightarrow> d < length (sv_db s) \<Longrightarrow>
   lookupKeyWrite d k s = Some (expire_st d k s, dict_of (expire_st d k s) d k)"
  by (simp add: lookupKeyWrite_def expireIfNeeded_eq lookupKey_def)

lemma lookupOrReply_eq [exec_simps]:
  assumes "srv_ok s"
  shows "lookupKeyReadOrReply c k r s =
      (let d = c_db (sv_client s c)
       in Some (if read_val d k s = None then addReply c r (read_st d k s) else read_st d k s, read_val d k s))"
    and "lookupKeyWriteOrReply c k r s =
      (let d = c_db (sv_client s c); s' = expire_st d k s
       in Some (if dict_of s' d k = None then addReply c r s' else s', dict_of s' d k))"
  using assms by (simp_all add: lookupKeyReadOrReply_def lookupKeyWriteOrReply_def exec_simps Let_def)

lemma tracked_read_st [tracked_intro]: "tracked s0 P m s \<Longrightarrow> tracked s0 P m (read_st d k s)"
  by (simp add: read_st_def tracked_intro)

interpretation read_st: frame "read_st d k" for d k
  by unfold_locales (simp_all add: read_st_def)

lemma read_st_simps [simp]:
  "sv_db (read_st d k s) = sv_db (expire_st d k s)" "srv_ok s \<Longrightarrow> srv_ok (read_st d k s)"
  "c_argv (sv_client (read_st d k s) c) = c_argv (sv_client s c)" "sv_dirty (read_st d k s) = sv_dirty s"
  by (simp_all add: read_st_def)

lemma read_val_dict: "read_val d k s = Some v \<Longrightarrow> dict_of (expire_st d k s) d k = Some v"
  by (simp add: read_val_def split: if_splits)

lemma write_eqs [exec_simps]:
  "dict_of s d k = None \<Longrightarrow> dbAdd d k v s = Some (add_key d k v s)"
  "dict_of s d k \<noteq> None \<Longrightarrow> dbOverwrite d k v s = Some (add_key d k v s)"
  "dict_of s d k \<noteq> None \<Longrightarrow> setObject d k v s = Some (add_key d k v s)"
  "dict_of s d k \<noteq> None \<Longrightarrow> setExpire d k w s = Some (set_exp d k w s)"
  "dict_of s d k \<noteq> None \<Longrightarrow> removeExpire d k s = Some (drop_exp d k s, expires_of s d k \<noteq> None)"
  by (simp_all add: dbAdd_def dbOverwrite_def setObject_def setExpire_def removeExpire_def key_ops)

lemma dbUnshare_eq [exec_simps]:
  "dict_of s d k \<noteq> None \<Longrightarrow>
   dbUnshareStringValue d k x s = Some (add_key d k (StringObj (SdsObj (getDecodedObject x))) s, getDecodedObject x)"
  by (simp add: dbUnshareStringValue_def write_eqs Let_def)

definition set_key :: "nat \<Rightarrow> bytes \<Rightarrow> robj \<Rightarrow> bool \<Rightarrow> server \<Rightarrow> server" where
  "set_key d k v keepttl s =
    (let s = add_key d k v (expire_st d k s) in if keepttl then s else drop_exp d k s)"

lemma genericSetKey_eq [exec_simps]:
  assumes "srv_ok s" and "d < length (sv_db s)"
  shows "genericSetKey d k v keepttl signal s =
      Some (if signal then signalModifiedKey d k (set_key d k v keepttl s) else set_key d k v keepttl s)"
    and "setKey d k v s = Some (signalModifiedKey d k (set_key d k v False s))"
  using assms by (simp_all add: setKey_def genericSetKey_def exec_simps set_key_def Let_def)

lemma tracked_set_key [tracked_intro]:
  "obj_ok v \<Longrightarrow> (d, k) \<in> P \<Longrightarrow> tracked s0 P True s \<Longrightarrow> tracked s0 P True (set_key d k v keepttl s)"
  by (simp add: set_key_def Let_def tracked_intro)

interpretation set_key: frame "set_key d k v keepttl" for d k v keepttl
  by unfold_locales (simp_all add: set_key_def Let_def)

lemma set_key_simps [simp]:
  "c_argv (sv_client (set_key d k v keepttl s) c) = c_argv (sv_client s c)"
  "sv_dirty (set_key d k v keepttl s) = sv_dirty s"
  by (simp_all add: set_key_def Let_def)

subsection \<open>Runs of a command\<close>

text \<open>A command that returns, with a tracked change; a command that moreover counts no change.\<close>

definition runs :: "server \<Rightarrow> server option \<Rightarrow> bool" where
  "runs s m \<longleftrightarrow> (\<exists>s'. m = Some s' \<and> tracked s {} False s')"

definition reads :: "server \<Rightarrow> server option \<Rightarrow> bool" where
  "reads s m \<longleftrightarrow> (\<exists>s'. m = Some s' \<and> tracked s {} False s' \<and> sv_dirty s' = sv_dirty s)"

lemma runs_Some [simp]: "runs s (Some s') = tracked s {} False s'"
  by (simp add: runs_def)

lemma reads_Some [simp]: "reads s (Some s') \<longleftrightarrow> tracked s {} False s' \<and> sv_dirty s' = sv_dirty s"
  by (simp add: reads_def)

lemma reads_runs: "reads s m \<Longrightarrow> runs s m"
  by (auto simp: reads_def runs_def)

text \<open>The same for the parts of a command that return a state and a value.\<close>

definition runs_val :: "server \<Rightarrow> (server \<times> 'a) option \<Rightarrow> bool" where
  "runs_val s m \<longleftrightarrow> (\<exists>s' x. m = Some (s', x) \<and> tracked s {} False s')"

definition reads_val :: "server \<Rightarrow> (server \<times> 'a) option \<Rightarrow> bool" where
  "reads_val s m \<longleftrightarrow> (\<exists>s' x. m = Some (s', x) \<and> tracked s {} False s' \<and> sv_dirty s' = sv_dirty s)"

lemma reads_val_runs: "reads_val s m \<Longrightarrow> runs_val s m"
  by (auto simp: reads_val_def runs_val_def)

lemma runs_val_Some [simp]: "runs_val s (Some (s', x)) = tracked s {} False s'"
  by (simp add: runs_val_def)

lemma reads_val_Some [simp]: "reads_val s (Some (s', x)) \<longleftrightarrow> tracked s {} False s' \<and> sv_dirty s' = sv_dirty s"
  by (simp add: reads_val_def)

lemma runs_val_trans: "tracked s0 {} False s \<Longrightarrow> runs_val s m \<Longrightarrow> runs_val s0 m"
  by (auto simp: runs_val_def intro: tracked_trans)

lemma reads_val_trans:
  "tracked s0 {} False s \<Longrightarrow> sv_dirty s = sv_dirty s0 \<Longrightarrow> reads_val s m \<Longrightarrow> reads_val s0 m"
  by (auto simp: reads_val_def intro: tracked_trans)

lemma runs_trans: "tracked s0 {} False s \<Longrightarrow> runs s m \<Longrightarrow> runs s0 m"
  by (auto simp: runs_def intro: tracked_trans)

lemma reads_trans: "tracked s0 {} False s \<Longrightarrow> sv_dirty s = sv_dirty s0 \<Longrightarrow> reads s m \<Longrightarrow> reads s0 m"
  by (auto simp: reads_def intro: tracked_trans)

lemma runs_bind:
  assumes "runs_val s m"
    and "\<And>s' x. m = Some (s', x) \<Longrightarrow> srv_ok s' \<Longrightarrow> length (sv_db s') = length (sv_db s) \<Longrightarrow> runs s' (f (s', x))"
  shows "runs s (m \<bind> f)"
proof -
  obtain s' x where m: "m = Some (s', x)" and t: "tracked s {} False s'"
    using assms(1) by (auto simp: runs_val_def)
  show ?thesis using runs_trans [OF t assms(2) [OF m tracked_ok [OF t] tracked_length [OF t]]] m by simp
qed

lemma reads_bind:
  assumes "reads_val s m"
    and "\<And>s' x. m = Some (s', x) \<Longrightarrow> srv_ok s' \<Longrightarrow> length (sv_db s') = length (sv_db s) \<Longrightarrow> reads s' (f (s', x))"
  shows "reads s (m \<bind> f)"
proof -
  obtain s' x where m: "m = Some (s', x)" and t: "tracked s {} False s'" "sv_dirty s' = sv_dirty s"
    using assms(1) by (auto simp: reads_val_def)
  show ?thesis using reads_trans [OF t assms(2) [OF m tracked_ok [OF t(1)] tracked_length [OF t(1)]]] m by simp
qed

subsection \<open>The commands of \<open>db.c\<close>\<close>

lemma del_loop_runs: "srv_ok s \<Longrightarrow> d < length (sv_db s) \<Longrightarrow> runs_val s (del_loop d ks s n)"
proof (induction ks arbitrary: s n)
  case (Cons k ks)
  let ?e = "expire_st d k s"
  let ?s = "dirty_add 1 (notifyKeyspaceEvent NOTIFY_GENERIC ''del'' k d (signalModifiedKey d k (del_key d k ?e)))"
  have 1: "tracked s {} False ?e" using Cons.prems by (simp add: tracked_intro)
  have 2: "tracked s {} False ?s" using Cons.prems by (auto intro!: tracked_intro)
  have "runs_val s (del_loop d ks ?e n)" "runs_val s (del_loop d ks ?s (n + 1))"
    using Cons.prems Cons.IH [of ?e n] Cons.IH [of ?s "n + 1"] tracked_ok [OF 2]
    by (auto intro: runs_val_trans [OF 1] runs_val_trans [OF 2])
  then show ?case using Cons.prems by (auto simp: exec_simps Let_def)
qed (simp add: tracked_intro)

lemma del_runs: "srv_ok s \<Longrightarrow> runs s (delGenericCommand c s)"
  unfolding delGenericCommand_def by (rule runs_bind) (auto simp: del_loop_runs tracked_intro)

lemma exists_loop_reads: "srv_ok s \<Longrightarrow> d < length (sv_db s) \<Longrightarrow> reads_val s (exists_loop d ks s n)"
proof (induction ks arbitrary: s n)
  case (Cons k ks)
  have "tracked s {} False (read_st d k s)" using Cons.prems by (simp add: tracked_intro)
  then have "reads_val s (exists_loop d ks (read_st d k s) n')" for n'
    using Cons by (intro reads_val_trans [of s "read_st d k s"]) simp_all
  then show ?case using Cons.prems by (simp add: exec_simps)
qed (simp add: tracked_intro)

lemma exists_reads: "srv_ok s \<Longrightarrow> reads s (existsCommand c s)"
  unfolding existsCommand_def by (rule reads_bind) (auto simp: exists_loop_reads tracked_intro)

lemma type_reads: "srv_ok s \<Longrightarrow> reads s (typeCommand c s)"
  by (simp add: typeCommand_def exec_simps tracked_intro)

lemma dbsize_reads: "srv_ok s \<Longrightarrow> reads s (dbsizeCommand c s)"
  by (simp add: dbsizeCommand_def tracked_intro)

lemma obj_ok_dict: "dict_of s d k = Some v \<Longrightarrow> srv_ok s \<Longrightarrow> d < length (sv_db s) \<Longrightarrow> obj_ok v"
  using dict_obj_ok by blast

lemma obj_ok_expire:
  "dict_of (expire_st d k s) d' k' = Some v \<Longrightarrow> srv_ok s \<Longrightarrow> d' < length (sv_db s) \<Longrightarrow> obj_ok v"
  by (erule obj_ok_dict) simp_all

lemma obj_ok_client:
  "dict_of (expire_st (c_db (sv_client s c)) k s) (c_db (sv_client s c)) k' = Some v \<Longrightarrow> srv_ok s \<Longrightarrow> obj_ok v"
  by (erule obj_ok_expire) simp_all

lemma rename_runs: "srv_ok s \<Longrightarrow> runs s (renameGenericCommand nx c s)"
  by (auto simp: renameGenericCommand_def exec_simps Let_def intro!: tracked_intro intro: obj_ok_client split: option.splits)

lemma move_runs: "srv_ok s \<Longrightarrow> runs s (moveCommand c s)"
  by (auto simp: moveCommand_def exec_simps Let_def selectDb_def intro!: tracked_intro intro: obj_ok_client split: option.splits sum.splits)

lemma copy_options_db:
  "copy_options xs n dst r = Inr (d, r') \<Longrightarrow> dst < n \<Longrightarrow> d < n"
  by (induction xs n dst r rule: copy_options.induct) (auto split: if_splits list.splits sum.splits)

lemma dupObject_ok: "dupObject mt k k' v = Inr v' \<Longrightarrow> obj_ok v \<Longrightarrow> obj_ok v'"
  by (auto simp: dupObject_def moduleTypeDupOrReply_def split: robj.splits objtype.splits option.splits)

lemma copy_runs: "srv_ok s \<Longrightarrow> runs s (copyCommand mt c s)"
proof (cases "copy_options (drop 3 (c_argv (sv_client s c))) (length (sv_db s)) (c_db (sv_client s c)) False")
  case (Inr p)
  assume ok: "srv_ok s"
  obtain dst replace where p: "p = (dst, replace)" by (cases p)
  then have "dst < length (sv_db s)" using copy_options_db Inr ok by simp
  then show ?thesis
    using Inr p ok
    by (auto simp: copyCommand_def exec_simps Let_def intro!: tracked_intro intro: obj_ok_client
        elim!: dupObject_ok split: option.splits sum.splits)
qed (simp add: copyCommand_def Let_def tracked_intro)

lemma select_reads: "srv_ok s \<Longrightarrow> reads s (selectCommand c s)"
proof -
  assume ok: "srv_ok s"
  have "tracked s {} False (upd_client c (\<lambda>cl. cl\<lparr>c_db := d\<rparr>) s)" if "d < length (sv_db s)" for d
    using ok that by (auto simp: tracked_def srv_ok_def changed_def content_def txn_def stream_same)
  then show ?thesis using ok
    by (auto simp: selectCommand_def selectDb_def intro!: tracked_intro split: sum.splits)
qed

subsubsection \<open>Databases as a whole\<close>

interpretation touchAll: quiet "touchAllWatchedKeysInDb d r" for d r
  by unfold_locales (simp_all add: touchAllWatchedKeysInDb_def conf_def txn_def Let_def stream_same)

lemma touchAll_cas:
  "c_dirty_cas (sv_client (touchAllWatchedKeysInDb d r s) c) \<longleftrightarrow>
   c_dirty_cas (sv_client s c) \<or>
   (\<exists>k. c \<in> watching s d k \<and> (dict_of s d k \<noteq> None \<or> (\<exists>d'. r = Some d' \<and> dict_of s d' k \<noteq> None)))"
proof -
  have "(k |\<in>| fmdom (db_watched_keys (sv_db s ! d)) \<and> c \<in> set (the (watchers_of s d k))) \<longleftrightarrow> c \<in> watching s d k" for k
    by (auto simp: watching_def fmlookup_dom_iff split: option.splits)
  moreover have "c_dirty_cas (sv_client (touchAllWatchedKeysInDb d r s) c) \<longleftrightarrow> c_dirty_cas (sv_client s c) \<or>
      (\<exists>k. (k |\<in>| fmdom (db_watched_keys (sv_db s ! d)) \<and> c \<in> set (the (watchers_of s d k))) \<and>
        (dict_of s d k \<noteq> None \<or> (\<exists>d'. r = Some d' \<and> dict_of s d' k \<noteq> None)))"
    by (auto simp: touchAllWatchedKeysInDb_def Let_def split: option.splits)
  ultimately show ?thesis by simp
qed

lemma touchAll_simps [simp]:
  "watching (touchAllWatchedKeysInDb d r s) d' k = watching s d' k"
  "sv_propagated (touchAllWatchedKeysInDb d r s) = sv_propagated s"
  "sv_propagate_in_transaction (touchAllWatchedKeysInDb d r s) = sv_propagate_in_transaction s"
  by (simp_all add: watching_def touchAllWatchedKeysInDb_def Let_def)

lemma fold_touchAll:
  fixes xs :: "nat list" and s :: server
  defines "t \<equiv> fold (\<lambda>d. touchAllWatchedKeysInDb d None) xs s"
  shows "sv_db t = sv_db s" and "conf t = conf s" and "txn (sv_client t c) = txn (sv_client s c)"
    and "c_db (sv_client t c) = c_db (sv_client s c)" and "sv_dirty t = sv_dirty s"
    and "sv_propagated t = sv_propagated s"
    and "sv_propagate_in_transaction t = sv_propagate_in_transaction s"
    and "c_dirty_cas (sv_client t c) \<longleftrightarrow> c_dirty_cas (sv_client s c) \<or>
      (\<exists>d \<in> set xs. \<exists>k. c \<in> watching s d k \<and> dict_of s d k \<noteq> None)"
  unfolding t_def by (induction xs arbitrary: s) (auto simp: touchAll_cas)

definition wipe :: "nat \<Rightarrow> server \<Rightarrow> server" where
  "wipe d = upd_db d (\<lambda>db. db\<lparr>db_dict := fmempty, db_expires := fmempty\<rparr>)"

lemma wipe_simps [simp]:
  "sv_client (wipe d s) = sv_client s" "length (sv_db (wipe d s)) = length (sv_db s)" "conf (wipe d s) = conf s"
  "sv_dirty (wipe d s) = sv_dirty s" "sv_propagated (wipe d s) = sv_propagated s"
  "sv_propagate_in_transaction (wipe d s) = sv_propagate_in_transaction s"
  "db_watched_keys (sv_db (wipe d s) ! d') = db_watched_keys (sv_db s ! d')"
  "srv_ok s \<Longrightarrow> srv_ok (wipe d s)"
  by (auto simp: wipe_def upd_db_nth db_ok_def intro: srv_ok_upd_db)

lemma content_wipe: "content (wipe d s) d' k = (if d' = d \<and> d < length (sv_db s) then (None, None) else content s d' k)"
  by (simp add: wipe_def content_def upd_db_nth)

lemma fold_wipe:
  fixes xs :: "nat list" and s :: server
  defines "t \<equiv> fold wipe xs s"
  shows "sv_client t = sv_client s" and "length (sv_db t) = length (sv_db s)" and "conf t = conf s"
    and "sv_dirty t = sv_dirty s" and "sv_propagated t = sv_propagated s"
    and "sv_propagate_in_transaction t = sv_propagate_in_transaction s"
    and "db_watched_keys (sv_db t ! d) = db_watched_keys (sv_db s ! d)" and "srv_ok s \<Longrightarrow> srv_ok t"
    and "content t d k = (if d \<in> set xs \<and> d < length (sv_db s) then (None, None) else content s d k)"
  unfolding t_def by (induction xs arbitrary: s) (auto simp: content_wipe)

lemma emptyDbStructure_eq:
  "fst (emptyDbStructure n s) = fold wipe (db_range n s) s"
  "0 \<le> snd (emptyDbStructure n s)"
  "0 \<le> n \<Longrightarrow> snd (emptyDbStructure n s) = dictSize_of s (nat n)"
proof -
  let ?step = "\<lambda>d (s, removed). (wipe d s, removed + dictSize_of s d)"
  have "fst (fold ?step xs (s, r)) = fold wipe xs s \<and> r \<le> snd (fold ?step xs (s, r))" for xs r
  proof (induction xs arbitrary: s r)
    case (Cons d xs)
    have "0 \<le> dictSize_of s d" by (simp add: dictSize_of_def)
    then show ?case using Cons.IH [of "wipe d s" "r + dictSize_of s d"] by auto
  qed simp
  then show "fst (emptyDbStructure n s) = fold wipe (db_range n s) s" "0 \<le> snd (emptyDbStructure n s)"
    by (simp_all add: emptyDbStructure_def wipe_def)
  show "0 \<le> n \<Longrightarrow> snd (emptyDbStructure n s) = dictSize_of s (nat n)"
    by (simp add: emptyDbStructure_def db_range_def)
qed

lemma content_None: "srv_ok s \<Longrightarrow> d < length (sv_db s) \<Longrightarrow> content s d k \<noteq> (None, None) \<Longrightarrow> dict_of s d k \<noteq> None"
  using expires_in_dict [of s d k] by (cases "expires_of s d k") (auto simp: content_def)

lemma tracked_flush:
  assumes "srv_ok s"
  shows "tracked s {} True (fold wipe xs (fold (\<lambda>d. touchAllWatchedKeysInDb d None) xs s))"
    (is "tracked s {} True (fold wipe xs ?t)")
proof -
  have t: "srv_ok ?t" "length (sv_db ?t) = length (sv_db s)" "content ?t = content s"
    using assms by (simp_all add: srv_ok_def fold_touchAll content_def fun_eq_iff)
  have "\<forall>c \<in> watching s d k. c_dirty_cas (sv_client ?t c)" if "changed s (fold wipe xs ?t) d k" for d k
  proof -
    have "d \<in> set xs" "d < length (sv_db s)" "content s d k \<noteq> (None, None)"
      using that t by (auto simp: changed_def fold_wipe split: if_splits)
    then show ?thesis using content_None [OF assms, of d k] unfolding fold_touchAll by blast
  qed
  then show ?thesis using assms t by (simp add: tracked_def fold_wipe fold_touchAll stream_same)
qed

lemma emptyDb_eq:
  assumes "- 1 \<le> n" and "n < int (length (sv_db s))"
  shows "fst (emptyDb n s) = fold wipe (db_range n s) (fold (\<lambda>d. touchAllWatchedKeysInDb d None) (db_range n s) s)"
    and "0 \<le> snd (emptyDb n s)" and "0 \<le> n \<Longrightarrow> snd (emptyDb n s) = dictSize_of s (nat n)"
proof -
  have "db_range n (signalFlushedDb n s) = db_range n s" "dictSize_of (signalFlushedDb n s) = dictSize_of s"
    by (simp_all add: db_range_def signalFlushedDb_def fold_touchAll dictSize_of_def fun_eq_iff)
  then show "fst (emptyDb n s) = fold wipe (db_range n s) (fold (\<lambda>d. touchAllWatchedKeysInDb d None) (db_range n s) s)"
    and "0 \<le> snd (emptyDb n s)" and "0 \<le> n \<Longrightarrow> snd (emptyDb n s) = dictSize_of s (nat n)"
    using assms by (simp_all add: emptyDb_def emptyDbStructure_eq) (simp add: signalFlushedDb_def)
qed

lemma tracked_dirty_nonneg: "0 \<le> n \<Longrightarrow> tracked s0 P m s \<Longrightarrow> tracked s0 P m (dirty_add n s)"
  by (auto simp: tracked_def recorded_def srv_ok_def changed_def content_def)

lemma dictSize_of_0: "dictSize_of s d = 0 \<longleftrightarrow> db_dict (sv_db s ! d) = fmempty"
  by (auto simp: dictSize_of_def intro!: fmap_ext) (metis fempty_iff fmdom_notD)

lemma flushdb_runs: "srv_ok s \<Longrightarrow> runs s (flushdbCommand c s)"
proof -
  assume ok: "srv_ok s"
  let ?d = "c_db (sv_client s c)"
  let ?f = "emptyDb (int ?d) s"
  have d: "int ?d < int (length (sv_db s))" using ok by simp
  have eq: "fst ?f = fold wipe [?d] (fold (\<lambda>d. touchAllWatchedKeysInDb d None) [?d] s)" "snd ?f = dictSize_of s ?d"
    using emptyDb_eq [of "int ?d" s] d by (simp_all add: db_range_def)
  have "tracked s {} False (dirty_add (snd ?f) (fst ?f))"
  proof (cases "snd ?f = 0")
    case True
    have "\<not> changed s (fst ?f) d' k" for d' k
    proof -
      have "content s ?d k = (None, None)"
        using True eq(2) dictSize_of_0 [of s ?d] content_None [OF ok, of ?d k] ok by auto
      then show ?thesis
        unfolding changed_def eq(1) fold_wipe(9) by (auto simp: content_def)
    qed
    moreover have "tracked s {} True (fst ?f)" unfolding eq(1) using ok by (rule tracked_flush)
    ultimately have "tracked s {} False (fst ?f)" by (simp add: tracked_def)
    then show ?thesis using True by (simp add: dirty_add_def)
  next
    case False
    moreover have "0 \<le> snd ?f" using eq(2) by (simp add: dictSize_of_def)
    ultimately have "0 < snd ?f" by simp
    then show ?thesis using tracked_flush [OF ok, of "[?d]"] eq(1) by (intro tracked_intro) simp_all
  qed
  then show ?thesis using ok
    by (simp add: flushdbCommand_def case_prod_unfold Let_def tracked_intro)
qed

lemma flushall_runs: "srv_ok s \<Longrightarrow> runs s (flushallCommand c s)"
proof -
  assume ok: "srv_ok s"
  have "tracked s {} True (fst (emptyDb (- 1) s))" "0 \<le> snd (emptyDb (- 1) s)"
    using tracked_flush [OF ok] by (simp_all add: emptyDb_eq)
  then have "tracked s {} False (flushAllData s)"
    using tracked_dirty_add [OF _ tracked_dirty_nonneg] by (simp add: flushAllData_def case_prod_unfold Let_def)
  then show ?thesis using ok by (simp add: flushallCommand_def tracked_intro)
qed

text \<open>\<open>SWAPDB\<close> marks every client that watches a key which exists in one of the two databases.\<close>

lemma swap_tracked:
  assumes ok: "srv_ok s" and eq: "dbSwapDatabases id1 id2 s = Some s'" and ne: "id1 \<noteq> id2"
  shows "tracked s {} True s'"
proof -
  define i j where "i = nat id1" and "j = nat id2"
  define t where "t = s\<lparr>sv_db := (sv_db s)
    [i := (sv_db s ! i)\<lparr>db_dict := db_dict (sv_db s ! j), db_expires := db_expires (sv_db s ! j)\<rparr>,
     j := (sv_db s ! j)\<lparr>db_dict := db_dict (sv_db s ! i), db_expires := db_expires (sv_db s ! i)\<rparr>]\<rparr>"
  have ij: "i \<noteq> j" "i < length (sv_db s)" "j < length (sv_db s)"
    and s': "s' = touchAllWatchedKeysInDb j (Some i) (touchAllWatchedKeysInDb i (Some j) t)"
    using eq ne by (auto simp: dbSwapDatabases_def i_def j_def t_def upd_db_def Let_def split: if_splits)
  have nth: "content t d k = (if d = i then content s j k else if d = j then content s i k else content s d k)"
    "dict_of t d k = (if d = i then dict_of s j k else if d = j then dict_of s i k else dict_of s d k)"
    "watching t d k = watching s d k" "db_watched_keys (sv_db t ! d) = db_watched_keys (sv_db s ! d)" for d k
    using ij by (auto simp: t_def content_def watching_def nth_list_update)
  have t: "srv_ok t" "conf t = conf s" "sv_client t = sv_client s" "sv_dirty t = sv_dirty s"
    "sv_propagated t = sv_propagated s" "length (sv_db t) = length (sv_db s)"
    "sv_propagate_in_transaction t = sv_propagate_in_transaction s"
    using ok ij db_ok_nth [OF ok] by (auto simp: t_def srv_ok_def conf_def list_all_length nth_list_update db_ok_def)
  have "\<forall>c \<in> watching s d k. c_dirty_cas (sv_client s' c)" if "changed s s' d k" for d k
  proof -
    have "changed s t d k" using that by (simp add: s')
    then have d: "d = i \<or> d = j" "content s i k \<noteq> content s j k" by (auto simp: changed_def nth split: if_splits)
    then have "dict_of s i k \<noteq> None \<or> dict_of s j k \<noteq> None" using content_None [OF ok] ij by metis
    then show ?thesis using d(1) by (auto simp: s' touchAll_cas nth)
  qed
  then show ?thesis using t nth(4) by (auto simp: tracked_def s' stream_same intro!: touchAll.cas)
qed

lemma swapdb_runs: "srv_ok s \<Longrightarrow> runs s (swapdbCommand c s)"
proof -
  assume ok: "srv_ok s"
  have "tracked s {} True s'" if "dbSwapDatabases id1 id2 s = Some s'" for id1 id2 s'
    using swap_tracked [OF ok that] ok that
    by (cases "id1 = id2") (auto simp: dbSwapDatabases_def tracked_intro split: if_splits)
  then show ?thesis using ok
    by (auto simp: swapdbCommand_def intro!: tracked_intro split: sum.splits option.splits)
qed

lemma add_key_twice [simp]: "add_key d k v (add_key d k w s) = add_key d k v s"
  by (cases "d < length (sv_db s)") (simp_all add: add_key_def upd_db_def list_update_beyond)

subsection \<open>Replies and entries\<close>

lemma addReply_simps [simp]:
  "sv_propagated (addReply c r s) = sv_propagated s"
  "sv_propagate_in_transaction (addReply c r s) = sv_propagate_in_transaction s"
  by (simp_all add: addReply_def)

lemma reply_simps [simp]:
  "c_reply (sv_client (addReply c r s) c) = c_reply (sv_client s c) @ [r]"
  "c_reply (sv_client (rewriteClientCommandVector c' a s) c) = c_reply (sv_client s c)"
  "c_reply (sv_client (notifyKeyspaceEvent cl ev k d s) c) = c_reply (sv_client s c)"
  "c_reply (sv_client (signalModifiedKey d k s) c) = c_reply (sv_client s c)"
  "c_reply (sv_client (expire_st d k s) c) = c_reply (sv_client s c)"
  "c_reply (sv_client (read_st d k s) c) = c_reply (sv_client s c)"
  "c_reply (sv_client (set_key d k v kt s) c) = c_reply (sv_client s c)"
  by (simp_all add: addReply_def rewriteClientCommandVector_def notifyKeyspaceEvent_def signalModifiedKey_eq expire_st_def
      read_st_def keymiss_def hit_def set_key_def expired_count_def Let_def)

lemma argv_rewrite [simp]: "c_argv (sv_client (rewriteClientCommandVector c a s) c) = a"
  by (simp add: rewriteClientCommandVector_def)

lemma set_key_entries:
  assumes "d < length (sv_db s)"
  shows "dict_of (set_key d k v False s) d k = Some v" "expires_of (set_key d k v False s) d k = None"
  using assms by (simp_all add: set_key_def Let_def)

lemma set_key_other: "(d', k') \<noteq> (d, k) \<Longrightarrow> content (set_key d k v kt s) d' k' = content s d' k'"
  by (auto simp: set_key_def content_def Let_def)

lemma content_quiet: "sv_db s' = sv_db s \<Longrightarrow> content s' d k = content s d k"
  by (simp add: content_def)

lemma expire_st_idle: "\<not> expired d k s \<Longrightarrow> expire_st d k s = s"
  by (simp add: expire_st_def)

lemma read_idle:
  assumes "\<not> expired d k s"
  shows "read_val d k s = dict_of s d k" and "sv_db (read_st d k s) = sv_db s"
    and "expired d' k' (read_st d k s) = expired d' k' s"
  using expire_st_idle [OF assms] assms by (simp_all add: read_val_def expired_def cong: option.case_cong)

subsection \<open>Concrete servers\<close>

text \<open>A fresh server with the given entries in its first database, and a request of client 0.\<close>

definition sample_config :: server where
  "sample_config = \<lparr>sv_db = [], sv_client = (\<lambda>_. createClient), sv_dirty = 0, sv_mstime = 1000, sv_clock = 1000,
     sv_masterhost = False, sv_loading = False, sv_pause_type = CLIENT_PAUSE_OFF, sv_readonly_cmd = False,
     sv_cluster = False, sv_in_exec = False, sv_propagate_in_transaction = False, sv_max_bulk = 512 * 1024 * 1024,
     sv_lazy_expire = False, sv_lazy_user_del = False, sv_propagated = [], sv_notified = [], sv_expiredkeys = 0,
     sv_hits = 0, sv_misses = 0\<rparr>"

definition sample_server :: "bytes list \<Rightarrow> (bytes \<times> robj) list \<Rightarrow> (bytes \<times> int) list \<Rightarrow> server" where
  "sample_server argv kvs exps =
    rewriteClientCommandVector 0 argv
      (upd_db 0 (\<lambda>db. db\<lparr>db_dict := fmap_of_list kvs, db_expires := fmap_of_list exps\<rparr>) (initServer 1 sample_config))"

lemma sample_server_simps [simp]:
  "c_argv (sv_client (sample_server argv kvs exps) 0) = argv" "c_db (sv_client (sample_server argv kvs exps) 0) = 0"
  "dict_of (sample_server argv kvs exps) 0 k = map_of kvs k" "expires_of (sample_server argv kvs exps) 0 k = map_of exps k"
  "conf (sample_server argv kvs exps) = conf sample_config"
  by (simp_all add: sample_server_def initServer_def sample_config_def createClient_def upd_db_nth fmlookup_of_list conf_def)
    (simp_all add: rewriteClientCommandVector_def upd_client_def upd_db_def)

lemma sample_server_ok:
  assumes "fst ` set exps \<subseteq> fst ` set kvs" and "\<forall>(k, v) \<in> set kvs. obj_ok v"
  shows "srv_ok (sample_server argv kvs exps)"
proof -
  have "fmdom (fmap_of_list exps) |\<subseteq>| fmdom (fmap_of_list kvs)"
    using assms(1) by (simp add: fmdom_fmap_of_list less_eq_fset.rep_eq fset_of_list.rep_eq)
  then show ?thesis
    using assms(2)
    by (auto simp: srv_ok_def sample_server_def initServer_def createClient_def db_ok_def upd_db_def fmpred_iff
        fmlookup_of_list dest!: map_of_SomeD)
qed

subsection \<open>RENAME\<close>

text \<open>
  C8. \<open>RENAME\<close> of an existing key that has not expired to another name moves the value together with its
  expire time to the destination, whatever the destination held, leaves every other key of every database
  alone and replies OK. (The expire time is not -1, by which \<open>getExpire\<close> reports that there is none.)
\<close>

theorem rename_carries:
  assumes ok: "srv_ok s" and args: "c_argv (sv_client s c) = [x, src, dst]" "src \<noteq> dst" "d = c_db (sv_client s c)"
    and key: "\<not> expired d src s" "dict_of s d src = Some v" "expires_of s d src \<noteq> Some (- 1)"
  shows "\<exists>s'. renameGenericCommand False c s = Some s' \<and>
    content s' d dst = content s d src \<and> content s' d src = (None, None) \<and>
    (\<forall>d' k. (d', k) \<notin> {(d, src), (d, dst)} \<longrightarrow> content s' d' k = content s d' k) \<and>
    c_reply (sv_client s' c) = c_reply (sv_client s c) @ [ROk]"
proof -
  have d: "d < length (sv_db s)" using ok args(3) by simp
  have e: "expires_of s d dst = None" if "dict_of s d dst = None"
    using expires_in_dict [OF ok d, of dst] that by (cases "expires_of s d dst") auto
  show ?thesis
    using ok args key d e
    by (cases "expires_of s d src")
      (auto simp: renameGenericCommand_def exec_simps expire_st_idle content_def expire_st_dict Let_def)
qed

theorem rename_carries_witness:
  "\<exists>s'. renameGenericCommand False 0 (sample_server [asc ''RENAME'', asc ''a'', asc ''b'']
      [(asc ''a'', StringObj (IntObj 5))] [(asc ''a'', 7000)]) = Some s' \<and>
    content s' 0 (asc ''b'') = (Some (StringObj (IntObj 5)), Some 7000)"
proof -
  let ?s = "sample_server [asc ''RENAME'', asc ''a'', asc ''b''] [(asc ''a'', StringObj (IntObj 5))] [(asc ''a'', 7000)]"
  have "srv_ok ?s" by (rule sample_server_ok) (simp_all add: int64_range_def)
  moreover have "\<not> expired 0 (asc ''a'') ?s" by code_simp
  moreover have "asc ''a'' \<noteq> asc ''b''" by code_simp
  ultimately show ?thesis
    using rename_carries [of ?s 0 "asc ''RENAME''" "asc ''a''" "asc ''b''" 0 "StringObj (IntObj 5)"] by (auto simp: content_def)
qed

end
