(* ===== verification/T_String.thy ===== *)
theory T_String
  imports Db_Logic
begin

section \<open>String commands (\<open>t_string.c\<close>)\<close>

text \<open>
  The commands of \<open>redis/redis-6.2.7/src/t_string.c\<close> except \<open>INCRBYFLOAT\<close> (\<open>long double\<close> arithmetic) and
  \<open>STRALGO\<close>. The arguments of a command are the byte strings \<open>c_argv\<close>; \<open>c->argv[2] = tryObjectEncoding (..)\<close>
  changes the representation of an argument and not its text. An allocation of \<open>2 ^ 63\<close> bytes or more
  fails, and with it the process.
\<close>

subsection \<open>SET and its variants\<close>

definition checkStringLength :: "nat \<Rightarrow> int \<Rightarrow> server \<Rightarrow> bool" where
  "checkStringLength c sz s \<longleftrightarrow> c_master (sv_client s c) \<or> sz \<le> sv_max_bulk s"

abbreviation (input) too_long :: string where
  "too_long \<equiv> ''string exceeds maximum allowed size (proto-max-bulk-len)''"

datatype time_unit = UNIT_SECONDS | UNIT_MILLISECONDS

record set_flags =
  OBJ_SET_NX :: bool
  OBJ_SET_XX :: bool
  OBJ_EX :: bool
  OBJ_PX :: bool
  OBJ_KEEPTTL :: bool
  OBJ_SET_GET :: bool
  OBJ_EXAT :: bool
  OBJ_PXAT :: bool
  OBJ_PERSIST :: bool

definition OBJ_NO_FLAGS :: set_flags where
  "OBJ_NO_FLAGS = \<lparr>OBJ_SET_NX = False, OBJ_SET_XX = False, OBJ_EX = False, OBJ_PX = False, OBJ_KEEPTTL = False,
     OBJ_SET_GET = False, OBJ_EXAT = False, OBJ_PXAT = False, OBJ_PERSIST = False\<rparr>"

text \<open>
  The validation of an expiry argument that \<open>SET\<close> and \<open>GETEX\<close> share: the time in milliseconds and
  the point in time, both 0 if there is no such argument, or the error.
\<close>

fun expire_arg :: "set_flags \<Rightarrow> time_unit \<Rightarrow> bytes option \<Rightarrow> string \<Rightarrow> int \<Rightarrow> (string, int \<times> int) sum" where
  "expire_arg flags unit None name now = Inr (0, 0)"
| "expire_arg flags unit (Some expire) name now =
    (case getLongLongArg expire of
       None \<Rightarrow> Inl notinteger
     | Some milliseconds \<Rightarrow>
         if milliseconds \<le> 0 \<or> unit = UNIT_SECONDS \<and> milliseconds > (2 ^ 63 - 1) div 1000
         then Inl (''invalid expire time in '' @ name)
         else let milliseconds = (if unit = UNIT_SECONDS then milliseconds * 1000 else milliseconds);
                  w = (if OBJ_PX flags \<or> OBJ_EX flags then wrap64 (milliseconds + now) else milliseconds)
              in if w \<le> 0 then Inl (''invalid expire time in '' @ name) else Inr (milliseconds, w))"

definition getGenericCommand :: "nat \<Rightarrow> server \<Rightarrow> (server \<times> bool) option" where
  "getGenericCommand c s = do {
     (s, x) \<leftarrow> lookupKeyReadOrReply c (arg s c 1) RNull s;
     case checkType_string x of
       Wrong_type \<Rightarrow> Some (addReply c wrongtypeerr s, False)
     | Checked None \<Rightarrow> Some (s, True)
     | Checked (Some x) \<Rightarrow> Some (addReplyBulk c x s, True) }"

definition setGenericCommand ::
    "set_flags \<Rightarrow> bytes \<Rightarrow> bytes \<Rightarrow> bytes option \<Rightarrow> time_unit \<Rightarrow> reply \<Rightarrow> reply \<Rightarrow> nat \<Rightarrow> server \<Rightarrow> server option" where
  "setGenericCommand flags key val expire unit ok_reply abort_reply c s =
    (let d = c_db (sv_client s c) in
     case expire_arg flags unit expire (c_cmd (sv_client s c)) (sv_clock s) of
       Inl e \<Rightarrow> Some (addReplyError c e s)
     | Inr (milliseconds, w) \<Rightarrow> do {
         (s, nx_fails) \<leftarrow> (if OBJ_SET_NX flags then do { (s, x) \<leftarrow> lookupKeyWrite d key s; Some (s, x \<noteq> None) }
                          else Some (s, False));
         (s, fails) \<leftarrow> (if nx_fails then Some (s, True)
                       else if OBJ_SET_XX flags then do { (s, x) \<leftarrow> lookupKeyWrite d key s; Some (s, x = None) }
                       else Some (s, False));
         if fails then Some (addReply c abort_reply s)
         else do {
           (s, go) \<leftarrow> (if OBJ_SET_GET flags then getGenericCommand c s else Some (s, True));
           if \<not> go then Some s
           else do {
             s \<leftarrow> genericSetKey d key (StringObj (tryObjectEncoding val)) (OBJ_KEEPTTL flags) True s;
             let s = dirty_add 1 s;
             let s = notifyKeyspaceEvent NOTIFY_STRING ''set'' key d s;
             s \<leftarrow> (if expire \<noteq> None then do {
                    s \<leftarrow> setExpire d key w s;
                    let s = notifyKeyspaceEvent NOTIFY_GENERIC ''expire'' key d s;
                    let exp = (if OBJ_PXAT flags \<or> OBJ_EXAT flags then asc ''PXAT'' else asc ''PX'');
                    Some (rewriteClientCommandVector c
                      [asc ''SET'', key, val, exp, getDecodedObject (IntObj milliseconds)] s) }
                  else Some s);
             let s = (if \<not> OBJ_SET_GET flags then addReply c ok_reply s else s);
             Some (if OBJ_SET_GET flags \<and> expire = None
                   then rewriteClientCommandVector c
                     (take 3 (c_argv (sv_client s c)) @
                      filter (\<lambda>a. \<not> ci_eq a ''get'') (drop 3 (c_argv (sv_client s c)))) s
                   else s) } } })"

text \<open>
  One round of the loop of \<open>parseExtendedStringArgumentsOrReply\<close>: the new flags and, for an option that
  takes an argument (\<open>nxt\<close> says that there is one), the unit of time if the option sets it;
  \<^const>\<open>None\<close> for a syntax error.
\<close>

datatype command_type = COMMAND_GET | COMMAND_SET

definition extended_option ::
    "command_type \<Rightarrow> bytes \<Rightarrow> bool \<Rightarrow> set_flags \<Rightarrow> (set_flags \<times> time_unit option option) option" where
  "extended_option ty opt nxt flags =
    (if ci_eq opt ''nx'' \<and> \<not> OBJ_SET_XX flags \<and> \<not> OBJ_SET_GET flags \<and> ty = COMMAND_SET
     then Some (flags\<lparr>OBJ_SET_NX := True\<rparr>, None)
     else if ci_eq opt ''xx'' \<and> \<not> OBJ_SET_NX flags \<and> ty = COMMAND_SET
     then Some (flags\<lparr>OBJ_SET_XX := True\<rparr>, None)
     else if ci_eq opt ''get'' \<and> \<not> OBJ_SET_NX flags \<and> ty = COMMAND_SET
     then Some (flags\<lparr>OBJ_SET_GET := True\<rparr>, None)
     else if ci_eq opt ''KEEPTTL'' \<and> \<not> OBJ_PERSIST flags \<and> \<not> OBJ_EX flags \<and> \<not> OBJ_EXAT flags \<and>
       \<not> OBJ_PX flags \<and> \<not> OBJ_PXAT flags \<and> ty = COMMAND_SET
     then Some (flags\<lparr>OBJ_KEEPTTL := True\<rparr>, None)
     else if ci_eq opt ''PERSIST'' \<and> ty = COMMAND_GET \<and> \<not> OBJ_EX flags \<and> \<not> OBJ_EXAT flags \<and>
       \<not> OBJ_PX flags \<and> \<not> OBJ_PXAT flags \<and> \<not> OBJ_KEEPTTL flags
     then Some (flags\<lparr>OBJ_PERSIST := True\<rparr>, None)
     else if ci_eq opt ''ex'' \<and> \<not> OBJ_KEEPTTL flags \<and> \<not> OBJ_PERSIST flags \<and> \<not> OBJ_EXAT flags \<and>
       \<not> OBJ_PX flags \<and> \<not> OBJ_PXAT flags \<and> nxt
     then Some (flags\<lparr>OBJ_EX := True\<rparr>, Some None)
     else if ci_eq opt ''px'' \<and> \<not> OBJ_KEEPTTL flags \<and> \<not> OBJ_PERSIST flags \<and> \<not> OBJ_EX flags \<and>
       \<not> OBJ_EXAT flags \<and> \<not> OBJ_PXAT flags \<and> nxt
     then Some (flags\<lparr>OBJ_PX := True\<rparr>, Some (Some UNIT_MILLISECONDS))
     else if ci_eq opt ''exat'' \<and> \<not> OBJ_KEEPTTL flags \<and> \<not> OBJ_PERSIST flags \<and> \<not> OBJ_EX flags \<and>
       \<not> OBJ_PX flags \<and> \<not> OBJ_PXAT flags \<and> nxt
     then Some (flags\<lparr>OBJ_EXAT := True\<rparr>, Some None)
     else if ci_eq opt ''pxat'' \<and> \<not> OBJ_KEEPTTL flags \<and> \<not> OBJ_PERSIST flags \<and> \<not> OBJ_EX flags \<and>
       \<not> OBJ_EXAT flags \<and> \<not> OBJ_PX flags \<and> nxt
     then Some (flags\<lparr>OBJ_PXAT := True\<rparr>, Some (Some UNIT_MILLISECONDS))
     else None)"

fun parseExtendedStringArguments ::
    "command_type \<Rightarrow> bytes list \<Rightarrow> set_flags \<Rightarrow> time_unit \<Rightarrow> bytes option \<Rightarrow>
     (set_flags \<times> time_unit \<times> bytes option) option" where
  "parseExtendedStringArguments ty [] flags unit expire = Some (flags, unit, expire)"
| "parseExtendedStringArguments ty (opt # args) flags unit expire =
    (case extended_option ty opt (args \<noteq> []) flags of
       None \<Rightarrow> None
     | Some (flags, None) \<Rightarrow> parseExtendedStringArguments ty args flags unit expire
     | Some (flags, Some u) \<Rightarrow>
         parseExtendedStringArguments ty (tl args) flags (case u of None \<Rightarrow> unit | Some u \<Rightarrow> u) (Some (hd args)))"

definition setCommand :: "nat \<Rightarrow> server \<Rightarrow> server option" where
  "setCommand c s =
    (case parseExtendedStringArguments COMMAND_SET (drop 3 (c_argv (sv_client s c))) OBJ_NO_FLAGS UNIT_SECONDS None of
       None \<Rightarrow> Some (addReply c syntaxerr s)
     | Some (flags, unit, expire) \<Rightarrow>
         setGenericCommand flags (arg s c 1) (arg s c 2) expire unit ROk RNull c s)"

definition setnxCommand :: "nat \<Rightarrow> server \<Rightarrow> server option" where
  "setnxCommand c s =
    setGenericCommand (OBJ_NO_FLAGS\<lparr>OBJ_SET_NX := True\<rparr>) (arg s c 1) (arg s c 2) None UNIT_SECONDS (RInt 1) (RInt 0) c s"

definition setexCommand :: "nat \<Rightarrow> server \<Rightarrow> server option" where
  "setexCommand c s =
    setGenericCommand (OBJ_NO_FLAGS\<lparr>OBJ_EX := True\<rparr>) (arg s c 1) (arg s c 3) (Some (arg s c 2)) UNIT_SECONDS ROk RNull c s"

definition psetexCommand :: "nat \<Rightarrow> server \<Rightarrow> server option" where
  "psetexCommand c s =
    setGenericCommand (OBJ_NO_FLAGS\<lparr>OBJ_PX := True\<rparr>) (arg s c 1) (arg s c 3) (Some (arg s c 2)) UNIT_MILLISECONDS ROk RNull c s"

subsection \<open>GET and its variants\<close>

definition getCommand :: "nat \<Rightarrow> server \<Rightarrow> server option" where
  "getCommand c s = map_option fst (getGenericCommand c s)"

text \<open>From \<open>expire.c\<close>: a time in the past, on a master that is not loading.\<close>

definition checkAlreadyExpired :: "int \<Rightarrow> server \<Rightarrow> bool" where
  "checkAlreadyExpired w s \<longleftrightarrow> w \<le> sv_clock s \<and> \<not> sv_loading s \<and> \<not> sv_masterhost s"

definition getexCommand :: "nat \<Rightarrow> server \<Rightarrow> server option" where
  "getexCommand c s =
    (let d = c_db (sv_client s c); key = arg s c 1 in
     case parseExtendedStringArguments COMMAND_GET (drop 2 (c_argv (sv_client s c))) OBJ_NO_FLAGS UNIT_SECONDS None of
       None \<Rightarrow> Some (addReply c syntaxerr s)
     | Some (flags, unit, expire) \<Rightarrow> do {
         (s, x) \<leftarrow> lookupKeyReadOrReply c key RNull s;
         case checkType_string x of
           Wrong_type \<Rightarrow> Some (addReply c wrongtypeerr s)
         | Checked None \<Rightarrow> Some s
         | Checked (Some x) \<Rightarrow>
             (case expire_arg flags unit expire (c_cmd (sv_client s c)) (sv_clock s) of
                Inl e \<Rightarrow> Some (addReplyError c e s)
              | Inr (milliseconds, w) \<Rightarrow>
                  let s = addReplyBulk c x s in
                  if (OBJ_PXAT flags \<or> OBJ_EXAT flags) \<and> checkAlreadyExpired milliseconds s then do {
                    let (s, deleted) = dbSyncDelete d key s;
                    if \<not> deleted then None
                    else do {
                      let s = rewriteClientCommandVector c
                        [if sv_lazy_expire s then asc ''UNLINK'' else asc ''DEL'', key] s;
                      let s = signalModifiedKey d key s;
                      let s = notifyKeyspaceEvent NOTIFY_GENERIC ''del'' key d s;
                      Some (dirty_add 1 s) } }
                  else if expire \<noteq> None then do {
                    s \<leftarrow> setExpire d key w s;
                    let exp = (if OBJ_PXAT flags \<or> OBJ_EXAT flags then asc ''PEXPIREAT'' else asc ''PEXPIRE'');
                    let s = rewriteClientCommandVector c [exp, key, getDecodedObject (IntObj milliseconds)] s;
                    let s = signalModifiedKey d key s;
                    let s = notifyKeyspaceEvent NOTIFY_GENERIC ''expire'' key d s;
                    Some (dirty_add 1 s) }
                  else if OBJ_PERSIST flags then do {
                    (s, removed) \<leftarrow> removeExpire d key s;
                    if removed then do {
                      let s = signalModifiedKey d key s;
                      let s = rewriteClientCommandVector c [asc ''PERSIST'', key] s;
                      let s = notifyKeyspaceEvent NOTIFY_GENERIC ''persist'' key d s;
                      Some (dirty_add 1 s) }
                    else Some s }
                  else Some s) })"

definition getdelCommand :: "nat \<Rightarrow> server \<Rightarrow> server option" where
  "getdelCommand c s = do {
     let d = c_db (sv_client s c);
     let key = arg s c 1;
     (s, go) \<leftarrow> getGenericCommand c s;
     if \<not> go then Some s
     else do {
       let (s, deleted) = dbSyncDelete d key s;
       if deleted then do {
         let s = rewriteClientCommandVector c
           [if sv_lazy_user_del s then asc ''UNLINK'' else asc ''DEL'', key] s;
         let s = signalModifiedKey d key s;
         let s = notifyKeyspaceEvent NOTIFY_GENERIC ''del'' key d s;
         Some (dirty_add 1 s) }
       else Some s } }"

definition getsetCommand :: "nat \<Rightarrow> server \<Rightarrow> server option" where
  "getsetCommand c s = do {
     let d = c_db (sv_client s c);
     let key = arg s c 1;
     (s, go) \<leftarrow> getGenericCommand c s;
     if \<not> go then Some s
     else do {
       s \<leftarrow> setKey d key (StringObj (tryObjectEncoding (arg s c 2))) s;
       let s = notifyKeyspaceEvent NOTIFY_STRING ''set'' key d s;
       let s = dirty_add 1 s;
       Some (rewriteClientCommandVector c ((c_argv (sv_client s c))[0 := asc ''SET'']) s) } }"

subsection \<open>Ranges\<close>

text \<open>
  A fresh string of zero bytes, and a string grown with zero bytes. A block of \<open>2 ^ 63\<close> bytes or more is never
  allocated, and the failed allocation ends the server.
\<close>

definition sds_zero :: "int \<Rightarrow> bytes option" where
  "sds_zero n = (if n < 2 ^ 63 then Some (replicate (nat n) 0) else None)"

definition sdsgrowzero :: "bytes \<Rightarrow> int \<Rightarrow> bytes option" where
  "sdsgrowzero x n =
    (if n \<le> int (length x) then Some x
     else if n < 2 ^ 63 then Some (x @ replicate (nat n - length x) 0) else None)"

text \<open>\<open>offset + sdslen (value)\<close> is a \<open>size_t\<close>, and a \<open>long long\<close> in \<open>checkStringLength\<close>.\<close>

definition setrangeCommand :: "nat \<Rightarrow> server \<Rightarrow> server option" where
  "setrangeCommand c s =
    (let d = c_db (sv_client s c); key = arg s c 1; val = arg s c 3 in
     case getLongLongArg (arg s c 2) of
       None \<Rightarrow> Some (addReplyError c notinteger s)
     | Some offset \<Rightarrow>
         if offset < 0 then Some (addReplyError c ''offset is out of range'' s)
         else do {
           let total = offset + int (length val);
           (s, x) \<leftarrow> lookupKeyWrite d key s;
           case checkType_string x of
             Wrong_type \<Rightarrow> Some (addReply c wrongtypeerr s)
           | Checked x \<Rightarrow>
               if val = [] then Some (addReplyLongLong c (case x of None \<Rightarrow> 0 | Some x \<Rightarrow> int (stringObjectLen x)) s)
               else if \<not> checkStringLength c (wrap64 total) s then Some (addReplyError c too_long s)
               else do {
                 (s, p) \<leftarrow> (case x of
                     None \<Rightarrow> do {
                       p \<leftarrow> sds_zero total;
                       s \<leftarrow> dbAdd d key (StringObj (SdsObj p)) s;
                       Some (s, p) }
                   | Some x \<Rightarrow> dbUnshareStringValue d key x s);
                 p \<leftarrow> sdsgrowzero p total;
                 let p = memcpy p (nat offset) val;
                 s \<leftarrow> setObject d key (StringObj (SdsObj p)) s;
                 let s = signalModifiedKey d key s;
                 let s = notifyKeyspaceEvent NOTIFY_STRING ''setrange'' key d s;
                 Some (addReplyLongLong c (int (length p)) (dirty_add 1 s)) } })"

text \<open>
  The conversion of negative indexes and their limits, and the check for an empty range before and
  after it: the first and the last position, if there is anything between them.
\<close>

definition clip_indexes :: "int \<Rightarrow> int \<Rightarrow> int \<Rightarrow> int \<times> int" where
  "clip_indexes strlen start e =
    (let start = (if start < 0 then strlen + start else start);
         e = (if e < 0 then strlen + e else e);
         start = (if start < 0 then 0 else start);
         e = (if e < 0 then 0 else e)
     in (start, if e \<ge> strlen then strlen - 1 else e))"

definition clip_range :: "int \<Rightarrow> int \<Rightarrow> int \<Rightarrow> (int \<times> int) option" where
  "clip_range strlen start e =
    (if start < 0 \<and> e < 0 \<and> start > e then None
     else let (start, e) = clip_indexes strlen start e
          in if start > e \<or> strlen = 0 then None else Some (start, e))"

definition getrangeCommand :: "nat \<Rightarrow> server \<Rightarrow> server option" where
  "getrangeCommand c s =
    (case getLongLongArg (arg s c 2) of
       None \<Rightarrow> Some (addReplyError c notinteger s)
     | Some start \<Rightarrow>
         case getLongLongArg (arg s c 3) of
           None \<Rightarrow> Some (addReplyError c notinteger s)
         | Some e \<Rightarrow> do {
             (s, x) \<leftarrow> lookupKeyReadOrReply c (arg s c 1) (RBulk []) s;
             case checkType_string x of
               Wrong_type \<Rightarrow> Some (addReply c wrongtypeerr s)
             | Checked None \<Rightarrow> Some s
             | Checked (Some x) \<Rightarrow>
                 let str = getDecodedObject x in
                 Some (addReply c (case clip_range (int (length str)) start e of
                     None \<Rightarrow> RBulk []
                   | Some (start, e) \<Rightarrow> RBulk (take (nat (e - start + 1)) (drop (nat start) str))) s) })"

subsection \<open>Several keys\<close>

fun mget_loop :: "nat \<Rightarrow> nat \<Rightarrow> bytes list \<Rightarrow> server \<Rightarrow> server option" where
  "mget_loop c d [] s = Some s"
| "mget_loop c d (key # keys) s = do {
     (s, x) \<leftarrow> lookupKeyRead d key s;
     mget_loop c d keys (case x of Some (StringObj so) \<Rightarrow> addReplyBulk c so s | _ \<Rightarrow> addReply c RNull s) }"

definition mgetCommand :: "nat \<Rightarrow> server \<Rightarrow> server option" where
  "mgetCommand c s =
    mget_loop c (c_db (sv_client s c)) (tl (c_argv (sv_client s c))) (addReply c (RArrayLen (argc s c - 1)) s)"

text \<open>The keys and values of \<open>MSET\<close>, two arguments at a time.\<close>

fun pairs_of :: "'a list \<Rightarrow> ('a \<times> 'a) list" where
  "pairs_of (k # v # xs) = (k, v) # pairs_of xs"
| "pairs_of xs = []"

fun msetnx_check :: "nat \<Rightarrow> (bytes \<times> bytes) list \<Rightarrow> server \<Rightarrow> (server \<times> bool) option" where
  "msetnx_check d [] s = Some (s, True)"
| "msetnx_check d ((key, val) # kvs) s = do {
     (s, x) \<leftarrow> lookupKeyWrite d key s;
     if x \<noteq> None then Some (s, False) else msetnx_check d kvs s }"

fun mset_loop :: "nat \<Rightarrow> (bytes \<times> bytes) list \<Rightarrow> server \<Rightarrow> server option" where
  "mset_loop d [] s = Some s"
| "mset_loop d ((key, val) # kvs) s = do {
     s \<leftarrow> setKey d key (StringObj (tryObjectEncoding val)) s;
     mset_loop d kvs (notifyKeyspaceEvent NOTIFY_STRING ''set'' key d s) }"

definition msetGenericCommand :: "bool \<Rightarrow> nat \<Rightarrow> server \<Rightarrow> server option" where
  "msetGenericCommand nx c s =
    (let d = c_db (sv_client s c); n = argc s c; kvs = pairs_of (tl (c_argv (sv_client s c))) in
     if n mod 2 = 0 then Some (addReplyError c ''wrong number of arguments for MSET'' s)
     else do {
       (s, go) \<leftarrow> (if nx then msetnx_check d kvs s else Some (s, True));
       if \<not> go then Some (addReply c (RInt 0) s)
       else do {
         s \<leftarrow> mset_loop d kvs s;
         let s = dirty_add (int ((n - 1) div 2)) s;
         Some (addReply c (if nx then RInt 1 else ROk) s) } })"

subsection \<open>Counters\<close>

text \<open>The object that is changed in place and the new object have the same value.\<close>

definition incrDecrCommand :: "int \<Rightarrow> nat \<Rightarrow> server \<Rightarrow> server option" where
  "incrDecrCommand incr c s = do {
     let d = c_db (sv_client s c);
     let key = arg s c 1;
     (s, x) \<leftarrow> lookupKeyWrite d key s;
     case checkType_string x of
       Wrong_type \<Rightarrow> Some (addReply c wrongtypeerr s)
     | Checked x \<Rightarrow>
         (case getLongLongFromObject x of
            None \<Rightarrow> Some (addReplyError c notinteger s)
          | Some oldvalue \<Rightarrow>
              if incr < 0 \<and> oldvalue < 0 \<and> incr < - (2 ^ 63) - oldvalue \<or>
                 incr > 0 \<and> oldvalue > 0 \<and> incr > 2 ^ 63 - 1 - oldvalue
              then Some (addReplyError c ''increment or decrement would overflow'' s)
              else do {
                let val = wrap64 (oldvalue + incr);
                let new = StringObj (createStringObjectFromLongLongForValue val);
                s \<leftarrow> (if x \<noteq> None then dbOverwrite d key new s else dbAdd d key new s);
                let s = signalModifiedKey d key s;
                let s = notifyKeyspaceEvent NOTIFY_STRING ''incrby'' key d s;
                Some (addReplyLongLong c val (dirty_add 1 s)) }) }"

definition incrCommand :: "nat \<Rightarrow> server \<Rightarrow> server option" where "incrCommand c s = incrDecrCommand 1 c s"

definition decrCommand :: "nat \<Rightarrow> server \<Rightarrow> server option" where "decrCommand c s = incrDecrCommand (- 1) c s"

definition incrbyCommand :: "nat \<Rightarrow> server \<Rightarrow> server option" where
  "incrbyCommand c s =
    (case getLongLongArg (arg s c 2) of
       None \<Rightarrow> Some (addReplyError c notinteger s)
     | Some incr \<Rightarrow> incrDecrCommand incr c s)"

definition decrbyCommand :: "nat \<Rightarrow> server \<Rightarrow> server option" where
  "decrbyCommand c s =
    (case getLongLongArg (arg s c 2) of
       None \<Rightarrow> Some (addReplyError c notinteger s)
     | Some incr \<Rightarrow> incrDecrCommand (wrap64 (- incr)) c s)"

subsection \<open>APPEND and STRLEN\<close>

definition appendCommand :: "nat \<Rightarrow> server \<Rightarrow> server option" where
  "appendCommand c s = do {
     let d = c_db (sv_client s c);
     let key = arg s c 1;
     let append = arg s c 2;
     let finish = (\<lambda>totlen s. do {
       let s = signalModifiedKey d key s;
       let s = notifyKeyspaceEvent NOTIFY_STRING ''append'' key d s;
       Some (addReplyLongLong c (int totlen) (dirty_add 1 s)) });
     (s, x) \<leftarrow> lookupKeyWrite d key s;
     case checkType_string x of
       Wrong_type \<Rightarrow> Some (addReply c wrongtypeerr s)
     | Checked None \<Rightarrow> do {
         s \<leftarrow> dbAdd d key (StringObj (tryObjectEncoding append)) s;
         finish (stringObjectLen (tryObjectEncoding append)) s }
     | Checked (Some x) \<Rightarrow>
         if \<not> checkStringLength c (int (stringObjectLen x + length append)) s
         then Some (addReplyError c too_long s)
         else do {
           (s, p) \<leftarrow> dbUnshareStringValue d key x s;
           let p = p @ append;
           s \<leftarrow> setObject d key (StringObj (SdsObj p)) s;
           finish (length p) s } }"

definition strlenCommand :: "nat \<Rightarrow> server \<Rightarrow> server option" where
  "strlenCommand c s = do {
     (s, x) \<leftarrow> lookupKeyReadOrReply c (arg s c 1) (RInt 0) s;
     case checkType_string x of
       Wrong_type \<Rightarrow> Some (addReply c wrongtypeerr s)
     | Checked None \<Rightarrow> Some s
     | Checked (Some x) \<Rightarrow> Some (addReplyLongLong c (int (stringObjectLen x)) s) }"

subsection \<open>Every command returns and tracks its changes\<close>

lemmas string_splits = option.splits robj.splits checked.splits

lemma tryObjectEncoding_text: "obj_text (tryObjectEncoding s) = s"
  by (auto simp: tryObjectEncoding_def string2l_def string2ll_iff split: option.splits if_splits)

lemma tryObjectEncoding_long [simp]: "long_obj (tryObjectEncoding s)"
  by (auto simp: tryObjectEncoding_def string2l_def string2ll_iff split: option.splits if_splits)

lemma getGeneric_reads: "srv_ok s \<Longrightarrow> reads_val s (getGenericCommand c s)"
  by (auto simp: getGenericCommand_def exec_simps checkType_string_def Let_def intro!: tracked_intro split: string_splits)

lemma get_reads: "srv_ok s \<Longrightarrow> reads s (getCommand c s)"
  using getGeneric_reads [of s c] by (auto simp: getCommand_def reads_val_def reads_def)

lemma getdel_runs: "srv_ok s \<Longrightarrow> runs s (getdelCommand c s)"
  by (auto simp: getdelCommand_def getGenericCommand_def exec_simps checkType_string_def Let_def intro!: tracked_intro split: string_splits)

lemma getset_runs: "srv_ok s \<Longrightarrow> runs s (getsetCommand c s)"
  by (auto simp: getsetCommand_def getGenericCommand_def exec_simps checkType_string_def Let_def intro!: tracked_intro split: string_splits)

lemma strlen_reads: "srv_ok s \<Longrightarrow> reads s (strlenCommand c s)"
  by (auto simp: strlenCommand_def exec_simps checkType_string_def Let_def intro!: tracked_intro split: string_splits)

lemma getrange_reads: "srv_ok s \<Longrightarrow> reads s (getrangeCommand c s)"
  by (auto simp: getrangeCommand_def exec_simps checkType_string_def Let_def intro!: tracked_intro split: string_splits)

lemma incrDecr_runs: "srv_ok s \<Longrightarrow> runs s (incrDecrCommand n c s)"
  by (auto simp: incrDecrCommand_def exec_simps checkType_string_def Let_def createStringObjectFromLongLongForValue_def intro!: tracked_intro split: string_splits)

lemma append_runs: "srv_ok s \<Longrightarrow> runs s (appendCommand c s)"
  by (auto simp: appendCommand_def exec_simps checkType_string_def Let_def intro!: tracked_intro split: string_splits)

text \<open>\<open>SET\<close> sets the time to live after it has announced the change.\<close>

lemma set_exp_commute:
  "set_exp d k w (notifyKeyspaceEvent cl ev k' d' s) = notifyKeyspaceEvent cl ev k' d' (set_exp d k w s)"
  "set_exp d k w (dirty_add n s) = dirty_add n (set_exp d k w s)"
  "set_exp d k w (signalModifiedKey d' k' s) = signalModifiedKey d' k' (set_exp d k w s)"
proof -
  have "watching (set_exp d k w s) d' k' = watching s d' k'" by (simp add: watching_def)
  then show "set_exp d k w (signalModifiedKey d' k' s) = signalModifiedKey d' k' (set_exp d k w s)"
    unfolding signalModifiedKey_eq set_exp.client by (simp add: set_exp_def upd_db_def)
qed (simp_all add: set_exp_def upd_db_def notifyKeyspaceEvent_def dirty_add_def)

lemma setGeneric_runs: "srv_ok s \<Longrightarrow> runs s (setGenericCommand flags k v e u ok_r ab_r c s)"
proof (cases "expire_arg flags u e (c_cmd (sv_client s c)) (sv_clock s)")
  case (Inr p)
  assume ok: "srv_ok s"
  then have d: "c_db (sv_client s c) < length (sv_db s)" by simp
  obtain ms w where p: "p = (ms, w)" by (cases p)
  show ?thesis
    unfolding setGenericCommand_def Let_def Inr p sum.case prod.case
    apply (rule runs_bind)
    subgoal using ok by (simp add: exec_simps tracked_intro)
    subgoal for s1 x1
      unfolding prod.case
      apply (rule runs_bind)
      subgoal using d by (simp add: exec_simps tracked_intro)
      subgoal for s2 x2
        using d
        by (auto simp: exec_simps set_exp_commute set_key_def Let_def reads_val_runs getGeneric_reads intro!: tracked_intro runs_bind)
      done
    done
qed (simp add: setGenericCommand_def tracked_intro)

lemma mget_loop_reads: "srv_ok s \<Longrightarrow> d < length (sv_db s) \<Longrightarrow> reads s (mget_loop c d ks s)"
proof (induction ks arbitrary: s)
  case (Cons k ks)
  let ?t = "case read_val d k s of Some (StringObj so) \<Rightarrow> addReplyBulk c so (read_st d k s) | _ \<Rightarrow> addReply c RNull (read_st d k s)"
  have t: "tracked s {} False ?t" "srv_ok ?t" "length (sv_db ?t) = length (sv_db s)" "sv_dirty ?t = sv_dirty s"
    using Cons.prems by (auto intro!: tracked_intro split: option.splits robj.splits)
  have "reads s (mget_loop c d ks ?t)"
    using Cons t by (intro reads_trans [OF t(1) t(4)]) simp
  then show ?case using Cons.prems by (simp add: exec_simps)
qed (simp add: tracked_intro)

lemma mget_reads: "srv_ok s \<Longrightarrow> reads s (mgetCommand c s)"
  unfolding mgetCommand_def by (rule reads_trans [OF _ _ mget_loop_reads]) (auto intro!: tracked_intro)

lemma msetnx_check_runs: "srv_ok s \<Longrightarrow> d < length (sv_db s) \<Longrightarrow> runs_val s (msetnx_check d kvs s)"
proof (induction kvs arbitrary: s)
  case (Cons kv kvs)
  obtain k v where kv: "kv = (k, v)" by (cases kv)
  have t: "tracked s {} False (expire_st d k s)" using Cons.prems by (simp add: tracked_intro)
  then have "runs_val s (msetnx_check d kvs (expire_st d k s))"
    using Cons by (intro runs_val_trans [OF t]) simp
  then show ?case using Cons.prems t kv by (simp add: exec_simps)
qed (simp add: tracked_intro)

lemma getex_runs: "srv_ok s \<Longrightarrow> runs s (getexCommand c s)"
proof (cases "parseExtendedStringArguments COMMAND_GET (drop 2 (c_argv (sv_client s c))) OBJ_NO_FLAGS UNIT_SECONDS None")
  case (Some r)
  assume ok: "srv_ok s"
  let ?d = "c_db (sv_client s c)" and ?k = "arg s c (Suc 0)"
  let ?s = "read_st ?d ?k s"
  obtain flags u e where r: "r = (flags, u, e)" by (cases r)
  note run = getexCommand_def exec_simps Let_def checkType_string_def
  show ?thesis
  proof (cases "read_val ?d ?k s")
    case None
    then show ?thesis using ok Some r by (simp add: run tracked_intro)
  next
    case val: (Some v)
    then have dict: "dict_of ?s ?d ?k = Some v" by (simp add: read_val_dict)
    show ?thesis
    proof (cases v)
      case (OtherObj t b)
      then show ?thesis using ok Some r val by (simp add: run tracked_intro)
    next
      case (StringObj x)
      show ?thesis
        using ok Some r val dict StringObj
        by (cases "expire_arg flags u e (c_cmd (sv_client ?s c)) (sv_clock s)")
          (auto simp: run intro!: tracked_intro)
    qed
  qed
qed (simp add: getexCommand_def Let_def tracked_intro)

lemma mset_loop_runs:
  assumes "srv_ok s" and "d < length (sv_db s)"
  shows "\<exists>s'. mset_loop d kvs s = Some s' \<and> tracked s {} True s'"
  using assms
proof (induction kvs arbitrary: s)
  case (Cons kv kvs)
  obtain k v where kv: "kv = (k, v)" by (cases kv)
  let ?s = "notifyKeyspaceEvent NOTIFY_STRING ''set'' k d
    (signalModifiedKey d k (set_key d k (StringObj (tryObjectEncoding v)) False s))"
  have 1: "tracked s {} True ?s" using Cons.prems by (auto intro!: tracked_intro)
  obtain s' where s': "mset_loop d kvs ?s = Some s'" "tracked ?s {} True s'"
    using Cons.IH [OF tracked_ok [OF 1]] Cons.prems by auto
  then show ?case
    using tracked_trans_pending [OF 1 s'(2)] Cons.prems kv by (simp add: exec_simps)
qed (simp add: tracked_intro)

lemma mset_runs:
  assumes ok: "srv_ok s" and argc: "3 \<le> argc s c"
  shows "runs s (msetGenericCommand nx c s)"
proof -
  let ?d = "c_db (sv_client s c)" and ?kvs = "pairs_of (tl (c_argv (sv_client s c)))"
  have "runs s' (mset_loop ?d ?kvs s' \<bind> (\<lambda>s'. Some (addReply c r (dirty_add (int ((argc s c - 1) div 2)) s'))))"
    if ok': "srv_ok s'" and d: "?d < length (sv_db s')" for s' r
    using mset_loop_runs [OF ok' d, of ?kvs] argc by (auto intro!: tracked_intro)
  then show ?thesis
    using ok unfolding msetGenericCommand_def Let_def
    by (auto simp: msetnx_check_runs intro!: tracked_intro runs_bind)
qed

lemma setrange_runs:
  assumes "srv_ok s" and "\<And>offset. getLongLongArg (arg s c 2) = Some offset \<Longrightarrow> offset + int (length (arg s c 3)) < 2 ^ 63"
  shows "runs s (setrangeCommand c s)"
  using assms
  by (auto simp: setrangeCommand_def exec_simps checkType_string_def Let_def sds_zero_def sdsgrowzero_def
    intro!: tracked_intro split: string_splits)

subsection \<open>Values of commands\<close>

lemma getDecodedObject_encode [simp]: "getDecodedObject (tryObjectEncoding v) = v"
  by (simp add: getDecodedObject_eq tryObjectEncoding_text)

text \<open>
  C7. After a \<open>SET\<close> without options, whatever the key held before and however the value is encoded, \<open>GET\<close> of
  the same client returns the value, and \<open>SET\<close> leaves every other key of every database alone.
\<close>

theorem set_get:
  assumes "srv_ok s" and "c_argv (sv_client s c) = [x, k, v]"
  shows "\<exists>s1 s2. setCommand c s = Some s1 \<and> getCommand c (rewriteClientCommandVector c [y, k] s1) = Some s2 \<and>
    c_reply (sv_client s1 c) = c_reply (sv_client s c) @ [ROk] \<and>
    c_reply (sv_client s2 c) = c_reply (sv_client s1 c) @ [RBulk v] \<and>
    (\<forall>d' k'. (d', k') \<noteq> (c_db (sv_client s c), k) \<longrightarrow> content s1 d' k' = content s d' k')"
proof -
  let ?d = "c_db (sv_client s c)"
  define s1 where "s1 = addReply c ROk (notifyKeyspaceEvent NOTIFY_STRING ''set'' k ?d (dirty_add 1 (signalModifiedKey ?d k
    (set_key ?d k (StringObj (tryObjectEncoding v)) False s))))"
  have d: "?d < length (sv_db s)" using assms(1) by simp
  have 1: "setCommand c s = Some s1"
    using assms by (simp add: setCommand_def setGenericCommand_def OBJ_NO_FLAGS_def exec_simps s1_def Let_def)
  have "tracked s {} False s1" using assms(1) unfolding s1_def by (auto intro!: tracked_intro)
  then have ok: "srv_ok s1" by (rule tracked_ok)
  let ?t = "rewriteClientCommandVector c [y, k] s1"
  have "read_val ?d k ?t = Some (StringObj (tryObjectEncoding v))"
    using d by (simp add: read_val_def expired_def expire_st_dict s1_def set_key_entries)
  then have "\<exists>s2. getCommand c ?t = Some s2 \<and> c_reply (sv_client s2 c) = c_reply (sv_client s1 c) @ [RBulk v]"
    using ok by (simp add: getCommand_def getGenericCommand_def exec_simps checkType_string_def Let_def s1_def)
  moreover have "content s1 d' k' = content s d' k'" if "(d', k') \<noteq> (?d, k)" for d' k'
    using set_key_other [OF that] by (simp add: s1_def content_def)
  ultimately show ?thesis using 1 by (auto simp: s1_def)
qed

theorem set_get_witness:
  "\<exists>s1 s2. setCommand 0 (sample_server [asc ''SET'', asc ''k'', asc ''17''] [] []) = Some s1 \<and>
    getCommand 0 (rewriteClientCommandVector 0 [asc ''GET'', asc ''k''] s1) = Some s2 \<and>
    c_reply (sv_client s2 0) = c_reply (sv_client s1 0) @ [RBulk (asc ''17'')]"
proof -
  have "srv_ok (sample_server [asc ''SET'', asc ''k'', asc ''17''] [] [])" by (rule sample_server_ok) simp_all
  from set_get [OF this, of 0 "asc ''SET''" "asc ''k''" "asc ''17''" "asc ''GET''"] show ?thesis by auto
qed





text \<open>
  C10. On a master a key whose time has come is never returned, even if it was not deleted yet: \<open>GET\<close> replies
  null, the key is deleted, and exactly this deletion is propagated. (The clients are not paused, and the
  call is not part of a transaction, where a \<open>MULTI\<close> may precede the deletion in the stream.)
\<close>

theorem get_expired:
  assumes ok: "srv_ok s" and key: "d = c_db (sv_client s c)" "k = arg s c 1" "expired d k s"
    and master: "\<not> sv_masterhost s" "\<not> sv_paused s" "\<not> sv_in_exec s"
  shows "\<exists>s'. getCommand c s = Some s' \<and> content s' d k = (None, None) \<and>
    c_reply (sv_client s' c) = c_reply (sv_client s c) @ [RNull] \<and>
    sv_propagated s' = sv_propagated s @ [(d, [if sv_lazy_expire s then asc ''UNLINK'' else asc ''DEL'', k])]"
proof -
  have d: "d < length (sv_db s)" using ok key(1) by simp
  have "sv_propagated (expire_st d k s) = sv_propagated s @ [(d, [if sv_lazy_expire s then asc ''UNLINK'' else asc ''DEL'', k])]"
    using key(3) master by (simp add: expire_st_def expired_count_def prop_st_def notifyKeyspaceEvent_def)
  then show ?thesis
    using ok key master d
    by (auto simp: getCommand_def getGenericCommand_def exec_simps read_val_def read_st_def keymiss_def notifyKeyspaceEvent_def
        checkType_string_def content_def expire_st_dict Let_def)
qed

theorem get_expired_witness:
  "\<exists>s'. getCommand 0 (sample_server [asc ''GET'', asc ''k''] [(asc ''k'', StringObj (IntObj 1))] [(asc ''k'', 999)]) = Some s' \<and>
    content s' 0 (asc ''k'') = (None, None)"
proof -
  let ?s = "sample_server [asc ''GET'', asc ''k''] [(asc ''k'', StringObj (IntObj 1))] [(asc ''k'', 999)]"
  have ok: "srv_ok ?s" by (rule sample_server_ok) (simp_all add: int64_range_def)
  have "expired 0 (asc ''k'') ?s" by code_simp
  moreover have "\<not> sv_masterhost ?s" "\<not> sv_paused ?s" "\<not> sv_in_exec ?s" by code_simp+
  ultimately show ?thesis using get_expired [OF ok, of 0 0 "asc ''k''"] by auto
qed

lemma wrap64_period: "wrap64 (v + 2 ^ 64) = wrap64 v"
proof -
  have "word_of_int (v + 2 ^ 64) = (word_of_int v :: u64)" by (simp add: word_of_int_eq_iff take_bit_eq_mod)
  then show ?thesis by (simp only: wrap64_def)
qed

text \<open>
  C39. \<open>SETRANGE\<close> of a non-empty value to an absent key, with an offset whose sum with the length of the
  value is \<open>2 ^ 63\<close> or more, is not rejected: it passes the check of the maximal length, because the sum is
  converted to a negative number, and ends in the failed allocation of a string of that length.
\<close>

theorem setrange_abort:
  assumes ok: "srv_ok s" and args: "c_argv (sv_client s c) = [x, k, o', v]" "getLongLongArg o' = Some offset" "v \<noteq> []"
    and len: "0 \<le> offset" "2 ^ 63 \<le> offset + int (length v)" "int (length v) \<le> 2 ^ 63"
    and key: "\<not> expired (c_db (sv_client s c)) k s" "dict_of s (c_db (sv_client s c)) k = None" and max: "0 \<le> sv_max_bulk s"
  shows "setrangeCommand c s = None"
proof -
  have "offset \<le> 2 ^ 63 - 1" using args(2) by (auto simp: getLongLongArg_def string2ll_iff int64_range_def)
  then have "wrap64 (offset + int (length v)) = offset + int (length v) - 2 ^ 64"
    using len wrap64_period [of "offset + int (length v) - 2 ^ 64"] wrap64_id [of "offset + int (length v) - 2 ^ 64"]
    by (simp add: int64_range_def)
  then have "wrap64 (offset + int (length v)) \<le> sv_max_bulk s" using max \<open>offset \<le> 2 ^ 63 - 1\<close> len(3) by simp
  then show ?thesis
    using ok args len key
    by (simp add: setrangeCommand_def exec_simps expire_st_idle checkType_string_def checkStringLength_def sds_zero_def Let_def)
qed

theorem setrange_abort_witness:
  "setrangeCommand 0 (sample_server [asc ''SETRANGE'', asc ''k'', asc ''9223372036854775807'', asc ''x''] [] []) = None"
proof -
  let ?s = "sample_server [asc ''SETRANGE'', asc ''k'', asc ''9223372036854775807'', asc ''x''] [] []"
  have ok: "srv_ok ?s" by (rule sample_server_ok) simp_all
  have arg: "getLongLongArg (asc ''9223372036854775807'') = Some 9223372036854775807" by code_simp
  have "0 \<le> sv_max_bulk ?s" by code_simp
  moreover have "length (asc ''x'') = 1" "asc ''x'' \<noteq> []" by code_simp+
  ultimately show ?thesis using setrange_abort [OF ok, OF _ arg, of 0 "asc ''SETRANGE''" "asc ''k''" "asc ''x''"]
    by (simp add: expired_def)
qed

end
