(* ===== verification/Expire.thy ===== *)
theory Expire
  imports T_String
begin

section \<open>Expiry commands (\<open>expire.c\<close>)\<close>

text \<open>
  The commands of \<open>redis/redis-6.2.7/src/expire.c\<close> on the time to live of a key. Of the active
  expiry cycle the step on one key is modelled, but not the choice of the keys; the list of keys of a
  writable replica is not modelled.
\<close>

text \<open>The entry of the table of expiry times is that of \<open>key\<close>.\<close>

definition activeExpireCycleTryExpire :: "nat \<Rightarrow> bytes \<Rightarrow> int \<Rightarrow> server \<Rightarrow> (server \<times> bool) option" where
  "activeExpireCycleTryExpire d key now s =
    (case expires_of s d key of
       None \<Rightarrow> Some (s, False)
     | Some t \<Rightarrow>
         if now > t then do { s \<leftarrow> deleteExpiredKeyAndPropagate d key s; Some (s, True) }
         else Some (s, False))"

definition expireGenericCommand :: "int \<Rightarrow> time_unit \<Rightarrow> nat \<Rightarrow> server \<Rightarrow> server option" where
  "expireGenericCommand basetime unit c s =
    (let d = c_db (sv_client s c); key = arg s c 1;
         invalid = Some (addReplyError c (''invalid expire time in '' @ c_cmd (sv_client s c)) s) in
     case getLongLongArg (arg s c 2) of
       None \<Rightarrow> Some (addReplyError c notinteger s)
     | Some w \<Rightarrow>
         if unit = UNIT_SECONDS \<and> (w > (2 ^ 63 - 1) div 1000 \<or> w < - (2 ^ 63 div 1000)) then invalid
         else let w = (if unit = UNIT_SECONDS then w * 1000 else w) in
           if w > 2 ^ 63 - 1 - basetime then invalid
           else do {
             let w = w + basetime;
             (s, x) \<leftarrow> lookupKeyWrite d key s;
             if x = None then Some (addReply c (RInt 0) s)
             else if checkAlreadyExpired w s then do {
               let (s, deleted) = dbSyncDelete d key s;
               if \<not> deleted then None
               else do {
                 let s = dirty_add 1 s;
                 let s = rewriteClientCommandVector c
                   [if sv_lazy_expire s then asc ''UNLINK'' else asc ''DEL'', key] s;
                 let s = signalModifiedKey d key s;
                 let s = notifyKeyspaceEvent NOTIFY_GENERIC ''del'' key d s;
                 Some (addReply c (RInt 1) s) } }
             else do {
               s \<leftarrow> setExpire d key w s;
               let s = addReply c (RInt 1) s;
               let s = signalModifiedKey d key s;
               let s = notifyKeyspaceEvent NOTIFY_GENERIC ''expire'' key d s;
               Some (dirty_add 1 s) } })"

definition expireCommand :: "nat \<Rightarrow> server \<Rightarrow> server option" where
  "expireCommand c s = expireGenericCommand (sv_clock s) UNIT_SECONDS c s"

definition expireatCommand :: "nat \<Rightarrow> server \<Rightarrow> server option" where
  "expireatCommand c s = expireGenericCommand 0 UNIT_SECONDS c s"

definition pexpireCommand :: "nat \<Rightarrow> server \<Rightarrow> server option" where
  "pexpireCommand c s = expireGenericCommand (sv_clock s) UNIT_MILLISECONDS c s"

definition pexpireatCommand :: "nat \<Rightarrow> server \<Rightarrow> server option" where
  "pexpireatCommand c s = expireGenericCommand 0 UNIT_MILLISECONDS c s"

text \<open>The division of C rounds towards zero.\<close>

definition ttlGenericCommand :: "bool \<Rightarrow> nat \<Rightarrow> server \<Rightarrow> server option" where
  "ttlGenericCommand output_ms c s = do {
     let d = c_db (sv_client s c);
     let key = arg s c 1;
     (s, x) \<leftarrow> lookupKeyReadWithFlags d key s;
     if x = None then Some (addReplyLongLong c (- 2) s)
     else do {
       expire \<leftarrow> getExpire d key s;
       let ttl = (if expire \<noteq> - 1 then (let ttl = wrap64 (expire - sv_clock s) in if ttl < 0 then 0 else ttl) else - 1);
       Some (addReplyLongLong c (if ttl = - 1 then - 1 else if output_ms then ttl
                                 else let n = wrap64 (ttl + 500) in if n < 0 then - (- n div 1000) else n div 1000) s) } }"

definition ttlCommand :: "nat \<Rightarrow> server \<Rightarrow> server option" where "ttlCommand c s = ttlGenericCommand False c s"

definition pttlCommand :: "nat \<Rightarrow> server \<Rightarrow> server option" where "pttlCommand c s = ttlGenericCommand True c s"

definition persistCommand :: "nat \<Rightarrow> server \<Rightarrow> server option" where
  "persistCommand c s = do {
     let d = c_db (sv_client s c);
     let key = arg s c 1;
     (s, x) \<leftarrow> lookupKeyWrite d key s;
     if x \<noteq> None then do {
       (s, removed) \<leftarrow> removeExpire d key s;
       if removed then do {
         let s = signalModifiedKey d key s;
         let s = notifyKeyspaceEvent NOTIFY_GENERIC ''persist'' key d s;
         Some (dirty_add 1 (addReply c (RInt 1) s)) }
       else Some (addReply c (RInt 0) s) }
     else Some (addReply c (RInt 0) s) }"

definition touchCommand :: "nat \<Rightarrow> server \<Rightarrow> server option" where
  "touchCommand c s = do {
     (s, n) \<leftarrow> exists_loop (c_db (sv_client s c)) (tl (c_argv (sv_client s c))) s 0;
     Some (addReplyLongLong c n s) }"

subsection \<open>The commands return\<close>

lemma deleteExpired_reads:
  "srv_ok s \<Longrightarrow> \<not> sv_paused s \<Longrightarrow> reads s (deleteExpiredKeyAndPropagate d k s)"
  by (auto simp: deleteExpiredKeyAndPropagate_def propagateExpire_def exec_simps Let_def expired_count_def [symmetric]
      intro!: tracked_intro)

lemma tryExpire_reads:
  "srv_ok s \<Longrightarrow> \<not> sv_paused s \<Longrightarrow> reads_val s (activeExpireCycleTryExpire d k now s)"
  using deleteExpired_reads [of s d k]
  by (auto simp: activeExpireCycleTryExpire_def reads_def tracked_intro split: option.splits)

lemma expireGeneric_runs: "srv_ok s \<Longrightarrow> runs s (expireGenericCommand b u c s)"
  by (auto simp: expireGenericCommand_def exec_simps Let_def intro!: tracked_intro split: option.splits)

lemma ttl_reads: "srv_ok s \<Longrightarrow> reads s (ttlGenericCommand ms c s)"
  by (auto simp: ttlGenericCommand_def exec_simps Let_def intro!: tracked_intro)

lemma persist_runs: "srv_ok s \<Longrightarrow> runs s (persistCommand c s)"
  by (auto simp: persistCommand_def exec_simps Let_def intro!: tracked_intro)

lemma touch_reads: "srv_ok s \<Longrightarrow> reads s (touchCommand c s)"
  unfolding touchCommand_def by (rule reads_bind) (auto simp: exists_loop_reads tracked_intro)

end
