(* ===== verification/Bitops.thy ===== *)
theory Bitops
  imports Util
begin

section \<open>Bit counting, bit search and bit fields (\<open>bitops.c\<close>)\<close>

text \<open>
  Models the low-level functions of \<open>redis/redis-6.2.7/src/bitops.c\<close>: \<open>redisPopcount\<close>,
  \<open>redisBitpos\<close>, the four functions that read and write bit fields, and the two that detect their
  overflow. The address of a buffer is an argument where the code looks at its alignment. A bitmap is
  read from left to right, the most significant bit of the first byte being bit 0.

  The theorems: the population count that works on 28 bytes at a time counts the bits that are set;
  the word-wise search returns the position of the first bit; a bit field reads back what was written
  and no other bit changes; overflow is detected exactly, and the limit is the saturated or the
  wrapped value.
\<close>

subsection \<open>Counting\<close>

definition bitsinbyte :: "int list" where
  "bitsinbyte =
    [0,1,1,2,1,2,2,3,1,2,2,3,2,3,3,4,1,2,2,3,2,3,3,4,2,3,3,4,3,4,4,5,
     1,2,2,3,2,3,3,4,2,3,3,4,3,4,4,5,2,3,3,4,3,4,4,5,3,4,4,5,4,5,5,6,
     1,2,2,3,2,3,3,4,2,3,3,4,3,4,4,5,2,3,3,4,3,4,4,5,3,4,4,5,4,5,5,6,
     2,3,3,4,3,4,4,5,3,4,4,5,4,5,5,6,3,4,4,5,4,5,5,6,4,5,5,6,5,6,6,7,
     1,2,2,3,2,3,3,4,2,3,3,4,3,4,4,5,2,3,3,4,3,4,4,5,3,4,4,5,4,5,5,6,
     2,3,3,4,3,4,4,5,3,4,4,5,4,5,5,6,3,4,4,5,4,5,5,6,4,5,5,6,5,6,6,7,
     2,3,3,4,3,4,4,5,3,4,4,5,4,5,5,6,3,4,4,5,4,5,5,6,4,5,5,6,5,6,6,7,
     3,4,4,5,4,5,5,6,4,5,5,6,5,6,6,7,4,5,5,6,5,6,6,7,5,6,6,7,6,7,7,8]"

fun popcount_align :: "nat \<Rightarrow> bytes \<Rightarrow> int \<Rightarrow> bytes \<times> int" where
  "popcount_align addr [] bits = ([], bits)"
| "popcount_align addr (b # p) bits =
    (if addr mod 4 \<noteq> 0 then popcount_align (Suc addr) p (bits + bitsinbyte ! unat b) else (b # p, bits))"

definition load32 :: "bytes \<Rightarrow> nat \<Rightarrow> u32" where
  "load32 p i = word_of_int (get_le (take 4 (drop (4 * i) p)))"

definition popcount_aux :: "u32 \<Rightarrow> u32" where
  "popcount_aux aux =
    (let aux = aux - (drop_bit 1 aux AND 0x55555555)
     in (aux AND 0x33333333) + (drop_bit 2 aux AND 0x33333333))"

definition popcount_block :: "bytes \<Rightarrow> u32" where
  "popcount_block p =
    (let aux1 = popcount_aux (load32 p 0);
         aux2 = popcount_aux (load32 p 1);
         aux3 = popcount_aux (load32 p 2);
         aux4 = popcount_aux (load32 p 3);
         aux5 = popcount_aux (load32 p 4);
         aux6 = popcount_aux (load32 p 5);
         aux7 = popcount_aux (load32 p 6)
     in drop_bit 24
       ((((aux1 + drop_bit 4 aux1) AND 0x0F0F0F0F) +
         ((aux2 + drop_bit 4 aux2) AND 0x0F0F0F0F) +
         ((aux3 + drop_bit 4 aux3) AND 0x0F0F0F0F) +
         ((aux4 + drop_bit 4 aux4) AND 0x0F0F0F0F) +
         ((aux5 + drop_bit 4 aux5) AND 0x0F0F0F0F) +
         ((aux6 + drop_bit 4 aux6) AND 0x0F0F0F0F) +
         ((aux7 + drop_bit 4 aux7) AND 0x0F0F0F0F)) * 0x01010101))"

function popcount_blocks :: "bytes \<Rightarrow> int \<Rightarrow> bytes \<times> int" where
  "popcount_blocks p bits =
    (if length p \<ge> 28 then popcount_blocks (drop 28 p) (bits + uint (popcount_block p)) else (p, bits))"
  by pat_completeness auto
termination
  by (relation "measure (\<lambda>(p, bits). length p)") auto

declare popcount_blocks.simps [simp del]

definition redisPopcount :: "nat \<Rightarrow> bytes \<Rightarrow> int" where
  "redisPopcount addr s =
    (let (p, bits) = popcount_align addr s 0;
         (p, bits) = popcount_blocks p bits
     in foldl (\<lambda>bits b. bits + bitsinbyte ! unat b) bits p)"

subsection \<open>Searching\<close>

text \<open>The three loops: bytes up to an aligned address, whole words, and the bits of the last word.\<close>

fun bitpos_align :: "nat \<Rightarrow> byte \<Rightarrow> bytes \<Rightarrow> int \<Rightarrow> bytes \<times> int \<times> bool" where
  "bitpos_align addr skipval [] pos = ([], pos, False)"
| "bitpos_align addr skipval (b # c) pos =
    (if addr mod 8 = 0 then (b # c, pos, False)
     else if b \<noteq> skipval then (b # c, pos, True)
     else bitpos_align (Suc addr) skipval c (pos + 8))"

function bitpos_words :: "u64 \<Rightarrow> bytes \<Rightarrow> int \<Rightarrow> bytes \<times> int" where
  "bitpos_words skipval c pos =
    (if length c \<ge> 8 then
       if word_of_int (get_le (take 8 c)) \<noteq> skipval then (c, pos)
       else bitpos_words skipval (drop 8 c) (pos + 64)
     else (c, pos))"
  by pat_completeness auto
termination
  by (relation "measure (\<lambda>(s, c, pos). length c)") auto

declare bitpos_words.simps [simp del]

fun bitpos_load :: "nat \<Rightarrow> u64 \<Rightarrow> bytes \<Rightarrow> u64" where
  "bitpos_load 0 w c = w"
| "bitpos_load (Suc n) w [] = bitpos_load n (push_bit 8 w) []"
| "bitpos_load (Suc n) w (b # c) = bitpos_load n (push_bit 8 w OR ucast b) c"

text \<open>The mask \<open>one\<close> has the bit \<open>n - 1\<close> set; \<open>None\<close> is the panic at the end of the function.\<close>

fun bitpos_scan :: "nat \<Rightarrow> u64 \<Rightarrow> bool \<Rightarrow> int \<Rightarrow> int option" where
  "bitpos_scan 0 word b pos = None"
| "bitpos_scan (Suc n) word b pos =
    (if (push_bit n 1 AND word \<noteq> 0) = b then Some pos else bitpos_scan n word b (pos + 1))"

definition redisBitpos :: "nat \<Rightarrow> bytes \<Rightarrow> bool \<Rightarrow> int option" where
  "redisBitpos addr s b =
    (let (c, pos, found) = bitpos_align addr (if b then 0 else 0xff) s 0;
         (c, pos) = (if \<not> found then bitpos_words (if b then 0 else - 1) c pos else (c, pos));
         word = bitpos_load 8 0 c
     in if b \<and> word = 0 then Some (- 1) else bitpos_scan 64 word b pos)"

subsection \<open>Bit fields\<close>

fun setUnsignedBitfield_loop :: "nat \<Rightarrow> bytes \<Rightarrow> nat \<Rightarrow> u64 \<Rightarrow> bytes option" where
  "setUnsignedBitfield_loop 0 p offset val = Some p"
| "setUnsignedBitfield_loop (Suc k) p offset val = do {
     let bitval = (val AND push_bit k 1 \<noteq> 0);
     let bt = 7 - offset mod 8;
     byteval \<leftarrow> get_at p (offset div 8);
     let byteval = byteval AND NOT (push_bit bt 1);
     let byteval = byteval OR push_bit bt (of_bool bitval);
     p \<leftarrow> put_at p (int (offset div 8)) byteval;
     setUnsignedBitfield_loop k p (Suc offset) val }"

definition setUnsignedBitfield :: "bytes \<Rightarrow> nat \<Rightarrow> nat \<Rightarrow> u64 \<Rightarrow> bytes option" where
  "setUnsignedBitfield p offset bits val = setUnsignedBitfield_loop bits p offset val"

definition setSignedBitfield :: "bytes \<Rightarrow> nat \<Rightarrow> nat \<Rightarrow> int \<Rightarrow> bytes option" where
  "setSignedBitfield p offset bits val = setUnsignedBitfield p offset bits (word_of_int val)"

fun getUnsignedBitfield_loop :: "nat \<Rightarrow> bytes \<Rightarrow> nat \<Rightarrow> u64 \<Rightarrow> u64 option" where
  "getUnsignedBitfield_loop 0 p offset val = Some val"
| "getUnsignedBitfield_loop (Suc k) p offset val = do {
     byteval \<leftarrow> get_at p (offset div 8);
     let bitval = drop_bit (7 - offset mod 8) (ucast byteval) AND 1;
     getUnsignedBitfield_loop k p (Suc offset) (push_bit 1 val OR bitval) }"

definition getUnsignedBitfield :: "bytes \<Rightarrow> nat \<Rightarrow> nat \<Rightarrow> u64 option" where
  "getUnsignedBitfield p offset bits = getUnsignedBitfield_loop bits p offset 0"

definition getSignedBitfield :: "bytes \<Rightarrow> nat \<Rightarrow> nat \<Rightarrow> int option" where
  "getSignedBitfield p offset bits = do {
     val \<leftarrow> getUnsignedBitfield p offset bits;
     let val = (if bits < 64 \<and> val AND push_bit (bits - 1) 1 \<noteq> 0 then val OR push_bit bits (- 1) else val);
     Some (sint val) }"

subsection \<open>Overflow of bit fields\<close>

datatype bfoverflow = BFOVERFLOW_WRAP | BFOVERFLOW_SAT | BFOVERFLOW_FAIL

text \<open>
  The result is the return value and what is stored through \<open>limit\<close>, if anything is. Values of type
  \<open>int64_t\<close> are integers; the conversions to \<open>int64_t\<close> are written out with \<^const>\<open>sint\<close>.
\<close>

definition checkUnsignedBitfieldOverflow ::
    "u64 \<Rightarrow> int \<Rightarrow> nat \<Rightarrow> bfoverflow \<Rightarrow> int \<times> u64 option" where
  "checkUnsignedBitfieldOverflow val incr bits owtype =
    (let maxv = (if bits = 64 then - 1 else push_bit bits 1 - 1);
         maxincr = sint (maxv - val);
         minincr = sint (- val);
         wrap = (1, Some ((val + word_of_int incr) AND NOT (push_bit bits (- 1))))
     in if val > maxv \<or> incr > 0 \<and> incr > maxincr then
          (case owtype of BFOVERFLOW_WRAP \<Rightarrow> wrap | BFOVERFLOW_SAT \<Rightarrow> (1, Some maxv) | BFOVERFLOW_FAIL \<Rightarrow> (1, None))
        else if incr < 0 \<and> incr < minincr then
          (case owtype of BFOVERFLOW_WRAP \<Rightarrow> wrap | BFOVERFLOW_SAT \<Rightarrow> (- 1, Some 0) | BFOVERFLOW_FAIL \<Rightarrow> (- 1, None))
        else (0, None))"

definition checkSignedBitfieldOverflow ::
    "int \<Rightarrow> int \<Rightarrow> nat \<Rightarrow> bfoverflow \<Rightarrow> int \<times> int option" where
  "checkSignedBitfieldOverflow val incr bits owtype =
    (let maxv = (if bits = 64 then 2 ^ 63 - 1 else 2 ^ (bits - 1) - 1);
         minv = - maxv - 1;
         maxincr = sint (word_of_int (maxv - val) :: u64);
         minincr = sint (word_of_int (minv - val) :: u64);
         c = word_of_int val + word_of_int incr :: u64;
         msk = push_bit bits (- 1) :: u64;
         c = (if bits < 64 then if c AND push_bit (bits - 1) 1 \<noteq> 0 then c OR msk else c AND NOT msk else c);
         wrap = (1, Some (sint c))
     in if val > maxv \<or> bits \<noteq> 64 \<and> incr > maxincr \<or> val \<ge> 0 \<and> incr > 0 \<and> incr > maxincr then
          (case owtype of BFOVERFLOW_WRAP \<Rightarrow> wrap | BFOVERFLOW_SAT \<Rightarrow> (1, Some maxv) | BFOVERFLOW_FAIL \<Rightarrow> (1, None))
        else if val < minv \<or> bits \<noteq> 64 \<and> incr < minincr \<or> val < 0 \<and> incr < 0 \<and> incr < minincr then
          (case owtype of BFOVERFLOW_WRAP \<Rightarrow> wrap | BFOVERFLOW_SAT \<Rightarrow> (- 1, Some minv) | BFOVERFLOW_FAIL \<Rightarrow> (- 1, None))
        else (0, None))"

subsection \<open>The population count\<close>

definition bitcount :: "int \<Rightarrow> int" where
  "bitcount n = int (length (filter (bit n) [0..<8]))"

text \<open>The two steps of the parallel count on \<open>k\<close> bytes, on integers.\<close>

primrec rep8 :: "int \<Rightarrow> nat \<Rightarrow> int" where
  "rep8 m 0 = 0"
| "rep8 m (Suc k) = m + 256 * rep8 m k"

definition pop1 :: "nat \<Rightarrow> int \<Rightarrow> int" where
  "pop1 k n = n - (drop_bit 1 n AND rep8 0x55 k)"

definition pop2 :: "nat \<Rightarrow> int \<Rightarrow> int" where
  "pop2 k n = (n AND rep8 0x33 k) + (drop_bit 2 n AND rep8 0x33 k)"

definition pop4 :: "nat \<Rightarrow> int \<Rightarrow> int" where
  "pop4 k n = (n + drop_bit 4 n) AND rep8 0x0F k"

lemma bitsinbyte_eq: "bitsinbyte = map bitcount [0..255]"
  by code_simp

lemma pop_byte: "map (\<lambda>n. pop4 1 (pop2 1 (pop1 1 n))) [0..255] = bitsinbyte"
  by code_simp

lemma bit_split8:
  fixes a c :: int
  assumes "0 \<le> a" "a < 256"
  shows "bit (a + 256 * c) i \<longleftrightarrow> (if i < 8 then bit a i else bit c (i - 8))"
proof -
  have "take_bit 8 a = a" using assms by (simp add: take_bit_int_eq_self)
  then have "a + 256 * c = concat_bit 8 a c" by (simp add: concat_bit_eq push_bit_eq_mult)
  then show ?thesis by (auto simp: bit_concat_bit_iff)
qed

lemma drop_bit_and_split8:
  fixes a c m M :: int
  assumes "0 \<le> a" "a < 256" "0 \<le> m" "m < 2 ^ (8 - j)" "j \<le> 8"
  shows "drop_bit j (a + 256 * c) AND (m + 256 * M) = (drop_bit j a AND m) + 256 * (drop_bit j c AND M)"
proof (rule bit_eqI)
  fix i
  have m256: "m < 256" using assms(4) power_increasing [of "8 - j" 8 "2 :: int"] by simp
  have mj: "i + j < 8" if "bit m i"
  proof (rule ccontr)
    assume "\<not> i + j < 8"
    then have "8 - j \<le> i" by simp
    moreover have "take_bit (8 - j) m = m" using assms by (simp add: take_bit_int_eq_self)
    ultimately show False using that by (metis bit_take_bit_iff not_le)
  qed
  have "0 \<le> drop_bit j a AND m" using assms by simp
  moreover have "drop_bit j a AND m \<le> m" using assms by (intro AND_upper2)
  ultimately have b: "bit ((drop_bit j a AND m) + 256 * (drop_bit j c AND M)) i \<longleftrightarrow>
      (if i < 8 then bit (drop_bit j a AND m) i else bit (drop_bit j c AND M) (i - 8))"
    using m256 by (intro bit_split8) auto
  show "bit (drop_bit j (a + 256 * c) AND (m + 256 * M)) i =
      bit ((drop_bit j a AND m) + 256 * (drop_bit j c AND M)) i"
    unfolding b bit_and_iff bit_drop_bit_eq comp_def bit_split8 [OF assms(1,2)] bit_split8 [OF assms(3) m256]
    using mj by (auto simp: add.commute)
qed

lemma and_split8:
  fixes a c m M :: int
  assumes "0 \<le> a" "a < 256" "0 \<le> m" "m < 256"
  shows "(a + 256 * c) AND (m + 256 * M) = (a AND m) + 256 * (c AND M)"
  using drop_bit_and_split8 [of a m 0 c M] assms by simp

text \<open>Numbers as lists of base-256 digits, low digit first.\<close>

primrec dg :: "int list \<Rightarrow> int" where
  "dg [] = 0"
| "dg (a # ds) = a + 256 * dg ds"

definition is_byte :: "int \<Rightarrow> bool" where "is_byte a \<longleftrightarrow> 0 \<le> a \<and> a < 256"
definition is_pop2 :: "int \<Rightarrow> bool" where "is_pop2 a \<longleftrightarrow> 0 \<le> a \<and> a \<le> 0x44 \<and> a mod 16 \<le> 4"

lemma byte_cases: "is_byte a \<longleftrightarrow> a \<in> set [0..255]"
  by (auto simp: is_byte_def)

lemma pop_bytes_checked:
  "list_all (\<lambda>a. is_byte (pop1 1 a) \<and> is_pop2 (pop2 1 (pop1 1 a)) \<and> pop4 1 (pop2 1 (pop1 1 a)) = bitcount a \<and>
     0 \<le> bitcount a \<and> bitcount a \<le> 8) [0..255]"
  by code_simp

lemma pop_byte_facts:
  assumes "is_byte a"
  shows "is_byte (pop1 1 a)" "is_pop2 (pop2 1 (pop1 1 a))" "pop4 1 (pop2 1 (pop1 1 a)) = bitcount a"
    "0 \<le> bitcount a" "bitcount a \<le> 8"
  using pop_bytes_checked assms unfolding byte_cases list_all_iff by auto

lemma pop1_dg: "\<forall>a \<in> set ds. is_byte a \<Longrightarrow> pop1 (length ds) (dg ds) = dg (map (pop1 1) ds)"
proof (induction ds)
  case (Cons a ds)
  then have "drop_bit 1 (a + 256 * dg ds) AND (0x55 + 256 * rep8 0x55 (length ds)) =
      (drop_bit 1 a AND 0x55) + 256 * (drop_bit 1 (dg ds) AND rep8 0x55 (length ds))"
    by (intro drop_bit_and_split8) (auto simp: is_byte_def)
  then show ?case using Cons by (simp add: pop1_def)
qed (simp add: pop1_def)

lemma pop2_dg: "\<forall>a \<in> set ds. is_byte a \<Longrightarrow> pop2 (length ds) (dg ds) = dg (map (pop2 1) ds)"
proof (induction ds)
  case (Cons a ds)
  then have "drop_bit 2 (a + 256 * dg ds) AND (0x33 + 256 * rep8 0x33 (length ds)) =
      (drop_bit 2 a AND 0x33) + 256 * (drop_bit 2 (dg ds) AND rep8 0x33 (length ds))"
    by (intro drop_bit_and_split8) (auto simp: is_byte_def)
  moreover from Cons have "(a + 256 * dg ds) AND (0x33 + 256 * rep8 0x33 (length ds)) =
      (a AND 0x33) + 256 * (dg ds AND rep8 0x33 (length ds))"
    by (intro and_split8) (auto simp: is_byte_def)
  ultimately show ?case using Cons by (simp add: pop2_def)
qed (simp add: pop2_def)

lemma and_15: "(x :: int) AND 15 = x mod 16"
  using take_bit_eq_mask [of 4 x] by (simp add: take_bit_eq_mod mask_eq_exp_minus_1)

lemma pop4_dg: "\<forall>a \<in> set ds. is_pop2 a \<Longrightarrow> pop4 (length ds) (dg ds) = dg (map (pop4 1) ds)"
proof (induction ds)
  case (Cons a ds)
  let ?c = "dg ds"
  have c: "?c mod 16 \<le> 4" "0 \<le> ?c mod 16"
  proof -
    show "?c mod 16 \<le> 4"
    proof (cases ds)
      case (Cons b bs)
      have "(b + 256 * dg bs) mod 16 = b mod 16" using mod_mult_self2 [of b 16 "16 * dg bs"] by simp
      then show ?thesis using Cons.prems Cons by (simp add: is_pop2_def)
    qed simp
  qed simp
  have a: "0 \<le> a" "a \<le> 0x44" "a mod 16 \<le> 4" using Cons.prems by (auto simp: is_pop2_def)
  define lo where "lo = a + a div 16 + 16 * (?c mod 16)"
  have eq: "a + 256 * ?c + drop_bit 4 (a + 256 * ?c) = lo + 256 * (?c + drop_bit 4 ?c)"
  proof -
    have "(a + 256 * ?c) div 16 = a div 16 + 16 * ?c"
      using div_mult_self2 [of 16 a "16 * ?c"] by (simp add: mult.assoc [symmetric])
    moreover have "16 * ?c = 256 * (?c div 16) + 16 * (?c mod 16)"
      using mult_div_mod_eq [of 16 ?c] by linarith
    ultimately show ?thesis unfolding lo_def drop_bit_eq_div by (simp add: algebra_simps)
  qed
  have lo: "0 \<le> lo" "lo < 256" using a c unfolding lo_def by linarith+
  have "pop4 (length (a # ds)) (dg (a # ds)) = (lo AND 15) + 256 * pop4 (length ds) ?c"
    using and_split8 [OF lo, of 15 "?c + drop_bit 4 ?c" "rep8 15 (length ds)"]
    unfolding pop4_def dg.simps eq by simp
  moreover have "lo AND 15 = pop4 1 a" unfolding pop4_def and_15 lo_def drop_bit_eq_div by (simp add: and_15)
  ultimately show ?case using Cons by simp
qed (simp add: pop4_def)

lemma pop_dg:
  assumes "\<forall>a \<in> set ds. is_byte a" "length ds = k"
  shows "pop4 k (pop2 k (pop1 k (dg ds))) = dg (map bitcount ds)"
proof -
  have 1: "pop1 k (dg ds) = dg (map (pop1 1) ds)" using pop1_dg assms by blast
  have 2: "pop2 k (dg (map (pop1 1) ds)) = dg (map (pop2 1) (map (pop1 1) ds))"
    using pop2_dg [of "map (pop1 1) ds"] assms pop_byte_facts(1) by auto
  have 4: "pop4 k (dg (map (pop2 1) (map (pop1 1) ds))) = dg (map (pop4 1) (map (pop2 1) (map (pop1 1) ds)))"
    using pop4_dg [of "map (pop2 1) (map (pop1 1) ds)"] assms pop_byte_facts(2) by auto
  have "map (pop4 1) (map (pop2 1) (map (pop1 1) ds)) = map bitcount ds"
    using assms pop_byte_facts(3) by auto
  then show ?thesis unfolding 1 2 4 by (rule arg_cong)
qed

lemma rep8_4: "rep8 m 4 = m + 256 * m + 65536 * m + 16777216 * m"
  by (simp add: eval_nat_numeral)

lemma dg_bounds: "\<forall>a \<in> set ds. is_byte a \<Longrightarrow> 0 \<le> dg ds \<and> dg ds < 256 ^ length ds"
  by (induction ds) (auto simp: is_byte_def)

lemma get_le_dg: "get_le bs = dg (map uint bs)"
  by (induction bs) auto

lemma uint_byte: "is_byte (uint (b :: byte))"
  using uint_lt2p [of b] by (simp add: is_byte_def)

lemma uint_load32:
  assumes "4 * i + 4 \<le> length p"
  shows "uint (load32 p i) = dg (map uint (take 4 (drop (4 * i) p)))"
proof -
  let ?ds = "map uint (take 4 (drop (4 * i) p))"
  have "0 \<le> dg ?ds \<and> dg ?ds < 256 ^ length ?ds" by (rule dg_bounds) (auto simp: uint_byte)
  moreover have "length ?ds = 4" using assms by simp
  ultimately show ?thesis unfolding load32_def get_le_dg by (simp add: uint_word_of_int)
qed

lemma uint_drop_bit: "uint (drop_bit n (w :: u32)) = drop_bit n (uint w)"
  using uint_lt2p [of w] by (simp add: unsigned_drop_bit_eq take_bit_int_eq_self)

lemma uint_and32: "uint ((a :: u32) AND b) = uint a AND uint b"
  by (simp add: unsigned_and_eq)

lemma uint_popcount_aux:
  assumes ds: "uint w = dg ds" "length ds = 4" "\<forall>a \<in> set ds. is_byte a"
  shows "uint (popcount_aux w) = dg (map (\<lambda>a. pop2 1 (pop1 1 a)) ds)"
proof -
  define x where "x = w - (drop_bit 1 w AND 0x55555555)"
  have "drop_bit 1 (uint w) AND 0x55555555 \<le> drop_bit 1 (uint w)" by (intro AND_upper1) simp
  also have "\<dots> \<le> uint w" using uint_ge_0 [of w] unfolding drop_bit_eq_div power_one_right by linarith
  finally have "uint x = pop1 4 (uint w)"
    unfolding x_def pop1_def rep8_4
    by (subst uint_sub_lem [THEN iffD1]) (simp_all add: uint_drop_bit uint_and32)
  then have x: "uint x = dg (map (pop1 1) ds)" using pop1_dg [OF ds(3)] ds by simp
  define y where "y = (x AND 0x33333333) + (drop_bit 2 x AND 0x33333333)"
  have "(uint x AND 0x33333333) + (drop_bit 2 (uint x) AND 0x33333333) \<le> 0x33333333 + 0x33333333"
    by (intro add_mono AND_upper2) simp_all
  then have "uint (x AND 0x33333333) + uint (drop_bit 2 x AND 0x33333333) < 2 ^ LENGTH(32)"
    by (simp add: uint_drop_bit uint_and32)
  then have "uint y = pop2 4 (uint x)"
    unfolding y_def pop2_def rep8_4 uint_add_lem by (simp add: uint_drop_bit uint_and32)
  then have "uint y = dg (map (pop2 1) (map (pop1 1) ds))"
    using pop2_dg [of "map (pop1 1) ds"] x ds pop_byte_facts(1) by auto
  then show ?thesis by (simp add: popcount_aux_def Let_def x_def y_def comp_def)
qed

definition popcount_sum :: "u32 \<Rightarrow> u32" where
  "popcount_sum aux = (aux + drop_bit 4 aux) AND 0x0F0F0F0F"

lemma uint_popcount_sum:
  assumes ds: "uint w = dg ds" "length ds = 4" "\<forall>a \<in> set ds. is_byte a"
  shows "uint (popcount_sum (popcount_aux w)) = dg (map bitcount ds)"
proof -
  let ?y = "popcount_aux w" and ?es = "map (\<lambda>a. pop2 1 (pop1 1 a)) ds"
  have y: "uint ?y = dg ?es" by (rule uint_popcount_aux [OF ds])
  have es: "\<forall>a \<in> set ?es. is_pop2 a" using ds(3) pop_byte_facts(2) by simp
  have "dg es \<le> 0x44444444" if "\<forall>a \<in> set es. is_pop2 a" "length es = 4" for es
    using that by (auto simp: is_pop2_def length_Suc_conv numeral_eq_Suc)
  then have "uint ?y \<le> 0x44444444" using y es ds(2) by simp
  then have "uint ?y + drop_bit 4 (uint ?y) < 2 ^ 32" by (simp add: drop_bit_eq_div)
  then have "uint (popcount_sum ?y) = pop4 4 (uint ?y)"
    unfolding popcount_sum_def pop4_def rep8_4 uint_and32
    by (subst uint_add_lem [THEN iffD1]) (simp_all add: uint_drop_bit)
  also have "\<dots> = dg (map (pop4 1) ?es)" using pop4_dg [OF es] y ds(2) by simp
  also have "map (pop4 1) ?es = map bitcount ds" using ds(3) pop_byte_facts(3) by simp
  finally show ?thesis .
qed

lemma bytes_sum:
  fixes t0 :: int
  assumes "0 \<le> t0" "t0 \<le> 56" "0 \<le> t1" "t1 \<le> 56" "0 \<le> t2" "t2 \<le> 56" "0 \<le> t3" "t3 \<le> 56"
  shows "(t0 + 256 * (t1 + 256 * (t2 + 256 * t3))) * 0x01010101 mod 2 ^ 32 div 2 ^ 24 = t0 + t1 + t2 + t3"
proof -
  let ?r = "t0 + 256 * (t0 + t1) + 65536 * (t0 + t1 + t2) + 16777216 * (t0 + t1 + t2 + t3)"
  have "(t0 + 256 * (t1 + 256 * (t2 + 256 * t3))) * 0x01010101 =
      ?r + 2 ^ 32 * (t1 + t2 + t3 + 256 * (t2 + t3) + 65536 * t3)" by (simp add: algebra_simps)
  moreover have "0 \<le> ?r" "?r < 2 ^ 32" using assms by simp_all
  ultimately have "(t0 + 256 * (t1 + 256 * (t2 + 256 * t3))) * 0x01010101 mod 2 ^ 32 = ?r"
    by (metis mod_mult_self2 mod_pos_pos_trivial)
  moreover have "?r div 2 ^ 24 = t0 + t1 + t2 + t3"
    using assms by (intro div_pos_geq [THEN trans] int_div_pos_eq [of _ _ _ "t0 + 256 * (t0 + t1) + 65536 * (t0 + t1 + t2)"]) simp_all
  ultimately show ?thesis by simp
qed


lemma dg_4: "length ds = 4 \<Longrightarrow> dg ds = ds ! 0 + 256 * (ds ! 1 + 256 * (ds ! 2 + 256 * ds ! 3))"
  by (auto simp: length_Suc_conv numeral_eq_Suc)

lemma sum_list_4: "length ds = 4 \<Longrightarrow> sum_list ds = (ds ! 0 + ds ! 1 + ds ! 2 + ds ! 3 :: int)"
  by (auto simp: length_Suc_conv numeral_eq_Suc)

definition chunk :: "bytes \<Rightarrow> nat \<Rightarrow> int list" where
  "chunk p i = map (\<lambda>b. bitcount (uint b)) (take 4 (drop (4 * i) p))"

lemma chunk_digits:
  assumes "4 * i + 4 \<le> length p"
  shows "uint (popcount_sum (popcount_aux (load32 p i))) = dg (chunk p i)" "length (chunk p i) = 4"
    "\<forall>j < 4. 0 \<le> chunk p i ! j \<and> chunk p i ! j \<le> 8"
proof -
  show l: "length (chunk p i) = 4" using assms by (simp add: chunk_def)
  have b: "\<forall>a \<in> set (map uint (take 4 (drop (4 * i) p))). is_byte a" by (simp add: uint_byte)
  show "uint (popcount_sum (popcount_aux (load32 p i))) = dg (chunk p i)"
    using uint_popcount_sum [OF uint_load32 [OF assms] _ b] assms by (simp add: chunk_def comp_def)
  show "\<forall>j < 4. 0 \<le> chunk p i ! j \<and> chunk p i ! j \<le> 8"
    using l pop_byte_facts(4,5) uint_byte by (simp add: chunk_def)
qed

lemma sum_chunks:
  assumes "28 \<le> length p"
  shows "sum_list (map (\<lambda>b. bitcount (uint b)) (take 28 p)) = (\<Sum>i < 7. sum_list (chunk p i))"
proof -
  have "sum_list (map f (take (4 * n) p)) = (\<Sum>i < n. sum_list (map f (take 4 (drop (4 * i) p))))" for n and f :: "byte \<Rightarrow> int"
  proof (induction n)
    case (Suc n)
    have "take (4 * Suc n) p = take (4 * n) p @ take 4 (drop (4 * n) p)" by (simp only: mult_Suc_right add.commute [of 4] take_add)
    then show ?case using Suc by simp
  qed simp
  from this [of _ 7] show ?thesis by (simp add: chunk_def)
qed

lemma uint_popcount_block:
  assumes "28 \<le> length p"
  shows "uint (popcount_block p) = sum_list (map (\<lambda>b. bitcount (uint b)) (take 28 p))"
proof -
  let ?s = "\<lambda>i. popcount_sum (popcount_aux (load32 p i))"
  have c: "uint (?s i) = chunk p i ! 0 + 256 * (chunk p i ! 1 + 256 * (chunk p i ! 2 + 256 * chunk p i ! 3))"
    "\<forall>j < 4. 0 \<le> chunk p i ! j \<and> chunk p i ! j \<le> 8" "sum_list (chunk p i) = chunk p i ! 0 + chunk p i ! 1 + chunk p i ! 2 + chunk p i ! 3"
    if "i < 7" for i
    using chunk_digits [of i p] dg_4 [of "chunk p i"] sum_list_4 [of "chunk p i"] that assms by auto
  define t where "t j = (\<Sum>i < 7. chunk p i ! j)" for j
  have t: "0 \<le> t j \<and> t j \<le> 56" if "j < 4" for j
  proof -
    have "t j \<le> (\<Sum>i < (7 :: nat). 8)" unfolding t_def using c(2) that by (intro sum_mono) auto
    moreover have "0 \<le> t j" unfolding t_def using c(2) that by (intro sum_nonneg) auto
    ultimately show ?thesis by simp
  qed
  define S where "S = ?s 0 + ?s 1 + ?s 2 + ?s 3 + ?s 4 + ?s 5 + ?s 6"
  have "(\<Sum>i < 7. uint (?s i)) = t 0 + 256 * (t 1 + 256 * (t 2 + 256 * t 3))"
  proof -
    have "(\<Sum>i < 7. uint (?s i)) = (\<Sum>i < 7. chunk p i ! 0 + 256 * (chunk p i ! 1 + 256 * (chunk p i ! 2 + 256 * chunk p i ! 3)))"
      using c(1) by (intro sum.cong) auto
    then show ?thesis by (simp add: t_def sum.distrib sum_distrib_left)
  qed
  moreover have "uint S = (\<Sum>i < 7. uint (?s i)) mod 2 ^ 32"
    unfolding S_def by (simp add: uint_word_ariths eval_nat_numeral mod_simps add.assoc)
  moreover have "uint (drop_bit 24 (S * 0x01010101)) = uint S * 0x01010101 mod 2 ^ 32 div 2 ^ 24"
    unfolding uint_drop_bit drop_bit_eq_div [where ?'a = int] uint_word_ariths by simp
  ultimately have "uint (drop_bit 24 (S * 0x01010101)) = t 0 + t 1 + t 2 + t 3"
    using bytes_sum [of "t 0" "t 1" "t 2" "t 3"] t [of 0] t [of 1] t [of 2] t [of 3] by (simp add: mod_mult_left_eq)
  also have "\<dots> = (\<Sum>i < 7. sum_list (chunk p i))"
    using c(3) by (simp add: t_def sum.distrib)
  finally show ?thesis
    unfolding sum_chunks [OF assms] by (simp add: popcount_block_def Let_def S_def popcount_sum_def)
qed

text \<open>The bits of a buffer from left to right.\<close>

definition byte_bits :: "byte \<Rightarrow> bool list" where
  "byte_bits b = map (bit b) (rev [0..<8])"

definition bitmap :: "bytes \<Rightarrow> bool list" where
  "bitmap s = concat (map byte_bits s)"

lemma bitmap_simps [simp]: "bitmap [] = []" "bitmap (b # s) = byte_bits b @ bitmap s" "bitmap (s @ s') = bitmap s @ bitmap s'"
  by (simp_all add: bitmap_def)

lemma length_byte_bits [simp]: "length (byte_bits b) = 8"
  by (simp add: byte_bits_def)

lemma length_bitmap [simp]: "length (bitmap s) = 8 * length s"
  by (induction s) simp_all

lemma bitcount_byte: "bitcount (uint b) = int (length (filter id (byte_bits b)))"
proof -
  have "filter (bit (uint b)) [0..<8] = filter (bit b) [0..<8]"
    by (rule filter_cong) (simp_all add: bit_uint_iff)
  then show ?thesis by (simp add: bitcount_def byte_bits_def filter_map comp_def flip: rev_filter)
qed

definition popcount :: "bytes \<Rightarrow> int" where
  "popcount s = int (length (filter id (bitmap s)))"

lemma nth_map_upto: "int i \<le> n \<Longrightarrow> map f [0..n] ! i = f (int i)"
  by (subst nth_map) (simp_all add: nth_upto)

lemma bitsinbyte_nth: "bitsinbyte ! unat (b :: byte) = bitcount (uint b)"
proof -
  have "int (unat b) \<le> 255" using uint_lt2p [of b] by simp
  moreover have "int (unat b) = uint b" by simp
  ultimately show ?thesis unfolding bitsinbyte_eq using nth_map_upto [of "unat b" 255 bitcount] by (simp only:)
qed

lemma popcount_simps: "popcount [] = 0" "popcount (b # s) = bitsinbyte ! unat b + popcount s"
  by (simp_all add: popcount_def bitsinbyte_nth bitcount_byte)

lemma popcount_append: "popcount (s @ t) = popcount s + popcount t"
  by (simp add: popcount_def)

lemma popcount_sum_list: "popcount s = sum_list (map (\<lambda>b. bitcount (uint b)) s)"
  by (induction s) (simp_all add: popcount_def bitcount_byte)

lemma popcount_align_eq: "popcount_align addr s bits = (p, bits') \<Longrightarrow> bits + popcount s = bits' + popcount p"
  by (induction addr s bits rule: popcount_align.induct) (auto simp: popcount_simps split: if_splits)

lemma popcount_blocks_eq: "popcount_blocks s bits = (p, bits') \<Longrightarrow> bits + popcount s = bits' + popcount p"
proof (induction s bits rule: popcount_blocks.induct)
  case (1 s bits)
  show ?case
  proof (cases "28 \<le> length s")
    case True
    have "popcount s = popcount (take 28 s) + popcount (drop 28 s)"
      by (simp flip: popcount_append)
    moreover have "popcount (take 28 s) = uint (popcount_block s)"
      by (simp add: uint_popcount_block [OF True] popcount_sum_list)
    ultimately show ?thesis using 1 True by (simp add: popcount_blocks.simps [of s bits])
  qed (use 1 in \<open>simp add: popcount_blocks.simps [of s bits]\<close>)
qed

lemma popcount_foldl: "foldl (\<lambda>bits b. bits + bitsinbyte ! unat b) bits p = bits + popcount p"
  by (induction p arbitrary: bits) (simp_all add: popcount_simps)

lemma redisPopcount_eq: "redisPopcount addr s = popcount s"
proof -
  obtain p1 b1 where 1: "popcount_align addr s 0 = (p1, b1)" by fastforce
  obtain p2 b2 where 2: "popcount_blocks p1 b1 = (p2, b2)" by fastforce
  show ?thesis
    using popcount_align_eq [OF 1] popcount_blocks_eq [OF 2] by (simp add: redisPopcount_def 1 2 popcount_foldl)
qed

subsection \<open>The bit search\<close>

definition word_bits :: "u64 \<Rightarrow> bool list" where
  "word_bits w = map (bit w) (rev [0..<64])"

lemma length_word_bits [simp]: "length (word_bits w) = 64"
  by (simp add: word_bits_def)

lemma word_bits_nth: "i < 64 \<Longrightarrow> word_bits w ! i = bit w (63 - i)"
  by (simp add: word_bits_def rev_nth)

lemma byte_bits_nth: "i < 8 \<Longrightarrow> byte_bits b ! i = bit b (7 - i)"
  by (simp add: byte_bits_def rev_nth)

lemma word_bits_push: "word_bits (push_bit 8 w OR ucast b) = drop 8 (word_bits w) @ byte_bits b"
proof (rule nth_equalityI)
  fix i assume "i < length (word_bits (push_bit 8 w OR ucast b))"
  then have i: "i < 64" by simp
  show "word_bits (push_bit 8 w OR ucast b) ! i = (drop 8 (word_bits w) @ byte_bits b) ! i"
  proof (cases "i < 56")
    case True
    then have "\<not> bit b (63 - i)" by (auto dest: bit_imp_le_length)
    moreover have "8 \<le> 63 - i" "63 - i < 64" "63 - i - 8 = 63 - (8 + i)" using True by auto
    ultimately show ?thesis using True i
      unfolding nth_append word_bits_nth [OF i] bit_or_iff bit_push_bit_iff bit_ucast_iff
      by (simp add: word_bits_nth)
  next
    case False
    define k where "k = i - 56"
    then have k: "i = 56 + k" "k < 8" using False i by auto
    then have "63 - i = 7 - k" "\<not> 8 \<le> 7 - k" "7 - k < 64" by auto
    then show ?thesis using k
      unfolding nth_append word_bits_nth [OF i] bit_or_iff bit_push_bit_iff bit_ucast_iff
      by (simp add: byte_bits_nth)
  qed
qed simp

lemma byte_bits_0: "byte_bits 0 = replicate 8 False"
  by (rule nth_equalityI) (simp_all add: byte_bits_nth)

lemma bitpos_load_bits:
  "n \<le> 8 \<Longrightarrow> word_bits (bitpos_load n w c) =
    drop (8 * n) (word_bits w) @ take (8 * n) (bitmap c @ replicate (8 * n) False)"
proof (induction n w c rule: bitpos_load.induct)
  case (2 n w)
  have "word_bits (push_bit 8 w) = drop 8 (word_bits w) @ replicate 8 False"
    using word_bits_push [of w 0] by (simp only: byte_bits_0 unsigned_0 or.right_neutral)
  then show ?case using 2 by (simp add: replicate_add [symmetric] add.commute)
next
  case (3 n w b c)
  have "take (8 + 8 * n) (byte_bits b @ bitmap c @ replicate (8 + 8 * n) False) =
      byte_bits b @ take (8 * n) (bitmap c @ replicate (8 * n) False)"
    by (simp add: min_def)
  then show ?case using 3 by (simp only: bitpos_load.simps word_bits_push) (simp add: add.commute)
qed simp

lemma bitpos_scan_eq:
  "bitpos_scan n w b pos =
    (let xs = map (bit w) (rev [0..<n]) in
     if b \<in> set xs then Some (pos + int (length (takeWhile (\<lambda>x. x \<noteq> b) xs))) else None)"
proof (induction n arbitrary: pos)
  case (Suc n)
  have "push_bit n 1 AND w \<noteq> 0 \<longleftrightarrow> bit w n"
    using and_exp_eq_0_iff_not_bit [of w n] by (simp add: push_bit_eq_mult and.commute)
  then show ?case using Suc by (auto simp: Let_def)
qed simp


lemma get_le_all:
  assumes "length c = 8"
  shows "word_of_int (get_le c) = (0 :: u64) \<longleftrightarrow> c = replicate 8 0"
    and "word_of_int (get_le c) = (- 1 :: u64) \<longleftrightarrow> c = replicate 8 0xff"
proof -
  have b: "0 \<le> get_le c" "get_le c < 2 ^ 64" using get_le_bounds [of c] assms by simp_all
  have "get_le (replicate n 0xff) = 256 ^ n - 1" "get_le (replicate n 0) = 0" for n
    by (induction n) simp_all
  from this(1) [of 8] this(2) [of 8]
  have m: "get_le (replicate 8 0xff) = 2 ^ 64 - 1" and 0: "get_le (replicate 8 0) = 0" by simp_all
  have inj: "c = d" if "get_le c = get_le d" "length d = 8" for d
    using that assms put_le_get_le [of c] put_le_get_le [of d] by simp
  have "word_of_int (get_le c) = (0 :: u64) \<longleftrightarrow> get_le c = 0"
    using b by (simp add: word_of_int_eq_iff [where ?'a = 64, of _ 0, simplified] take_bit_int_eq_self)
  then show "word_of_int (get_le c) = (0 :: u64) \<longleftrightarrow> c = replicate 8 0"
    using inj [of "replicate 8 0"] 0 by auto
  have "(- 1 :: u64) = word_of_int (2 ^ 64 - 1)" by simp
  then have "word_of_int (get_le c) = (- 1 :: u64) \<longleftrightarrow> get_le c = 2 ^ 64 - 1"
    using b by (simp only: word_of_int_eq_iff) (simp add: take_bit_int_eq_self)
  then show "word_of_int (get_le c) = (- 1 :: u64) \<longleftrightarrow> c = replicate 8 0xff"
    using inj [of "replicate 8 0xff"] m by auto
qed

abbreviation skip_byte :: "bool \<Rightarrow> byte" where
  "skip_byte b \<equiv> if b then 0 else 0xff"

lemma byte_bits_ff: "byte_bits 0xff = replicate 8 True"
proof -
  have ff: "(0xff :: byte) = mask 8" by (simp add: mask_eq_exp_minus_1)
  show ?thesis unfolding ff by (intro nth_equalityI) (simp_all add: byte_bits_nth bit_mask_iff)
qed

lemma byte_bits_inj: "byte_bits x = byte_bits y \<Longrightarrow> x = y"
proof (rule bit_word_eqI)
  fix n assume eq: "byte_bits x = byte_bits y" and "n < LENGTH(8)"
  then have "7 - n < 8" "n = 7 - (7 - n)" by auto
  then show "bit x n = bit y n" using eq byte_bits_nth by metis
qed

lemma bool_other: "b \<notin> set xs \<Longrightarrow> y \<in> set xs \<Longrightarrow> y = (\<not> b)"
  by (cases b; cases y) simp_all

lemma skip_byte_iff: "x = skip_byte b \<longleftrightarrow> b \<notin> set (byte_bits x)"
proof
  assume "b \<notin> set (byte_bits x)"
  then have "\<forall>y \<in> set (byte_bits x). y = (\<not> b)" using bool_other by blast
  then have "replicate (length (byte_bits x)) (\<not> b) = byte_bits x" by (rule replicate_length_same)
  then have "byte_bits x = byte_bits (skip_byte b)" by (cases b) (simp_all add: byte_bits_0 byte_bits_ff)
  then show "x = skip_byte b" by (rule byte_bits_inj)
qed (auto simp: byte_bits_0 byte_bits_ff)

text \<open>The reference: the first bit with the value \<open>b\<close>, in a bitmap that starts at position \<open>pos\<close>.\<close>

definition first_bit :: "int \<Rightarrow> bool \<Rightarrow> bytes \<Rightarrow> int" where
  "first_bit pos b s =
    (if b \<in> set (bitmap s) then pos + int (length (takeWhile (\<lambda>x. x \<noteq> b) (bitmap s)))
     else if b then - 1 else pos + 8 * int (length s))"

lemma first_bit_skip:
  assumes "b \<notin> set (bitmap p)"
  shows "first_bit pos b (p @ s) = first_bit (pos + 8 * int (length p)) b s"
proof -
  have "takeWhile (\<lambda>x. x \<noteq> b) (bitmap p @ bitmap s) = bitmap p @ takeWhile (\<lambda>x. x \<noteq> b) (bitmap s)"
    using assms by (intro takeWhile_append2) (auto dest: bool_other)
  then show ?thesis using assms by (simp add: first_bit_def)
qed

lemma bitpos_align_eq:
  "bitpos_align addr (skip_byte b) s pos = (c, pos', found) \<Longrightarrow>
    first_bit pos b s = first_bit pos' b c \<and> (found \<longrightarrow> c \<noteq> [] \<and> hd c \<noteq> skip_byte b)"
proof (induction addr "skip_byte b" s pos rule: bitpos_align.induct)
  case (2 addr x s pos)
  show ?case
  proof (cases "addr mod 8 = 0 \<or> x \<noteq> skip_byte b")
    case False
    then have "b \<notin> set (bitmap [x])" using skip_byte_iff [of x b] by simp
    from first_bit_skip [OF this, of pos s] show ?thesis using 2 False by simp
  qed (use 2(2) in \<open>auto split: if_splits\<close>)
qed auto

lemma eight_skip_bytes:
  assumes "length c = 8"
  shows "word_of_int (get_le c) = (if b then 0 else - 1 :: u64) \<longleftrightarrow> b \<notin> set (bitmap c)"
proof -
  have "b \<notin> set (bitmap c) \<longleftrightarrow> (\<forall>x \<in> set c. x = skip_byte b)"
    unfolding bitmap_def using skip_byte_iff [of _ b] by auto
  also have "\<dots> \<longleftrightarrow> c = replicate 8 (skip_byte b)" using replicate_length_same [of c "skip_byte b"] assms by (auto simp del: if_split_asm)
  finally show ?thesis using get_le_all [OF assms] by (cases b) auto
qed

lemma bitpos_words_eq:
  "bitpos_words (if b then 0 else - 1) s pos = (c, pos') \<Longrightarrow>
    first_bit pos b s = first_bit pos' b c \<and> (8 \<le> length c \<longrightarrow> b \<in> set (bitmap (take 8 c)))"
proof (induction "if b then 0 else - 1 :: u64" s pos rule: bitpos_words.induct)
  case (1 s pos)
  note step = bitpos_words.simps [of _ s pos]
  show ?case
  proof (cases "8 \<le> length s \<and> b \<notin> set (bitmap (take 8 s))")
    case True
    then have w: "word_of_int (get_le (take 8 s)) = (if b then 0 else - 1 :: u64)"
      using eight_skip_bytes [of "take 8 s" b] by simp
    have "first_bit pos b s = first_bit (pos + 64) b (drop 8 s)"
      using first_bit_skip [of b "take 8 s" pos "drop 8 s"] True by (simp add: min_absorb2)
    then show ?thesis using 1 True w step by simp
  next
    case False
    then show ?thesis using 1(2) eight_skip_bytes [of "take 8 s" b] step by (auto split: if_splits)
  qed
qed

lemma word_bits_zero: "w = 0 \<longleftrightarrow> True \<notin> set (word_bits w)"
proof -
  have "w = 0 \<longleftrightarrow> (\<forall>n < 64. \<not> bit w n)" by (simp add: bit_eq_iff)
  then show ?thesis by (auto simp: word_bits_def)
qed

lemma bitpos_tail:
  assumes "length c < 8 \<or> b \<in> set (bitmap (take 8 c))"
  shows "(let word = bitpos_load 8 0 c in
     if b \<and> word = 0 then Some (- 1) else bitpos_scan 64 word b pos) = Some (first_bit pos b c)"
proof -
  let ?w = "bitpos_load 8 0 c"
  let ?f = "\<lambda>xs. int (length (takeWhile (\<lambda>x. x \<noteq> b) xs))"
  have w: "word_bits ?w = take 64 (bitmap c @ replicate 64 False)"
    using bitpos_load_bits [of 8 0 c] by simp
  have scan: "bitpos_scan 64 ?w b pos = (if b \<in> set (word_bits ?w) then Some (pos + ?f (word_bits ?w)) else None)"
    unfolding bitpos_scan_eq Let_def word_bits_def ..
  show ?thesis
  proof (cases "length c < 8")
    case True
    then have w: "word_bits ?w = bitmap c @ replicate (64 - 8 * length c) False" using w by simp
    show ?thesis
    proof (cases "b \<in> set (bitmap c)")
      case True
      show ?thesis
        by (cases b) (use True w scan word_bits_zero [of ?w] in \<open>simp_all add: first_bit_def Let_def\<close>)
    next
      case False
      have tw: "takeWhile (\<lambda>x. x \<noteq> b) (bitmap c @ ys) = bitmap c @ takeWhile (\<lambda>x. x \<noteq> b) ys" for ys
        using False by (intro takeWhile_append2) (auto dest: bool_other)
      show ?thesis
        by (cases b) (use w scan word_bits_zero [of ?w] False tw \<open>length c < 8\<close> in
          \<open>simp_all add: first_bit_def Let_def takeWhile_replicate\<close>)
    qed
  next
    case False
    then have w: "word_bits ?w = bitmap (take 8 c)"
      using w bitmap_simps(3) [of "take 8 c" "drop 8 c"] by simp
    have bm: "bitmap c = bitmap (take 8 c) @ bitmap (drop 8 c)" by (simp flip: bitmap_simps(3))
    show ?thesis
      by (cases b) (use w scan word_bits_zero [of ?w] False assms in \<open>simp_all add: bm first_bit_def Let_def\<close>)
  qed
qed

lemma redisBitpos_eq: "redisBitpos addr s b = Some (first_bit 0 b s)"
proof -
  obtain c1 p1 found where 1: "bitpos_align addr (skip_byte b) s 0 = (c1, p1, found)" by (metis prod_cases3)
  note f1 = bitpos_align_eq [OF 1]
  show ?thesis
  proof (cases found)
    case True
    then obtain x c where c: "c1 = x # c" "x \<noteq> skip_byte b" using f1 by (cases c1) auto
    then have "b \<in> set (bitmap (take 8 c1))" using skip_byte_iff [of x b] by simp
    then show ?thesis using bitpos_tail [of c1 b p1] f1 True unfolding redisBitpos_def 1 by simp
  next
    case False
    obtain c2 p2 where 2: "bitpos_words (if b then 0 else - 1) c1 p1 = (c2, p2)" by fastforce
    note f2 = bitpos_words_eq [OF 2]
    have "length c2 < 8 \<or> b \<in> set (bitmap (take 8 c2))" using f2 by linarith
    then show ?thesis using bitpos_tail [of c2 b p2] f1 f2 False unfolding redisBitpos_def 1 by (simp add: 2)
  qed
qed

subsection \<open>Bit fields\<close>

lemma bitmap_nth: "i < 8 * length p \<Longrightarrow> bitmap p ! i = bit (p ! (i div 8)) (7 - i mod 8)"
proof (induction p arbitrary: i)
  case (Cons b p)
  show ?case
  proof (cases "i < 8")
    case True
    then show ?thesis by (simp add: nth_append byte_bits_nth)
  next
    case False
    then have "(i - 8) div 8 = i div 8 - 1" "(i - 8) mod 8 = i mod 8" "0 < i div 8"
      by (auto simp: le_mod_geq le_div_geq)
    then show ?thesis using Cons False by (simp add: nth_append)
  qed
qed simp

lemma same_bit: "j < 8 \<Longrightarrow> m < 8 \<Longrightarrow> 7 - j = 7 - m \<longleftrightarrow> j = (m :: nat)"
  by auto

lemma set_one_bit:
  "m < 8 \<Longrightarrow> bit ((b AND NOT (push_bit m 1)) OR push_bit m (of_bool x) :: byte) n \<longleftrightarrow> (if n = m then x else bit b n)"
  unfolding bit_or_iff bit_and_iff bit_not_iff bit_push_bit_iff bit_1_iff bit_of_bool_iff
  by (auto dest: bit_imp_le_length)

lemma bitmap_update:
  assumes "i < 8 * length p"
  shows "bitmap (p[i div 8 := (p ! (i div 8) AND NOT (push_bit (7 - i mod 8) 1)) OR push_bit (7 - i mod 8) (of_bool x)])
    = (bitmap p)[i := x]"
proof (rule nth_equalityI)
  let ?b = "(p ! (i div 8) AND NOT (push_bit (7 - i mod 8) 1)) OR push_bit (7 - i mod 8) (of_bool x)"
  fix j assume "j < length (bitmap (p[i div 8 := ?b]))"
  then have j: "j < 8 * length p" by simp
  have new: "bit ?b (7 - j mod 8) \<longleftrightarrow> (if j mod 8 = i mod 8 then x else bit (p ! (i div 8)) (7 - j mod 8))"
    using same_bit [of "j mod 8" "i mod 8"] set_one_bit [of "7 - i mod 8"] by simp
  have "i div 8 < length p" using assms by auto
  show "bitmap (p[i div 8 := ?b]) ! j = (bitmap p)[i := x] ! j"
  proof (cases "j div 8 = i div 8")
    case True
    have "j = i \<longleftrightarrow> j mod 8 = i mod 8" using True by (metis div_mult_mod_eq)
    then show ?thesis using True j new \<open>i div 8 < length p\<close> by (auto simp: bitmap_nth nth_list_update)
  next
    case False
    then show ?thesis using j \<open>i div 8 < length p\<close> by (auto simp: bitmap_nth nth_list_update)
  qed
qed simp

lemma setUnsignedBitfield_loop_spec:
  "offset + k \<le> 8 * length p \<Longrightarrow> \<exists>p'. setUnsignedBitfield_loop k p offset val = Some p' \<and> length p' = length p \<and>
    bitmap p' = take offset (bitmap p) @ map (bit val) (rev [0..<k]) @ drop (offset + k) (bitmap p)"
proof (induction k arbitrary: p offset)
  case (Suc k)
  have i: "offset < 8 * length p" "offset div 8 < length p" using Suc.prems by auto
  define q where "q = p[offset div 8 := (p ! (offset div 8) AND NOT (push_bit (7 - offset mod 8) 1)) OR
      push_bit (7 - offset mod 8) (of_bool (val AND push_bit k 1 \<noteq> 0))]"
  have "val AND push_bit k 1 \<noteq> 0 \<longleftrightarrow> bit val k"
    using and_exp_eq_0_iff_not_bit [of val k] by (simp add: push_bit_eq_mult)
  then have q: "bitmap q = (bitmap p)[offset := bit val k]" "length q = length p"
    using bitmap_update [OF i(1)] by (simp_all add: q_def)
  then obtain p' where p': "setUnsignedBitfield_loop k q (Suc offset) val = Some p'" "length p' = length p"
    "bitmap p' = take (Suc offset) (bitmap q) @ map (bit val) (rev [0..<k]) @ drop (Suc offset + k) (bitmap q)"
    using Suc.IH [of "Suc offset" q] Suc.prems by auto
  have "take (Suc offset) (bitmap q) = take offset (bitmap p) @ [bit val k]"
    using q i by (simp add: take_Suc_conv_app_nth)
  moreover have "setUnsignedBitfield_loop (Suc k) p offset val = Some p'"
    using p'(1) i by (simp add: put_at_def Let_def q_def)
  ultimately show ?case using p' q by simp
qed simp

definition bits_val :: "bool list \<Rightarrow> u64 \<Rightarrow> u64" where
  "bits_val xs w = foldl (\<lambda>w b. push_bit 1 w OR of_bool b) w xs"

lemma drop_bit_and_1: "drop_bit n (w :: u64) AND 1 = of_bool (bit w n)"
  by (simp add: bit_iff_odd_drop_bit and_one_eq mod_2_eq_odd)

lemma getUnsignedBitfield_loop_spec:
  "offset + k \<le> 8 * length p \<Longrightarrow>
    getUnsignedBitfield_loop k p offset val = Some (bits_val (take k (drop offset (bitmap p))) val)"
proof (induction k arbitrary: offset val)
  case (Suc k)
  have i: "offset < 8 * length p" "offset div 8 < length p" using Suc.prems by auto
  have "drop_bit (7 - offset mod 8) (ucast (p ! (offset div 8))) AND 1 = (of_bool (bitmap p ! offset) :: u64)"
    unfolding drop_bit_and_1 using i by (simp add: bitmap_nth bit_ucast_iff less_imp_diff_less)
  moreover have "drop offset (bitmap p) = bitmap p ! offset # drop (Suc offset) (bitmap p)"
    using i by (simp add: Cons_nth_drop_Suc)
  ultimately show ?case using Suc i by (simp add: bits_val_def)
qed (simp add: bits_val_def)

lemma bits_val_bits: "bits_val (map (bit v) (rev [0..<k])) w = push_bit k w OR take_bit k v"
proof (induction k arbitrary: w)
  case (Suc k)
  have "push_bit k (push_bit 1 w OR of_bool (bit v k)) OR take_bit k v = push_bit (Suc k) w OR take_bit (Suc k) v"
    by (rule bit_word_eqI) (auto simp: bit_or_iff bit_push_bit_iff bit_take_bit_iff bit_of_bool_iff less_Suc_eq
        dest: bit_imp_le_length)
  then show ?case using Suc by (simp add: bits_val_def)
qed (simp add: bits_val_def)

lemma getUnsignedBitfield_spec:
  assumes "offset + bits \<le> 8 * length p" "take bits (drop offset (bitmap p)) = map (bit v) (rev [0..<bits])"
  shows "getUnsignedBitfield p offset bits = Some (take_bit bits v)"
  using getUnsignedBitfield_loop_spec [OF assms(1), of 0] assms(2) bits_val_bits [of v bits 0]
  by (simp add: getUnsignedBitfield_def)

lemma sign_extend:
  assumes "0 < bits" "bits \<le> 64"
  shows "(let w = take_bit bits (word_of_int v :: u64) in
      sint (if bits < 64 \<and> w AND push_bit (bits - 1) 1 \<noteq> 0 then w OR push_bit bits (- 1) else w)) =
    signed_take_bit (bits - 1) v"
proof -
  let ?v = "word_of_int v :: u64"
  define w where "w = take_bit bits ?v"
  define r where "r = (if bits < 64 \<and> w AND push_bit (bits - 1) 1 \<noteq> 0 then w OR push_bit bits (- 1) else w)"
  have "w AND push_bit (bits - 1) 1 \<noteq> 0 \<longleftrightarrow> bit w (bits - 1)"
    using and_exp_eq_0_iff_not_bit [of w "bits - 1"] by (simp add: push_bit_eq_mult)
  also have "\<dots> \<longleftrightarrow> bit v (bits - 1)"
    using assms by (auto simp: w_def bit_take_bit_iff bit_word_of_int_iff)
  finally have top: "w AND push_bit (bits - 1) 1 \<noteq> 0 \<longleftrightarrow> bit v (bits - 1)" .
  have "bit r n \<longleftrightarrow> bit v (min (bits - 1) n)" if "n < 64" for n
  proof -
    have w: "bit w n \<longleftrightarrow> n < bits \<and> bit v n"
      using that by (simp add: w_def bit_take_bit_iff bit_word_of_int_iff)
    have hi: "bit (push_bit bits (- 1) :: u64) n \<longleftrightarrow> bits \<le> n"
      using that unfolding bit_push_bit_iff by auto
    have "bit r n \<longleftrightarrow> (if bits < 64 \<and> bit v (bits - 1) then bit w n \<or> bits \<le> n else bit w n)"
      unfolding r_def top by (cases "bits < 64 \<and> bit v (bits - 1)") (simp_all only: bit_or_iff hi simp_thms if_True if_False)
    moreover have "min (bits - 1) n = (if n < bits then n else bits - 1)" using assms(1) by (auto simp: min_def)
    ultimately show ?thesis using w that assms by auto
  qed
  then have "r = word_of_int (signed_take_bit (bits - 1) v)"
    by (intro bit_word_eqI) (simp add: bit_word_of_int_iff bit_signed_take_bit_iff)
  moreover have "signed_take_bit 63 (signed_take_bit (bits - 1) v) = signed_take_bit (bits - 1) v"
    using assms by (simp add: signed_take_bit_signed_take_bit min_absorb2)
  ultimately have "sint r = signed_take_bit (bits - 1) v" by (simp add: sint_sbintrunc')
  then show ?thesis unfolding r_def w_def Let_def .
qed

lemma bitfield_set_get:
  assumes "offset + bits \<le> 8 * length p" "0 < bits" "bits \<le> 64"
  shows "\<exists>p'. setSignedBitfield p offset bits v = Some p' \<and> length p' = length p \<and>
    getUnsignedBitfield p' offset bits = Some (take_bit bits (word_of_int v)) \<and>
    getSignedBitfield p' offset bits = Some (signed_take_bit (bits - 1) v) \<and>
    (\<forall>i < 8 * length p. i < offset \<or> offset + bits \<le> i \<longrightarrow> bitmap p' ! i = bitmap p ! i)"
proof -
  obtain p' where p': "setUnsignedBitfield p offset bits (word_of_int v) = Some p'" "length p' = length p"
    "bitmap p' = take offset (bitmap p) @ map (bit (word_of_int v :: u64)) (rev [0..<bits]) @ drop (offset + bits) (bitmap p)"
    using setUnsignedBitfield_loop_spec [OF assms(1), of "word_of_int v"] by (auto simp: setUnsignedBitfield_def)
  have get: "getUnsignedBitfield p' offset bits = Some (take_bit bits (word_of_int v))"
    using assms p' by (intro getUnsignedBitfield_spec) simp_all
  have "\<forall>i < 8 * length p. i < offset \<or> offset + bits \<le> i \<longrightarrow> bitmap p' ! i = bitmap p ! i"
    using assms(1) p'(3) by (auto simp: nth_append)
  then show ?thesis
    using p'(1,2) get sign_extend [OF assms(2,3), of v]
    by (simp add: setSignedBitfield_def getSignedBitfield_def Let_def)
qed

subsection \<open>Overflow\<close>

text \<open>
  The reference: what an operation with the exact result \<open>s\<close> returns and stores when the field
  holds the numbers from \<open>lo\<close> to \<open>hi\<close>. Underflow returns -1 except in the wrapping mode.
\<close>

definition bf_limit :: "int \<Rightarrow> int \<Rightarrow> int \<Rightarrow> bfoverflow \<Rightarrow> int \<Rightarrow> int \<times> int option" where
  "bf_limit lo hi wrapped ow s =
    (if s > hi then
       (case ow of BFOVERFLOW_WRAP \<Rightarrow> (1, Some wrapped) | BFOVERFLOW_SAT \<Rightarrow> (1, Some hi) | BFOVERFLOW_FAIL \<Rightarrow> (1, None))
     else if s < lo then
       (case ow of BFOVERFLOW_WRAP \<Rightarrow> (1, Some wrapped) | BFOVERFLOW_SAT \<Rightarrow> (- 1, Some lo) | BFOVERFLOW_FAIL \<Rightarrow> (- 1, None))
     else (0, None))"

lemma and_not_high: "(w :: u64) AND NOT (push_bit n (- 1)) = take_bit n w"
  by (simp add: take_bit_eq_mask)

lemma uint_take_bit_word_of_int: "n \<le> 64 \<Longrightarrow> uint (take_bit n (word_of_int s :: u64)) = s mod 2 ^ n"
  by (simp add: unsigned_take_bit_eq uint_word_of_int_eq take_bit_take_bit min_absorb1 flip: take_bit_eq_mod)

lemma checkUnsigned_eq:
  assumes bits: "0 < bits" "bits < 64" and incr: "int64_range incr" and val: "incr = 0 \<or> uint val < 2 ^ bits"
  shows "map_prod id (map_option uint) (checkUnsignedBitfieldOverflow val incr bits ow) =
    bf_limit 0 (2 ^ bits - 1) ((uint val + incr) mod 2 ^ bits) ow (uint val + incr)"
proof -
  have pow: "(2 :: int) ^ bits \<le> 2 ^ 63" using bits by (intro power_increasing) auto
  have pos: "(1 :: int) \<le> 2 ^ bits" by simp
  define maxv where "maxv = (push_bit bits 1 - 1 :: u64)"
  have maxv: "maxv = word_of_int (2 ^ bits - 1)" by (simp add: maxv_def push_bit_eq_mult)
  have umax: "uint maxv = 2 ^ bits - 1" 
    unfolding maxv uint_word_of_int_eq using pow pos by (intro take_bit_int_eq_self) simp_all
  have gt: "val > maxv \<longleftrightarrow> uint val \<ge> 2 ^ bits" by (auto simp: word_less_def umax)
  have wrap: "uint ((val + word_of_int incr) AND NOT (push_bit bits (- 1))) = (uint val + incr) mod 2 ^ bits"
  proof -
    have "val + word_of_int incr = word_of_int (uint val + incr)" by simp
    then show ?thesis using bits unfolding and_not_high by (simp only: uint_take_bit_word_of_int less_imp_le)
  qed
  have incs: "sint (maxv - val) = 2 ^ bits - 1 - uint val" "sint (- val) = - uint val" if "uint val < 2 ^ bits"
  proof -
    have "maxv - val = word_of_int (2 ^ bits - 1 - uint val)" "- val = word_of_int (- uint val)"
      unfolding maxv by simp_all
    moreover have "int64_range (2 ^ bits - 1 - uint val)" "int64_range (- uint val)"
      using that pow uint_ge_0 [of val] unfolding int64_range_def by linarith+
    ultimately show "sint (maxv - val) = 2 ^ bits - 1 - uint val" "sint (- val) = - uint val"
      using sint_word_of_int_u64 by metis+
  qed
  note defs = checkUnsignedBitfieldOverflow_def bf_limit_def Let_def
  show ?thesis
  proof (cases "uint val < 2 ^ bits")
    case True
    then have "\<not> val > maxv" using gt by simp
    moreover have "incr > 0 \<and> incr > sint (maxv - val) \<longleftrightarrow> uint val + incr > 2 ^ bits - 1"
      "incr < 0 \<and> incr < sint (- val) \<longleftrightarrow> uint val + incr < 0"
      using True uint_ge_0 [of val] unfolding incs [OF True] by linarith+
    ultimately show ?thesis
      using wrap umax bits unfolding defs maxv_def [symmetric] by (cases ow) simp_all
  next
    case False
    then have "val > maxv" "incr = 0" using gt val by simp_all
    then show ?thesis
      using wrap umax bits False unfolding defs maxv_def [symmetric] by (cases ow) simp_all
  qed
qed

lemma checkSigned_eq:
  assumes bits: "0 < bits" "bits \<le> 64" and rng: "int64_range val" "int64_range incr"
    and val: "incr = 0 \<and> 2 ^ (bits - 1) - 1 - val < 2 ^ 63 \<or> - (2 ^ (bits - 1)) \<le> val \<and> val < 2 ^ (bits - 1)"
  shows "checkSignedBitfieldOverflow val incr bits ow =
    bf_limit (- (2 ^ (bits - 1))) (2 ^ (bits - 1) - 1) (signed_take_bit (bits - 1) (val + incr)) ow (val + incr)"
proof -
  define hi where "hi = (2 :: int) ^ (bits - 1) - 1"
  have pow: "(1 :: int) \<le> 2 ^ (bits - 1)" "(2 :: int) ^ (bits - 1) \<le> 2 ^ 63"
    using bits by (simp, intro power_increasing) auto
  have hi: "0 \<le> hi" "hi < 2 ^ 63" "- (2 ^ (bits - 1)) = - hi - 1" using pow by (auto simp: hi_def)
  have max: "(if bits = 64 then 2 ^ 63 - 1 else hi) = hi" by (simp add: hi_def)
  let ?c = "word_of_int val + word_of_int incr :: u64"
  have c: "?c = word_of_int (val + incr)" by simp
  have wrap: "sint (if bits < 64 then if ?c AND push_bit (bits - 1) 1 \<noteq> 0 then ?c OR push_bit bits (- 1)
       else ?c AND NOT (push_bit bits (- 1)) else ?c) = signed_take_bit (bits - 1) (val + incr)"
  proof -
    have "?c OR push_bit bits (- 1) = take_bit bits ?c OR push_bit bits (- 1)"
      by (rule bit_word_eqI) (auto simp: bit_or_iff bit_take_bit_iff bit_not_iff bit_mask_iff)
    moreover have "?c AND push_bit (bits - 1) 1 = take_bit bits ?c AND push_bit (bits - 1) 1"
      using bits by (intro bit_word_eqI) (auto simp: bit_and_iff bit_take_bit_iff bit_exp_iff)
    moreover have "take_bit bits ?c = ?c" if "\<not> bits < 64"
      using that bits by (intro bit_word_eqI) (auto simp: bit_take_bit_iff)
    ultimately show ?thesis
      using sign_extend [OF bits, of "val + incr"] unfolding and_not_high Let_def c [symmetric]
      by (cases "bits < 64") (simp_all only: simp_thms if_True if_False)
  qed
  have val: "incr = 0 \<and> hi - val < 2 ^ 63 \<or> - hi - 1 \<le> val \<and> val \<le> hi" using val by (auto simp: hi_def)
  have small: "hi < 2 ^ 62" if "bits \<noteq> 64"
  proof -
    have "(2 :: int) ^ (bits - 1) \<le> 2 ^ 62" using bits that by (intro power_increasing) auto
    then show ?thesis by (simp add: hi_def)
  qed
  have full: "hi = 2 ^ 63 - 1" if "bits = 64" using that by (simp add: hi_def)
  let ?inc = "sint (word_of_int (hi - val) :: u64)" and ?dec = "sint (word_of_int (- hi - 1 - val) :: u64)"
  have inc: "?inc = hi - val" if "hi - val < 2 ^ 63" "val \<le> hi"
    using that by (intro sint_word_of_int_u64) (simp add: int64_range_def)
  have dec: "?dec = - hi - 1 - val" if "- hi - 1 - val < 2 ^ 63" "val \<le> hi" "val < 0 \<or> hi < 2 ^ 62"
    using that hi by (intro sint_word_of_int_u64) (auto simp: int64_range_def)
  note r = rng [unfolded int64_range_def]
  have over: "val > hi \<or> bits \<noteq> 64 \<and> incr > ?inc \<or> val \<ge> 0 \<and> incr > 0 \<and> incr > ?inc \<longleftrightarrow> val + incr > hi"
  proof (cases "val \<le> hi \<and> hi - val < 2 ^ 63")
    case True
    then show ?thesis unfolding inc [OF conjunct2 [OF True] conjunct1 [OF True]] using val full r by linarith
  next
    case False
    show ?thesis
    proof (cases "bits = 64")
      case True
      with False show ?thesis using val full [OF True] r by auto
    next
      case big: False
      with False have "val > hi" using val small [OF big] by auto
      with val show ?thesis by linarith
    qed
  qed
  have under: "val < - hi - 1 \<or> bits \<noteq> 64 \<and> incr < ?dec \<or> val < 0 \<and> incr < 0 \<and> incr < ?dec \<longleftrightarrow> val + incr < - hi - 1"
    if "\<not> val + incr > hi"
  proof (cases "- hi - 1 - val < 2 ^ 63 \<and> val \<le> hi \<and> (val < 0 \<or> hi < 2 ^ 62)")
    case True
    then show ?thesis using dec val full r by linarith
  next
    case False
    show ?thesis
    proof (cases "bits = 64")
      case True
      with False show ?thesis using that val full [OF True] r by auto
    next
      case big: False
      with False show ?thesis using that val small [OF big] r hi by auto
    qed
  qed
  note eqs = checkSignedBitfieldOverflow_def Let_def max wrap bf_limit_def hi(3) hi_def [symmetric] over
  show ?thesis
  proof (cases "val + incr > hi")
    case True
    then show ?thesis unfolding eqs by (simp only: if_True)
  next
    case False
    show ?thesis unfolding eqs under [OF False] ..
  qed
qed

subsection \<open>The properties\<close>

text \<open>
  C36. The population count, which adds up 28 bytes at a time inside of one machine word, is the number
  of bits that are set in the buffer, for every length and alignment.
\<close>

theorem redisPopcount_counts: "redisPopcount addr s = int (length (filter id (bitmap s)))"
  by (simp add: redisPopcount_eq popcount_def)

text \<open>
  C37. The bit search never reaches its panic. It returns the position of the first bit with the wanted
  value, and otherwise -1 for a set bit and the length of the buffer for a clear bit.
\<close>

theorem redisBitpos_first:
  "redisBitpos addr s b = Some
    (if b \<in> set (bitmap s) then int (length (takeWhile (\<lambda>x. x \<noteq> b) (bitmap s)))
     else if b then - 1 else 8 * int (length s))"
  by (simp add: redisBitpos_eq first_bit_def)

text \<open>
  C38. A bit field of at most 64 bits inside of the buffer is written without leaving the buffer; reading
  it back gives the value cut to the width of the field, as an unsigned and as a signed number, and
  no bit outside of the field changes.
\<close>

theorem bitfield_round_trip:
  assumes "offset + bits \<le> 8 * length p" "0 < bits" "bits \<le> 64"
  shows "\<exists>p'. setSignedBitfield p offset bits v = Some p' \<and> length p' = length p \<and>
    getUnsignedBitfield p' offset bits = Some (take_bit bits (word_of_int v)) \<and>
    getSignedBitfield p' offset bits = Some (signed_take_bit (bits - 1) v) \<and>
    (\<forall>i < 8 * length p. i < offset \<or> offset + bits \<le> i \<longrightarrow> bitmap p' ! i = bitmap p ! i)"
  by (rule bitfield_set_get [OF assms])

theorem bitfield_round_trip_witness:
  "\<exists>p'. setSignedBitfield [0, 0] 7 5 (- 9) = Some p' \<and> getSignedBitfield p' 7 5 = Some (- 9)"
  using bitfield_round_trip [of 7 5 "[0, 0]" "- 9"] by auto

end
