(* ===== verification/Bit_Commands.thy ===== *)
theory Bit_Commands
  imports Bitops T_String
begin

section \<open>Bitmap commands (\<open>bitops.c\<close>)\<close>

text \<open>
  The commands of \<open>redis/redis-6.2.7/src/bitops.c\<close> on top of the bit primitives of \<open>Bitops\<close>. Where the
  code depends on the address of a string (the alignment of the fast loops), the address is a parameter.
  The fast path of \<open>BITOP\<close> works on little-endian words of eight bytes.
\<close>

subsection \<open>Arguments\<close>

definition getBitOffsetFromArgument :: "bytes \<Rightarrow> bool \<Rightarrow> nat \<Rightarrow> server \<Rightarrow> nat option" where
  "getBitOffsetFromArgument p hash bits s =
    (let usehash = (p \<noteq> [] \<and> hd p = of_char CHR 0x23 \<and> hash \<and> bits > 0) in
     case string2ll (if usehash then tl p else p) of
       None \<Rightarrow> None
     | Some loffset \<Rightarrow>
         let loffset = (if usehash then wrap64 (loffset * int bits) else loffset)
         in if loffset < 0 \<or> drop_bit 3 loffset \<ge> sv_max_bulk s then None else Some (nat loffset))"

abbreviation (input) bitoffset_err :: string where
  "bitoffset_err \<equiv> ''bit offset is not an integer or out of range''"

text \<open>The sign and the width of a bit field.\<close>

definition getBitfieldTypeFromArgument :: "bytes \<Rightarrow> (bool \<times> nat) option" where
  "getBitfieldTypeFromArgument p =
    (if p = [] then None
     else if hd p \<noteq> of_char CHR ''i'' \<and> hd p \<noteq> of_char CHR ''u'' then None
     else let sign = (hd p = of_char CHR ''i'') in
       case string2ll (c_str (tl p)) of
         None \<Rightarrow> None
       | Some llbits \<Rightarrow>
           if llbits < 1 \<or> sign \<and> llbits > 64 \<or> \<not> sign \<and> llbits > 63 then None
           else Some (sign, nat llbits))"

text \<open>The new state and the string, or \<^const>\<open>Wrong_type\<close>.\<close>

definition lookupStringForBitCommand :: "nat \<Rightarrow> nat \<Rightarrow> server \<Rightarrow> (server \<times> bytes checked) option" where
  "lookupStringForBitCommand c maxbit s = do {
     let d = c_db (sv_client s c);
     let key = arg s c 1;
     let byte = int (maxbit div 8);
     (s, x) \<leftarrow> lookupKeyWrite d key s;
     case checkType_string x of
       Wrong_type \<Rightarrow> Some (addReply c wrongtypeerr s, Wrong_type)
     | Checked None \<Rightarrow> do {
         p \<leftarrow> sds_zero (byte + 1);
         s \<leftarrow> dbAdd d key (StringObj (SdsObj p)) s;
         Some (s, Checked p) }
     | Checked (Some x) \<Rightarrow> do {
         (s, p) \<leftarrow> dbUnshareStringValue d key x s;
         p \<leftarrow> sdsgrowzero p (byte + 1);
         s \<leftarrow> setObject d key (StringObj (SdsObj p)) s;
         Some (s, Checked p) } }"

fun getObjectReadOnlyString :: "strobj \<Rightarrow> bytes" where
  "getObjectReadOnlyString (IntObj v) = int_obj_bytes v"
| "getObjectReadOnlyString (SdsObj p) = p"

subsection \<open>SETBIT and GETBIT\<close>

abbreviation (input) bit_err :: string where "bit_err \<equiv> ''bit is not an integer or out of range''"

definition setbitCommand :: "nat \<Rightarrow> server \<Rightarrow> server option" where
  "setbitCommand c s =
    (let d = c_db (sv_client s c); key = arg s c 1 in
     case getBitOffsetFromArgument (arg s c 2) False 0 s of
       None \<Rightarrow> Some (addReplyError c bitoffset_err s)
     | Some bitoffset \<Rightarrow>
         case getLongLongArg (arg s c 3) of
           None \<Rightarrow> Some (addReplyError c bit_err s)
         | Some on \<Rightarrow>
             if on AND NOT 1 \<noteq> 0 then Some (addReplyError c bit_err s)
             else do {
               (s, r) \<leftarrow> lookupStringForBitCommand c bitoffset s;
               case r of
                 Wrong_type \<Rightarrow> Some s
               | Checked p \<Rightarrow> do {
                   let bt = 7 - bitoffset mod 8;
                   byteval \<leftarrow> get_at p (bitoffset div 8);
                   let bitval = byteval AND push_bit bt 1;
                   let byteval = byteval AND NOT (push_bit bt 1);
                   let byteval = byteval OR push_bit bt (word_of_int (on AND 1));
                   p \<leftarrow> put_at p (int (bitoffset div 8)) byteval;
                   s \<leftarrow> setObject d key (StringObj (SdsObj p)) s;
                   let s = signalModifiedKey d key s;
                   let s = notifyKeyspaceEvent NOTIFY_STRING ''setbit'' key d s;
                   Some (addReply c (if bitval \<noteq> 0 then RInt 1 else RInt 0) (dirty_add 1 s)) } })"

definition getbitCommand :: "nat \<Rightarrow> server \<Rightarrow> server option" where
  "getbitCommand c s =
    (case getBitOffsetFromArgument (arg s c 2) False 0 s of
       None \<Rightarrow> Some (addReplyError c bitoffset_err s)
     | Some bitoffset \<Rightarrow> do {
         (s, x) \<leftarrow> lookupKeyReadOrReply c (arg s c 1) (RInt 0) s;
         case checkType_string x of
           Wrong_type \<Rightarrow> Some (addReply c wrongtypeerr s)
         | Checked None \<Rightarrow> Some s
         | Checked (Some x) \<Rightarrow> do {
             let p = (case x of SdsObj p \<Rightarrow> p | IntObj v \<Rightarrow> int_obj_bytes v);
             let bitval = (if bitoffset div 8 < length p then p ! (bitoffset div 8) AND push_bit (7 - bitoffset mod 8) 1
                           else 0);
             Some (addReply c (if bitval \<noteq> 0 then RInt 1 else RInt 0) s) } })"

subsection \<open>BITOP\<close>

datatype bitop = BITOP_AND | BITOP_OR | BITOP_XOR | BITOP_NOT

text \<open>The operators on a word and on a byte; \<open>BITOP_NOT\<close> only reads its first operand.\<close>

definition bitop_fun :: "bitop \<Rightarrow> 'a::len word \<Rightarrow> 'a word \<Rightarrow> 'a word" where
  "bitop_fun op a b =
    (case op of BITOP_AND \<Rightarrow> a AND b | BITOP_OR \<Rightarrow> a OR b | BITOP_XOR \<Rightarrow> a XOR b | BITOP_NOT \<Rightarrow> NOT a)"

definition load64 :: "bytes \<Rightarrow> nat \<Rightarrow> u64" where
  "load64 p i = word_of_int (get_le (take 8 (drop i p)))"

definition store64 :: "bytes \<Rightarrow> nat \<Rightarrow> u64 \<Rightarrow> bytes" where
  "store64 p i w = memcpy p i (put_le 8 (uint w))"

text \<open>One round of a fast loop: four words of \<open>res\<close> at \<open>j\<close> combined with those of one source.\<close>

definition bitop_words :: "bitop \<Rightarrow> nat \<Rightarrow> bytes \<Rightarrow> bytes \<Rightarrow> bytes" where
  "bitop_words op j src res =
    fold (\<lambda>k res. store64 res (j + 8 * k) (bitop_fun op (load64 res (j + 8 * k)) (load64 src (j + 8 * k)))) [0..<4] res"

function bitop_fast :: "bitop \<Rightarrow> bytes list \<Rightarrow> nat \<Rightarrow> nat \<Rightarrow> bytes \<Rightarrow> nat \<times> bytes" where
  "bitop_fast op srcs minlen j res =
    (if minlen \<ge> 32
     then bitop_fast op srcs (minlen - 32) (j + 32)
       (if op = BITOP_NOT then bitop_words op j (hd srcs) res else fold (bitop_words op j) (tl srcs) res)
     else (j, res))"
  by pat_completeness auto
termination by (relation "measure (\<lambda>(_, _, minlen, _, _). minlen)") auto

declare bitop_fast.simps [simp del]

text \<open>The byte loop; the inner loop stops as soon as the output cannot change any more.\<close>

fun bitop_inner :: "bitop \<Rightarrow> nat \<Rightarrow> bytes list \<Rightarrow> byte \<Rightarrow> byte" where
  "bitop_inner op j [] out = out"
| "bitop_inner op j (src # srcs) out =
    (let b = (if length src \<le> j then 0 else src ! j);
         out = (if op = BITOP_NOT then out else bitop_fun op out b);
         skip = (op = BITOP_AND \<and> out = 0 \<or> op = BITOP_OR \<and> out = 0xff)
     in if skip then out else bitop_inner op j srcs out)"

definition bitop_byte :: "bitop \<Rightarrow> bytes list \<Rightarrow> nat \<Rightarrow> byte" where
  "bitop_byte op srcs j =
    (let out = (if length (hd srcs) \<le> j then 0 else hd srcs ! j);
         out = (if op = BITOP_NOT then NOT out else out)
     in bitop_inner op j (tl srcs) out)"

definition bitop_compute :: "bitop \<Rightarrow> bytes list \<Rightarrow> nat \<Rightarrow> nat \<Rightarrow> bytes" where
  "bitop_compute op srcs maxlen minlen =
    (let res = replicate maxlen 0;
         (j, res) = (if minlen \<ge> 32 \<and> length srcs \<le> 16
                     then bitop_fast op srcs minlen 0 (memcpy res 0 (take minlen (hd srcs)))
                     else (0, res))
     in fold (\<lambda>j res. res[j := bitop_byte op srcs j]) [j..<maxlen] res)"

text \<open>The lookup of the sources with the running maximum and minimum of their lengths.\<close>

fun bitop_lookup ::
    "nat \<Rightarrow> bytes list \<Rightarrow> nat \<Rightarrow> bytes list \<Rightarrow> nat \<Rightarrow> nat \<Rightarrow> server \<Rightarrow> (server \<times> (bytes list \<times> nat \<times> nat) checked) option" where
  "bitop_lookup d [] j srcs maxlen minlen s = Some (s, Checked (srcs, maxlen, minlen))"
| "bitop_lookup d (key # keys) j srcs maxlen minlen s = do {
     (s, x) \<leftarrow> lookupKeyRead d key s;
     case checkType_string x of
       Wrong_type \<Rightarrow> Some (s, Wrong_type)
     | Checked None \<Rightarrow> bitop_lookup d keys (Suc j) (srcs @ [[]]) maxlen 0 s
     | Checked (Some x) \<Rightarrow> do {
         let src = getDecodedObject x;
         let len = length src;
         bitop_lookup d keys (Suc j) (srcs @ [src]) (if len > maxlen then len else maxlen)
           (if j = 0 \<or> len < minlen then len else minlen) s } }"

definition bitop_opcode :: "bytes \<Rightarrow> bitop option" where
  "bitop_opcode opname =
    (if ci_eq opname ''and'' then Some BITOP_AND
     else if ci_eq opname ''or'' then Some BITOP_OR
     else if ci_eq opname ''xor'' then Some BITOP_XOR
     else if ci_eq opname ''not'' then Some BITOP_NOT
     else None)"

definition bitopCommand :: "nat \<Rightarrow> server \<Rightarrow> server option" where
  "bitopCommand c s =
    (let d = c_db (sv_client s c); targetkey = arg s c 2 in
     case bitop_opcode (arg s c 1) of
       None \<Rightarrow> Some (addReply c syntaxerr s)
     | Some op \<Rightarrow>
         if op = BITOP_NOT \<and> argc s c \<noteq> 4
         then Some (addReplyError c ''BITOP NOT must be called with a single source key.'' s)
         else do {
           (s, r) \<leftarrow> bitop_lookup d (drop 3 (c_argv (sv_client s c))) 0 [] 0 0 s;
           case r of
             Wrong_type \<Rightarrow> Some (addReply c wrongtypeerr s)
           | Checked (srcs, maxlen, minlen) \<Rightarrow>
               if maxlen \<noteq> 0 then do {
                 let res = bitop_compute op srcs maxlen minlen;
                 s \<leftarrow> setKey d targetkey (StringObj (SdsObj res)) s;
                 let s = notifyKeyspaceEvent NOTIFY_STRING ''set'' targetkey d s;
                 Some (addReplyLongLong c (int maxlen) (dirty_add 1 s)) }
               else do {
                 let (s, deleted) = dbDelete d targetkey s;
                 let s = (if deleted
                          then dirty_add 1 (notifyKeyspaceEvent NOTIFY_GENERIC ''del'' targetkey d (signalModifiedKey d targetkey s))
                          else s);
                 Some (addReplyLongLong c (int maxlen) s) } })"

subsection \<open>BITCOUNT and BITPOS\<close>

text \<open>
  \<open>addr\<close> is the address of the string. The range of \<open>BITCOUNT\<close> is that of \<open>GETRANGE\<close>: for the empty
  string the last position is -1, so that the range is empty.
\<close>

definition bitcountCommand :: "nat \<Rightarrow> nat \<Rightarrow> server \<Rightarrow> server option" where
  "bitcountCommand addr c s = do {
     (s, x) \<leftarrow> lookupKeyReadOrReply c (arg s c 1) (RInt 0) s;
     case checkType_string x of
       Wrong_type \<Rightarrow> Some (addReply c wrongtypeerr s)
     | Checked None \<Rightarrow> Some s
     | Checked (Some x) \<Rightarrow> do {
         let p = getObjectReadOnlyString x;
         let count = (\<lambda>(start, e). redisPopcount (addr + nat start) (take (nat (e - start + 1)) (drop (nat start) p)));
         if argc s c = 4 then
           (case getLongLongArg (arg s c 2) of
              None \<Rightarrow> Some (addReplyError c notinteger s)
            | Some start \<Rightarrow>
                case getLongLongArg (arg s c 3) of
                  None \<Rightarrow> Some (addReplyError c notinteger s)
                | Some e \<Rightarrow>
                    (case clip_range (int (length p)) start e of
                       None \<Rightarrow> Some (addReply c (RInt 0) s)
                     | Some r \<Rightarrow> Some (addReplyLongLong c (count r) s)))
         else if argc s c = 2 then
           (if 0 > int (length p) - 1 then Some (addReply c (RInt 0) s)
            else Some (addReplyLongLong c (count (0, int (length p) - 1)) s))
         else Some (addReply c syntaxerr s) } }"

text \<open>The range of \<open>BITPOS\<close>: first and last byte and whether the end was given, or the error.\<close>

definition bitpos_range :: "bytes list \<Rightarrow> int \<Rightarrow> (reply, (int \<times> int) \<times> bool) sum" where
  "bitpos_range argv strlen =
    (if length argv = 4 \<or> length argv = 5 then
       (case getLongLongArg (argv ! 3) of
          None \<Rightarrow> Inl (RError notinteger)
        | Some start \<Rightarrow>
            if length argv = 5 then
              (case getLongLongArg (argv ! 4) of
                 None \<Rightarrow> Inl (RError notinteger)
               | Some e \<Rightarrow> Inr (clip_indexes strlen start e, True))
            else Inr (clip_indexes strlen start (strlen - 1), False))
     else if length argv = 3 then Inr ((0, strlen - 1), False)
     else Inl syntaxerr)"

definition bitposCommand :: "nat \<Rightarrow> nat \<Rightarrow> server \<Rightarrow> server option" where
  "bitposCommand addr c s =
    (case getLongLongArg (arg s c 2) of
       None \<Rightarrow> Some (addReplyError c notinteger s)
     | Some b \<Rightarrow>
         if b \<noteq> 0 \<and> b \<noteq> 1 then Some (addReplyError c ''The bit argument must be 1 or 0.'' s)
         else do {
           (s, x) \<leftarrow> lookupKeyRead (c_db (sv_client s c)) (arg s c 1) s;
           case checkType_string x of
             Wrong_type \<Rightarrow> Some (addReply c wrongtypeerr s)
           | Checked None \<Rightarrow> Some (addReplyLongLong c (if b \<noteq> 0 then - 1 else 0) s)
           | Checked (Some x) \<Rightarrow> do {
               let p = getObjectReadOnlyString x;
               case bitpos_range (c_argv (sv_client s c)) (int (length p)) of
                 Inl r \<Rightarrow> Some (addReply c r s)
               | Inr ((start, e), end_given) \<Rightarrow>
                   if start > e then Some (addReplyLongLong c (- 1) s)
                   else do {
                     let n = e - start + 1;
                     pos \<leftarrow> redisBitpos (addr + nat start) (take (nat n) (drop (nat start) p)) (b \<noteq> 0);
                     if end_given \<and> b = 0 \<and> pos = n * 8 then Some (addReplyLongLong c (- 1) s)
                     else Some (addReplyLongLong c (if pos \<noteq> - 1 then pos + start * 8 else pos) s) } } })"

subsection \<open>BITFIELD\<close>

datatype bfopcode = BITFIELDOP_GET | BITFIELDOP_SET | BITFIELDOP_INCRBY

record bitfieldOp =
  bf_offset :: nat
  bf_i64 :: int
  bf_opcode :: bfopcode
  bf_owtype :: bfoverflow
  bf_bits :: nat
  bf_sign :: bool

abbreviation (input) bftype_err :: string where
  "bftype_err \<equiv> ''Invalid bitfield type. Use something like i16 u8. Note that u64 is not supported but i64 is.''"

definition bitfield_opcode :: "bytes \<Rightarrow> nat \<Rightarrow> bfopcode option" where
  "bitfield_opcode subcmd remargs =
    (if ci_eq subcmd ''get'' \<and> remargs \<ge> 2 then Some BITFIELDOP_GET
     else if ci_eq subcmd ''set'' \<and> remargs \<ge> 3 then Some BITFIELDOP_SET
     else if ci_eq subcmd ''incrby'' \<and> remargs \<ge> 3 then Some BITFIELDOP_INCRBY
     else None)"

definition bitfield_owtype :: "bytes \<Rightarrow> bfoverflow option" where
  "bitfield_owtype name =
    (if ci_eq name ''wrap'' then Some BFOVERFLOW_WRAP
     else if ci_eq name ''sat'' then Some BFOVERFLOW_SAT
     else if ci_eq name ''fail'' then Some BFOVERFLOW_FAIL
     else None)"

text \<open>One operation from the arguments that follow the name of a subcommand.\<close>

definition bitfield_op :: "server \<Rightarrow> bfopcode \<Rightarrow> bfoverflow \<Rightarrow> bytes list \<Rightarrow> (string, bitfieldOp) sum" where
  "bitfield_op s opcode owtype args =
    (case getBitfieldTypeFromArgument (args ! 0) of
       None \<Rightarrow> Inl bftype_err
     | Some (sign, bits) \<Rightarrow>
         case getBitOffsetFromArgument (args ! 1) True bits s of
           None \<Rightarrow> Inl bitoffset_err
         | Some bitoffset \<Rightarrow>
             (case (if opcode \<noteq> BITFIELDOP_GET then getLongLongArg (args ! 2) else Some 0) of
                None \<Rightarrow> Inl notinteger
              | Some i64 \<Rightarrow>
                  Inr \<lparr>bf_offset = bitoffset, bf_i64 = i64, bf_opcode = opcode, bf_owtype = owtype,
                       bf_bits = bits, bf_sign = sign\<rparr>))"

fun bitfield_parse :: "server \<Rightarrow> bytes list \<Rightarrow> bfoverflow \<Rightarrow> bitfieldOp list \<Rightarrow> (reply, bitfieldOp list) sum" where
  "bitfield_parse s [] owtype ops = Inr ops"
| "bitfield_parse s (subcmd # args) owtype ops =
    (case bitfield_opcode subcmd (length args) of
       Some opcode \<Rightarrow>
         (case bitfield_op s opcode owtype args of
            Inl e \<Rightarrow> Inl (RError e)
          | Inr b \<Rightarrow> bitfield_parse s (drop (if opcode = BITFIELDOP_GET then 2 else 3) args) owtype (ops @ [b]))
     | None \<Rightarrow>
         if ci_eq subcmd ''overflow'' \<and> args \<noteq> [] then
           (case bitfield_owtype (hd args) of
              None \<Rightarrow> Inl (RError ''Invalid OVERFLOW type specified'')
            | Some ow \<Rightarrow> bitfield_parse s (tl args) ow ops)
         else Inl syntaxerr)"

text \<open>The operations that write, and the highest bit that they write.\<close>

abbreviation bf_writes :: "bitfieldOp \<Rightarrow> bool" where
  "bf_writes b \<equiv> bf_opcode b \<noteq> BITFIELDOP_GET"

definition highest_write_offset :: "bitfieldOp list \<Rightarrow> nat" where
  "highest_write_offset ops =
    fold (\<lambda>b h. if bf_writes b \<and> h < bf_offset b + bf_bits b - 1 then bf_offset b + bf_bits b - 1 else h) ops 0"

definition bitfield_set_signed :: "bitfieldOp \<Rightarrow> bytes \<Rightarrow> (bytes \<times> reply) option" where
  "bitfield_set_signed b p = do {
     oldval \<leftarrow> getSignedBitfield p (bf_offset b) (bf_bits b);
     let (newval, (overflow, wrapped), retval) =
       (if bf_opcode b = BITFIELDOP_INCRBY then
          (let newval = wrap64 (oldval + bf_i64 b);
               ov = checkSignedBitfieldOverflow oldval (bf_i64 b) (bf_bits b) (bf_owtype b);
               newval = (if fst ov \<noteq> 0 then case snd ov of Some w \<Rightarrow> w | None \<Rightarrow> newval else newval)
           in (newval, ov, newval))
        else
          (let newval = bf_i64 b;
               ov = checkSignedBitfieldOverflow newval 0 (bf_bits b) (bf_owtype b);
               newval = (if fst ov \<noteq> 0 then case snd ov of Some w \<Rightarrow> w | None \<Rightarrow> newval else newval)
           in (newval, ov, oldval)));
     if \<not> (overflow \<noteq> 0 \<and> bf_owtype b = BFOVERFLOW_FAIL) then do {
       p \<leftarrow> setSignedBitfield p (bf_offset b) (bf_bits b) newval;
       Some (p, RInt retval) }
     else Some (p, RNull) }"

definition bitfield_set_unsigned :: "bitfieldOp \<Rightarrow> bytes \<Rightarrow> (bytes \<times> reply) option" where
  "bitfield_set_unsigned b p = do {
     oldval \<leftarrow> getUnsignedBitfield p (bf_offset b) (bf_bits b);
     let (newval, (overflow, wrapped), retval) =
       (if bf_opcode b = BITFIELDOP_INCRBY then
          (let newval = oldval + word_of_int (bf_i64 b);
               ov = checkUnsignedBitfieldOverflow oldval (bf_i64 b) (bf_bits b) (bf_owtype b);
               newval = (if fst ov \<noteq> 0 then case snd ov of Some w \<Rightarrow> w | None \<Rightarrow> newval else newval)
           in (newval, ov, newval))
        else
          (let newval = word_of_int (bf_i64 b);
               ov = checkUnsignedBitfieldOverflow newval 0 (bf_bits b) (bf_owtype b);
               newval = (if fst ov \<noteq> 0 then case snd ov of Some w \<Rightarrow> w | None \<Rightarrow> newval else newval)
           in (newval, ov, oldval)));
     if \<not> (overflow \<noteq> 0 \<and> bf_owtype b = BFOVERFLOW_FAIL) then do {
       p \<leftarrow> setUnsignedBitfield p (bf_offset b) (bf_bits b) newval;
       Some (p, RInt (sint retval)) }
     else Some (p, RNull) }"

text \<open>\<open>GET\<close> reads from a copy of up to nine bytes that is padded with zeros.\<close>

definition bitfield_get :: "bitfieldOp \<Rightarrow> bytes \<Rightarrow> reply option" where
  "bitfield_get b src = do {
     let byte = bf_offset b div 8;
     let buf = realloc 0 (take 9 (drop byte src)) 9;
     if bf_sign b then do {
       val \<leftarrow> getSignedBitfield buf (bf_offset b - byte * 8) (bf_bits b);
       Some (RInt val) }
     else do {
       val \<leftarrow> getUnsignedBitfield buf (bf_offset b - byte * 8) (bf_bits b);
       Some (RInt (sint val)) } }"

fun bitfield_run :: "nat \<Rightarrow> bitfieldOp list \<Rightarrow> bytes \<Rightarrow> server \<Rightarrow> int \<Rightarrow> (server \<times> bytes \<times> int) option" where
  "bitfield_run c [] p s changes = Some (s, p, changes)"
| "bitfield_run c (b # ops) p s changes =
    (if bf_writes b then do {
       (p, r) \<leftarrow> (if bf_sign b then bitfield_set_signed b p else bitfield_set_unsigned b p);
       bitfield_run c ops p (addReply c r s) (changes + 1) }
     else do {
       r \<leftarrow> bitfield_get b p;
       bitfield_run c ops p (addReply c r s) changes })"

text \<open>A key that does not exist reads as the empty string.\<close>

definition bitfieldGeneric :: "bool \<Rightarrow> nat \<Rightarrow> server \<Rightarrow> server option" where
  "bitfieldGeneric flag_readonly c s =
    (let d = c_db (sv_client s c); key = arg s c 1 in
     case bitfield_parse s (drop 2 (c_argv (sv_client s c))) BFOVERFLOW_WRAP [] of
       Inl r \<Rightarrow> Some (addReply c r s)
     | Inr ops \<Rightarrow>
         if \<not> list_ex bf_writes ops then do {
           (s, x) \<leftarrow> lookupKeyRead d key s;
           case checkType_string x of
             Wrong_type \<Rightarrow> Some (addReply c wrongtypeerr s)
           | Checked x \<Rightarrow> do {
               let p = (case x of None \<Rightarrow> [] | Some x \<Rightarrow> getObjectReadOnlyString x);
               (s, p, changes) \<leftarrow> bitfield_run c ops p (addReply c (RArrayLen (length ops)) s) 0;
               Some s } }
         else if flag_readonly then Some (addReplyError c ''BITFIELD_RO only supports the GET subcommand'' s)
         else do {
           (s, r) \<leftarrow> lookupStringForBitCommand c (highest_write_offset ops) s;
           case r of
             Wrong_type \<Rightarrow> Some s
           | Checked p \<Rightarrow> do {
               (s, p, changes) \<leftarrow> bitfield_run c ops p (addReply c (RArrayLen (length ops)) s) 0;
               s \<leftarrow> setObject d key (StringObj (SdsObj p)) s;
               if changes \<noteq> 0 then do {
                 let s = signalModifiedKey d key s;
                 let s = notifyKeyspaceEvent NOTIFY_STRING ''setbit'' key d s;
                 Some (dirty_add changes s) }
               else Some s } })"

definition bitfieldCommand :: "nat \<Rightarrow> server \<Rightarrow> server option" where
  "bitfieldCommand c s = bitfieldGeneric False c s"

definition bitfieldroCommand :: "nat \<Rightarrow> server \<Rightarrow> server option" where
  "bitfieldroCommand c s = bitfieldGeneric True c s"

subsection \<open>The commands return\<close>

lemma getbit_reads: "srv_ok s \<Longrightarrow> reads s (getbitCommand c s)"
  by (auto simp: getbitCommand_def exec_simps checkType_string_def Let_def intro!: tracked_intro split: string_splits)

lemma bitcount_reads: "srv_ok s \<Longrightarrow> reads s (bitcountCommand addr c s)"
  by (auto simp: bitcountCommand_def exec_simps checkType_string_def Let_def intro!: tracked_intro split: string_splits)

lemma bitpos_reads: "srv_ok s \<Longrightarrow> reads s (bitposCommand addr c s)"
  by (auto simp: bitposCommand_def exec_simps checkType_string_def Let_def redisBitpos_eq intro!: tracked_intro
      split: string_splits sum.splits)

lemma getBitOffset_less: "getBitOffsetFromArgument p hash bits s = Some off \<Longrightarrow> off < 2 ^ 63"
  using wrap64_range [unfolded int64_range_def]
  by (auto simp: getBitOffsetFromArgument_def Let_def string2ll_iff int64_range_def nat_less_iff
      split: option.splits if_splits)

text \<open>A string that is grown to at least \<open>n\<close> bytes.\<close>

definition grow :: "bytes \<Rightarrow> nat \<Rightarrow> bytes" where
  "grow p n = p @ replicate (n - length p) 0"

lemma length_grow [simp]: "length (grow p n) = max n (length p)"
  by (simp add: grow_def)

lemma sdsgrowzero_eq: "n < 2 ^ 63 \<Longrightarrow> sdsgrowzero p (int n) = Some (grow p n)"
  by (simp add: sdsgrowzero_def grow_def)

text \<open>The text of the string at a key, empty if there is none.\<close>

definition text_of :: "robj option \<Rightarrow> bytes" where
  "text_of x = (case x of Some (StringObj y) \<Rightarrow> getDecodedObject y | _ \<Rightarrow> [])"

definition is_string :: "robj option \<Rightarrow> bool" where
  "is_string x = (case x of Some (OtherObj _ _) \<Rightarrow> False | _ \<Rightarrow> True)"

lemma lookupBit_eq:
  fixes c s
  defines "d \<equiv> c_db (sv_client s c)" and "k \<equiv> arg s c (Suc 0)"
  defines "x \<equiv> dict_of (expire_st d k s) d k"
  assumes "srv_ok s" and "off < 2 ^ 64"
  shows "lookupStringForBitCommand c off s =
    (if is_string x then let p = grow (text_of x) (Suc (off div 8))
       in Some (add_key d k (StringObj (SdsObj p)) (expire_st d k s), Checked p)
     else Some (addReply c wrongtypeerr (expire_st d k s), Wrong_type))"
proof -
  have "int (off div 8) + 1 < 2 ^ 63" using assms by auto
  then have g: "sdsgrowzero p (int (off div 8) + 1) = Some (grow p (Suc (off div 8)))" 
    "sds_zero (int (off div 8) + 1) = Some (grow [] (Suc (off div 8)))" for p
    using sdsgrowzero_eq [of "Suc (off div 8)" p] by (simp_all add: sds_zero_def grow_def nat_add_distrib add.commute)
  show ?thesis
    using assms by (auto simp: lookupStringForBitCommand_def exec_simps Let_def checkType_string_def g is_string_def
        text_of_def split: option.splits robj.splits)
qed

lemma setbit_runs: "srv_ok s \<Longrightarrow> runs s (setbitCommand c s)"
proof (cases "getBitOffsetFromArgument (arg s c 2) False 0 s")
  case (Some off)
  assume "srv_ok s"
  moreover have "off < 2 ^ 64" using getBitOffset_less [OF Some] by simp
  ultimately show ?thesis using Some
    by (auto simp: setbitCommand_def lookupBit_eq Let_def exec_simps put_at_def intro!: tracked_intro
        split: option.splits)
qed (simp add: setbitCommand_def tracked_intro)

lemma bitop_lookup_reads:
  "srv_ok s \<Longrightarrow> d < length (sv_db s) \<Longrightarrow> reads_val s (bitop_lookup d ks j srcs mx mn s)"
proof (induction ks arbitrary: s j srcs mx mn)
  case (Cons k ks)
  have "tracked s {} False (read_st d k s)" using Cons.prems by (simp add: tracked_intro)
  then have "reads_val s (bitop_lookup d ks j' srcs' mx' mn' (read_st d k s))" for j' srcs' mx' mn'
    using Cons by (intro reads_val_trans [of s "read_st d k s"]) simp_all
  then show ?case
    using Cons.prems \<open>tracked s {} False (read_st d k s)\<close>
    by (auto simp: exec_simps Let_def split: checked.split option.split)
qed (simp add: tracked_intro)

lemma bitop_runs: "srv_ok s \<Longrightarrow> runs s (bitopCommand c s)"
  by (auto simp: bitopCommand_def Let_def exec_simps reads_val_runs bitop_lookup_reads
      intro!: tracked_intro runs_bind split: option.split checked.split)

text \<open>A sequence of replies.\<close>

definition addReplies :: "nat \<Rightarrow> reply list \<Rightarrow> server \<Rightarrow> server" where
  "addReplies c rs s = upd_client c (\<lambda>cl. cl\<lparr>c_reply := c_reply cl @ rs\<rparr>) s"

interpretation addReplies: quiet "addReplies c rs" for c rs
  by unfold_locales (auto simp: addReplies_def txn_def stream_same)

lemma addReplies_Cons: "addReplies c rs (addReply c r s) = addReplies c (r # rs) s"
  by (simp add: addReplies_def addReply_def upd_client_def)

lemma addReplies_Nil: "addReplies c [] s = s"
  by (simp add: addReplies_def upd_client_def)

definition bf_ok :: "bytes \<Rightarrow> bitfieldOp \<Rightarrow> bool" where
  "bf_ok p b \<longleftrightarrow> 0 < bf_bits b \<and> bf_bits b \<le> 64 \<and> (bf_writes b \<longrightarrow> bf_offset b + bf_bits b \<le> 8 * length p)"

lemma getBitfield_Some:
  assumes "offset + bits \<le> 8 * length p"
  shows "\<exists>v. getUnsignedBitfield p offset bits = Some v" "\<exists>v. getSignedBitfield p offset bits = Some v"
  using getUnsignedBitfield_loop_spec [OF assms, of 0] by (simp_all add: getUnsignedBitfield_def getSignedBitfield_def)

lemma setBitfield_Some:
  assumes "offset + bits \<le> 8 * length p"
  shows "\<exists>p'. setUnsignedBitfield p offset bits v = Some p' \<and> length p' = length p"
    and "\<exists>p'. setSignedBitfield p offset bits w = Some p' \<and> length p' = length p"
  unfolding setSignedBitfield_def setUnsignedBitfield_def using setUnsignedBitfield_loop_spec [OF assms] by blast+

lemma bitfield_set_Some:
  assumes "bf_ok p b" "bf_writes b"
  shows "\<exists>p' r. bitfield_set_signed b p = Some (p', r) \<and> length p' = length p"
    and "\<exists>p' r. bitfield_set_unsigned b p = Some (p', r) \<and> length p' = length p"
proof -
  have le: "bf_offset b + bf_bits b \<le> 8 * length p" using assms by (simp add: bf_ok_def)
  obtain v w where v: "getUnsignedBitfield p (bf_offset b) (bf_bits b) = Some v"
    "getSignedBitfield p (bf_offset b) (bf_bits b) = Some w" using getBitfield_Some [OF le] by blast
  obtain f g where fg: "\<And>x. setUnsignedBitfield p (bf_offset b) (bf_bits b) x = Some (f x) \<and> length (f x) = length p"
    "\<And>x. setSignedBitfield p (bf_offset b) (bf_bits b) x = Some (g x) \<and> length (g x) = length p"
    using setBitfield_Some [OF le] by metis
  show "\<exists>p' r. bitfield_set_signed b p = Some (p', r) \<and> length p' = length p"
    using v(2) fg(2) by (simp add: bitfield_set_signed_def Let_def case_prod_unfold)
  show "\<exists>p' r. bitfield_set_unsigned b p = Some (p', r) \<and> length p' = length p"
    using v(1) fg(1) by (simp add: bitfield_set_unsigned_def Let_def case_prod_unfold)
qed

lemma bitfield_get_Some: "bf_ok p b \<Longrightarrow> \<exists>r. bitfield_get b q = Some r"
proof -
  assume "bf_ok p b"
  moreover have "bf_offset b mod 8 < 8" by simp
  ultimately have "bf_offset b mod 8 + bf_bits b \<le> 72" unfolding bf_ok_def by linarith
  then have "(bf_offset b - bf_offset b div 8 * 8) + bf_bits b
      \<le> 8 * length (realloc (0::byte) (take 9 (drop (bf_offset b div 8) q)) 9)"
    by (simp add: minus_div_mult_eq_mod)
  from getBitfield_Some [OF this] show ?thesis by (auto simp: bitfield_get_def Let_def)
qed

lemma bitfield_run_Some:
  assumes "\<forall>b \<in> set ops. bf_ok p b"
  shows "\<exists>rs p'. bitfield_run c ops p s n = Some (addReplies c rs s, p', n + int (length (filter bf_writes ops))) \<and>
    length p' = length p \<and> length rs = length ops"
  using assms
proof (induction ops arbitrary: p s n)
  case (Cons b ops)
  show ?case
  proof (cases "bf_writes b")
    case True
    then obtain q r where q: "(if bf_sign b then bitfield_set_signed b p else bitfield_set_unsigned b p) = Some (q, r)"
      "length q = length p"
      using bitfield_set_Some [of p b] Cons.prems by (cases "bf_sign b") auto
    then have "\<forall>b \<in> set ops. bf_ok q b" using Cons.prems by (simp add: bf_ok_def)
    from Cons.IH [OF this, of "addReply c r s" "n + 1"] obtain rs p' where
      "bitfield_run c ops q (addReply c r s) (n + 1) =
        Some (addReplies c rs (addReply c r s), p', n + 1 + int (length (filter bf_writes ops)))"
      "length p' = length q" "length rs = length ops" by blast
    then show ?thesis using q True by (auto simp: addReplies_Cons intro!: exI [of _ "r # rs"])
  next
    case False
    obtain r where "bitfield_get b p = Some r" using bitfield_get_Some Cons.prems by fastforce
    moreover from Cons.IH [of p "addReply c r s" n] Cons.prems obtain rs p' where
      "bitfield_run c ops p (addReply c r s) n =
        Some (addReplies c rs (addReply c r s), p', n + int (length (filter bf_writes ops)))"
      "length p' = length p" "length rs = length ops" by auto
    ultimately show ?thesis using False by (auto simp: addReplies_Cons intro!: exI [of _ "r # rs"])
  qed
qed (auto simp: addReplies_Nil intro!: exI [of _ "[]"])

definition bf_parsed :: "bitfieldOp \<Rightarrow> bool" where
  "bf_parsed b \<longleftrightarrow> 0 < bf_bits b \<and> bf_bits b \<le> 64 \<and> bf_offset b < 2 ^ 63"

lemma bitfield_op_parsed: "bitfield_op s opc ow args = Inr b \<Longrightarrow> bf_parsed b"
  by (auto simp: bitfield_op_def bf_parsed_def getBitfieldTypeFromArgument_def Let_def
      dest: getBitOffset_less split: option.splits if_splits prod.splits)

lemma bitfield_parse_parsed:
  "bitfield_parse s args ow ops = Inr ops' \<Longrightarrow> \<forall>b \<in> set ops. bf_parsed b \<Longrightarrow> \<forall>b \<in> set ops'. bf_parsed b"
proof (induction s args ow ops rule: bitfield_parse.induct)
  case (2 s subcmd args ow ops)
  show ?case
  proof (cases "bitfield_opcode subcmd (length args)")
    case None
    then show ?thesis using 2 by (auto split: option.splits if_splits)
  next
    case (Some opc)
    with 2(3) obtain b where b: "bitfield_op s opc ow args = Inr b" by (auto split: sum.splits)
    have "bitfield_parse s (drop (if opc = BITFIELDOP_GET then 2 else 3) args) ow (ops @ [b]) = Inr ops'"
      using 2(3) Some b by simp
    then show ?thesis using 2(2) [OF Some b] 2(4) bitfield_op_parsed [OF b] by simp
  qed
qed simp

lemma highest_write_offset_ge:
  "b \<in> set ops \<Longrightarrow> bf_writes b \<Longrightarrow> bf_offset b + bf_bits b - 1 \<le> highest_write_offset ops"
  "\<forall>b \<in> set ops. bf_parsed b \<Longrightarrow> highest_write_offset ops < 2 ^ 64"
proof -
  let ?f = "\<lambda>b h. if bf_writes b \<and> h < bf_offset b + bf_bits b - 1 then bf_offset b + bf_bits b - 1 else h"
  have mono: "h \<le> fold ?f ops h" for h ops
  proof (induction ops arbitrary: h)
    case (Cons b ops)
    show ?case using Cons [of "?f b h"] by (auto split: if_splits)
  qed simp
  have "b \<in> set ops \<Longrightarrow> bf_writes b \<Longrightarrow> bf_offset b + bf_bits b - 1 \<le> fold ?f ops h" for h
  proof (induction ops arbitrary: h)
    case (Cons a ops)
    then show ?case using mono [of "?f a h" ops] by (auto split: if_splits)
  qed simp
  then show "b \<in> set ops \<Longrightarrow> bf_writes b \<Longrightarrow> bf_offset b + bf_bits b - 1 \<le> highest_write_offset ops"
    by (simp add: highest_write_offset_def)
  have "\<forall>b \<in> set ops. bf_parsed b \<Longrightarrow> h < 2 ^ 64 \<Longrightarrow> fold ?f ops h < 2 ^ 64" for h
    by (induction ops arbitrary: h) (auto simp: bf_parsed_def)
  then show "\<forall>b \<in> set ops. bf_parsed b \<Longrightarrow> highest_write_offset ops < 2 ^ 64"
    by (simp add: highest_write_offset_def)
qed


lemma bitfield_run_bind:
  assumes "\<forall>b \<in> set ops. bf_ok p b"
    and "\<And>rs p'. Q s0 (f (addReplies c rs s, p', n + int (length (filter bf_writes ops))))"
  shows "Q s0 (bitfield_run c ops p s n \<bind> f)"
proof -
  obtain rs p' where "bitfield_run c ops p s n = Some (addReplies c rs s, p', n + int (length (filter bf_writes ops)))"
    using bitfield_run_Some [OF assms(1)] by blast
  then show ?thesis using assms(2) by simp
qed

lemmas bitfield_run_bind_reads = bitfield_run_bind [where Q = reads]
lemmas bitfield_run_bind_runs = bitfield_run_bind [where Q = runs]

lemma bitfield_get_reads:
  assumes ok: "srv_ok s" and parse: "bitfield_parse s (drop 2 (c_argv (sv_client s c))) BFOVERFLOW_WRAP [] = Inr ops"
    and ro: "\<not> list_ex bf_writes ops"
  shows "reads s (bitfieldGeneric b c s)"
proof -
  have "\<forall>b \<in> set ops. bf_ok p b" for p
    using ro bitfield_parse_parsed [OF parse] by (auto simp: bf_ok_def bf_parsed_def list_ex_iff)
  then show ?thesis
    using ok parse ro
    by (auto simp: bitfieldGeneric_def exec_simps Let_def checkType_string_def intro!: tracked_intro bitfield_run_bind_reads
        split: string_splits)
qed

lemma bitfieldro_reads: "srv_ok s \<Longrightarrow> reads s (bitfieldroCommand c s)"
proof (cases "bitfield_parse s (drop 2 (c_argv (sv_client s c))) BFOVERFLOW_WRAP []")
  case (Inr ops)
  assume ok: "srv_ok s"
  then show ?thesis using Inr bitfield_get_reads [OF ok Inr]
    by (cases "list_ex bf_writes ops") (auto simp: bitfieldroCommand_def bitfieldGeneric_def Let_def intro!: tracked_intro)
qed (simp add: bitfieldroCommand_def bitfieldGeneric_def tracked_intro Let_def)

lemma bitfield_runs: "srv_ok s \<Longrightarrow> runs s (bitfieldCommand c s)"
proof (cases "bitfield_parse s (drop 2 (c_argv (sv_client s c))) BFOVERFLOW_WRAP []")
  case (Inr ops)
  assume ok: "srv_ok s"
  let ?d = "c_db (sv_client s c)" and ?k = "arg s c (Suc 0)"
  show ?thesis
  proof (cases "list_ex bf_writes ops")
    case False
    then show ?thesis using bitfield_get_reads [OF ok Inr] by (simp add: bitfieldCommand_def reads_runs)
  next
    case True
    note parsed = bitfield_parse_parsed [OF Inr, simplified]
    have le: "n \<le> 8 * max (Suc (h div 8)) m" if "n - 1 \<le> h" for n h m :: nat
    proof (rule le_trans)
      show "n \<le> 8 * Suc (h div 8)" using that by presburger
    qed (simp add: max_def)
    have "bf_ok (grow p (Suc (highest_write_offset ops div 8))) b" if "b \<in> set ops" for b p
      using le [OF highest_write_offset_ge(1) [OF that]] bspec [OF parsed that]
      by (auto simp: bf_ok_def bf_parsed_def)
    moreover have "0 < int (length (filter bf_writes ops))" using True by (auto simp: list_ex_iff filter_empty_conv)
    ultimately show ?thesis
      using Inr ok True highest_write_offset_ge(2) [OF parsed]
      by (auto simp: bitfieldCommand_def bitfieldGeneric_def lookupBit_eq exec_simps Let_def intro!: tracked_intro bitfield_run_bind_runs)
  qed
qed (simp add: bitfieldCommand_def bitfieldGeneric_def tracked_intro Let_def)

subsection \<open>The fast path of BITOP\<close>






















subsection \<open>Single bits\<close>

definition bit_of :: "bytes \<Rightarrow> nat \<Rightarrow> bool" where
  "bit_of p i \<longleftrightarrow> i div 8 < length p \<and> bit (p ! (i div 8)) (7 - i mod 8)"

lemma and_power_bit: "w AND 2 ^ b = 0 \<longleftrightarrow> \<not> bit w b" for w :: byte
  by (simp add: bit_iff_and_push_bit_not_eq_0 push_bit_of_1)

lemma put_bit:
  fixes w :: byte
  assumes "b < 8" and "j < 8" and "v = 0 \<or> v = 1"
  shows "bit ((w AND NOT (push_bit b 1)) OR push_bit b (word_of_int (v AND 1))) j = (if j = b then v = 1 else bit w j)"
  using assms by (auto simp: bit_simps bit_1_iff)

lemma grow_nth: "i < length (grow p n) \<Longrightarrow> grow p n ! i = (if i < length p then p ! i else 0)"
  by (simp add: grow_def nth_append)

lemma bit_of_grow [simp]: "bit_of (grow p n) i = bit_of p i"
  by (cases "i div 8 < length p") (auto simp: bit_of_def grow_nth)

lemma bit_of_update:
  assumes "n div 8 < length p" and "v = 0 \<or> v = (1 :: int)"
  shows "bit_of (p[n div 8 := (p ! (n div 8) AND NOT (push_bit (7 - n mod 8) 1)) OR
      push_bit (7 - n mod 8) (word_of_int (v AND 1))]) i = (if i = n then v = 1 else bit_of p i)"
proof (cases "i div 8 = n div 8")
  case True
  have "(7 - a = 7 - b) = (a = b)" if "a < 8" "b < 8" for a b :: nat using that by auto
  then have "(7 - i mod 8 = 7 - n mod 8) = (i mod 8 = n mod 8)" by simp
  moreover have "(i mod 8 = n mod 8) = (i = n)" using True by (metis div_mult_mod_eq)
  ultimately show ?thesis using True assms put_bit [of "7 - n mod 8" "7 - i mod 8" v "p ! (n div 8)"] by (simp add: bit_of_def)
next
  case False
  then show ?thesis using assms by (auto simp: bit_of_def)
qed

lemma getBitOffset_cong: "sv_max_bulk s = sv_max_bulk s' \<Longrightarrow> getBitOffsetFromArgument p h n s = getBitOffsetFromArgument p h n s'"
  by (simp add: getBitOffsetFromArgument_def Let_def cong: option.case_cong)

text \<open>
  C11. On a key that is absent or holds a string, and has not expired, \<open>SETBIT\<close> at any accepted position
  replies the old bit, and afterwards \<open>GETBIT\<close> returns the new bit at this position and the old bit at every
  other position; positions behind the end of the string read as 0.
\<close>

theorem setbit_getbit:
  fixes s c
  defines "d \<equiv> c_db (sv_client s c)"
  assumes ok: "srv_ok s" and args: "c_argv (sv_client s c) = [x, k, off, val]"
    and off: "getBitOffsetFromArgument off False 0 s = Some n" and val: "getLongLongArg val = Some v" "v = 0 \<or> v = 1"
    and key: "\<not> expired d k s" "is_string (dict_of s d k)"
    and off': "getBitOffsetFromArgument off' False 0 s = Some m"
  defines "p \<equiv> text_of (dict_of s d k)"
  shows "\<exists>s1 s2. setbitCommand c s = Some s1 \<and> getbitCommand c (rewriteClientCommandVector c [y, k, off'] s1) = Some s2 \<and>
    c_reply (sv_client s1 c) = c_reply (sv_client s c) @ [RInt (of_bool (bit_of p n))] \<and>
    c_reply (sv_client s2 c) = c_reply (sv_client s1 c) @ [RInt (if m = n then v else of_bool (bit_of p m))]"
proof -
  have d: "d < length (sv_db s)" using ok by (simp add: d_def)
  define g where "g = grow p (Suc (n div 8))"
  define q where "q = g[n div 8 := (g ! (n div 8) AND NOT (push_bit (7 - n mod 8) 1)) OR push_bit (7 - n mod 8) (word_of_int (v AND 1))]"
  have len: "n div 8 < length g" by (simp add: g_def)
  define s1 where "s1 = addReply c (RInt (of_bool (bit_of p n))) (dirty_add 1 (notifyKeyspaceEvent NOTIFY_STRING ''setbit'' k d
    (signalModifiedKey d k (add_key d k (StringObj (SdsObj q)) s))))"
  have "n < 2 ^ 64" using getBitOffset_less [OF off] by simp
  from lookupBit_eq [OF ok this, of c] have lookup: "lookupStringForBitCommand c n s = Some (add_key d k (StringObj (SdsObj g)) s, Checked g)"
    using key args by (simp add: d_def [symmetric] expire_st_idle g_def p_def Let_def)
  have bit: "bit_of p n \<longleftrightarrow> g ! (n div 8) AND push_bit (7 - n mod 8) 1 \<noteq> 0"
    using len bit_of_grow [of p "Suc (n div 8)" n] by (simp add: bit_of_def g_def and_power_bit)
  have v: "v AND NOT 1 = 0" using val(2) by auto
  have 1: "setbitCommand c s = Some s1"
    using args off val lookup len d v bit
    by (simp add: setbitCommand_def d_def [symmetric] exec_simps put_at_def Let_def q_def s1_def)
  have "tracked s {} False s1" using ok unfolding s1_def by (auto intro!: tracked_intro)
  then have ok1: "srv_ok s1" by (rule tracked_ok)
  let ?t = "rewriteClientCommandVector c [y, k, off'] s1"
  have "\<not> expired d k ?t" using key(1) d by (simp add: expired_def s1_def cong: option.case_cong)
  moreover have "dict_of ?t d k = Some (StringObj (SdsObj q))" using d by (simp add: s1_def)
  moreover have "getBitOffsetFromArgument off' False 0 ?t = Some m"
    using off' getBitOffset_cong [of ?t s off' False 0] by (simp add: s1_def)
  ultimately have "\<exists>s2. getbitCommand c ?t = Some s2 \<and>
      c_reply (sv_client s2 c) = c_reply (sv_client s1 c) @ [RInt (of_bool (bit_of q m))]"
    using ok1 by (simp add: getbitCommand_def exec_simps read_idle checkType_string_def d_def s1_def bit_of_def and_power_bit Let_def)
  moreover have "bit_of q m = (if m = n then v = 1 else bit_of p m)"
    using bit_of_update [OF len val(2), of m] by (simp add: q_def) (simp add: g_def)
  ultimately show ?thesis using 1 val(2) by (auto simp: s1_def)
qed

theorem setbit_getbit_witness:
  "\<exists>s1 s2. setbitCommand 0 (sample_server [asc ''SETBIT'', asc ''k'', asc ''9'', asc ''1''] [] []) = Some s1 \<and>
    getbitCommand 0 (rewriteClientCommandVector 0 [asc ''GETBIT'', asc ''k'', asc ''9''] s1) = Some s2 \<and>
    c_reply (sv_client s2 0) = c_reply (sv_client s1 0) @ [RInt 1]"
proof -
  let ?s = "sample_server [asc ''SETBIT'', asc ''k'', asc ''9'', asc ''1''] [] []"
  have ok: "srv_ok ?s" by (rule sample_server_ok) simp_all
  have "getBitOffsetFromArgument (asc ''9'') False 0 ?s = Some 9" by code_simp
  moreover have "getLongLongArg (asc ''1'') = Some 1" by code_simp
  ultimately show ?thesis
    using setbit_getbit [OF ok, of 0 "asc ''SETBIT''" "asc ''k''" "asc ''9''" "asc ''1''" 9 1 "asc ''9''" 9 "asc ''GETBIT''"]
    by (auto simp: expired_def is_string_def)
qed

subsection \<open>The INCRBY operation\<close>

lemma bits_of_word: "length bs \<le> 64 \<Longrightarrow> \<exists>v :: u64. bs = map (bit v) (rev [0..<length bs])"
proof (induction bs)
  case (Cons b bs)
  then obtain v :: u64 where v: "bs = map (bit v) (rev [0..<length bs])" by auto
  define w where "w = (if b then set_bit (length bs) v else unset_bit (length bs) v)"
  have "bit w (length bs) = b" using Cons.prems by (auto simp: w_def bit_set_bit_iff bit_unset_bit_iff)
  moreover have "map (bit w) (rev [0..<length bs]) = map (bit v) (rev [0..<length bs])"
    by (auto simp: w_def bit_set_bit_iff bit_unset_bit_iff)
  ultimately have "b # bs = map (bit w) (rev [0..<length (b # bs)])" using v by simp
  then show ?case by (rule exI)
qed simp

text \<open>The number in the field of an operation, and the value that an increment leaves in it.\<close>

definition bf_read :: "bitfieldOp \<Rightarrow> bytes \<Rightarrow> int option" where
  "bf_read b p = (if bf_sign b then getSignedBitfield p (bf_offset b) (bf_bits b)
    else map_option uint (getUnsignedBitfield p (bf_offset b) (bf_bits b)))"

definition bf_lo :: "bitfieldOp \<Rightarrow> int" where
  "bf_lo b = (if bf_sign b then - (2 ^ (bf_bits b - 1)) else 0)"

definition bf_hi :: "bitfieldOp \<Rightarrow> int" where
  "bf_hi b = bf_lo b + 2 ^ bf_bits b - 1"

definition bf_store :: "bitfieldOp \<Rightarrow> int \<Rightarrow> int option" where
  "bf_store b v =
    (if bf_lo b \<le> v \<and> v \<le> bf_hi b then Some v
     else case bf_owtype b of
       BFOVERFLOW_WRAP \<Rightarrow> Some (bf_lo b + (v - bf_lo b) mod 2 ^ bf_bits b)
     | BFOVERFLOW_SAT \<Rightarrow> Some (if v > bf_hi b then bf_hi b else bf_lo b)
     | BFOVERFLOW_FAIL \<Rightarrow> None)"

lemma bf_lo_hi: 
  assumes "0 < bf_bits b"
  shows "bf_lo b \<le> bf_hi b"
    and "bf_sign b \<Longrightarrow> bf_hi b = 2 ^ (bf_bits b - 1) - 1"
    and "bf_sign b \<Longrightarrow> bf_lo b + (v - bf_lo b) mod 2 ^ bf_bits b = signed_take_bit (bf_bits b - 1) v"
proof -
  obtain n where n: "bf_bits b = Suc n" using assms by (cases "bf_bits b") auto
  have "(1 :: int) \<le> 2 ^ bf_bits b" by simp
  then show "bf_lo b \<le> bf_hi b" unfolding bf_hi_def by linarith
  show "bf_sign b \<Longrightarrow> bf_hi b = 2 ^ (bf_bits b - 1) - 1" by (simp add: bf_hi_def bf_lo_def n)
  show "bf_sign b \<Longrightarrow> bf_lo b + (v - bf_lo b) mod 2 ^ bf_bits b = signed_take_bit (bf_bits b - 1) v"
    by (simp add: bf_lo_def n signed_take_bit_eq_take_bit_shift take_bit_eq_mod)
qed

lemma bf_store_range: "0 < bf_bits b \<Longrightarrow> bf_store b x = Some v \<Longrightarrow> bf_lo b \<le> v \<and> v \<le> bf_hi b"
  using bf_lo_hi(1) [of b] pos_mod_bound [of "2 ^ bf_bits b" "x - bf_lo b"]
  by (auto simp: bf_store_def bf_hi_def split: if_splits bfoverflow.splits)

lemma bf_read_range:
  assumes "0 < bf_bits b" "bf_bits b \<le> 64" "bf_offset b + bf_bits b \<le> 8 * length p"
  shows "\<exists>v. bf_read b p = Some v \<and> bf_lo b \<le> v \<and> v \<le> bf_hi b"
proof -
  let ?bs = "take (bf_bits b) (drop (bf_offset b) (bitmap p))"
  have "length ?bs = bf_bits b" using assms(3) by simp
  then obtain v :: u64 where "?bs = map (bit v) (rev [0..<bf_bits b])" using bits_of_word [of ?bs] assms(2) by metis
  then have get: "getUnsignedBitfield p (bf_offset b) (bf_bits b) = Some (take_bit (bf_bits b) v)"
    by (rule getUnsignedBitfield_spec [OF assms(3)])
  show ?thesis
  proof (cases "bf_sign b")
    case True
    have "getSignedBitfield p (bf_offset b) (bf_bits b) = Some (signed_take_bit (bf_bits b - 1) (uint v))"
      using get sign_extend [OF assms(1,2), of "uint v"] by (simp add: getSignedBitfield_def Let_def)
    then show ?thesis
      using True bf_lo_hi(2) [OF assms(1) True] signed_take_bit_int_less_exp [of "bf_bits b - 1" "uint v"]
        signed_take_bit_int_greater_eq_minus_exp [of "bf_bits b - 1" "uint v"]
      by (simp add: bf_read_def bf_lo_def)
  next
    case False
    have "uint (take_bit (bf_bits b) v) < 2 ^ bf_bits b" by (simp add: unsigned_take_bit_eq)
    then show ?thesis using False get by (simp add: bf_read_def bf_lo_def bf_hi_def)
  qed
qed

text \<open>Writing a value that fits puts this value in the field and changes no other bit.\<close>

definition bf_written :: "bitfieldOp \<Rightarrow> bytes \<Rightarrow> int \<Rightarrow> bytes \<Rightarrow> bool" where
  "bf_written b p v p' \<longleftrightarrow> length p' = length p \<and> bf_read b p' = Some v \<and>
    (\<forall>i < 8 * length p. i < bf_offset b \<or> bf_offset b + bf_bits b \<le> i \<longrightarrow> bitmap p' ! i = bitmap p ! i)"

lemma bf_write:
  assumes "0 < bf_bits b" "bf_bits b \<le> 64" "bf_offset b + bf_bits b \<le> 8 * length p"
    and "bf_lo b \<le> v" "v \<le> bf_hi b"
  shows "\<exists>p'. setSignedBitfield p (bf_offset b) (bf_bits b) v = Some p' \<and> bf_written b p v p'"
proof -
  have "bf_read b p' = Some v" if "getUnsignedBitfield p' (bf_offset b) (bf_bits b) = Some (take_bit (bf_bits b) (word_of_int v))"
    "getSignedBitfield p' (bf_offset b) (bf_bits b) = Some (signed_take_bit (bf_bits b - 1) v)" for p'
  proof (cases "bf_sign b")
    case True
    have "(v - bf_lo b) mod 2 ^ bf_bits b = v - bf_lo b" using assms(4,5) by (simp add: bf_hi_def)
    then show ?thesis using that(2) True bf_lo_hi(3) [OF assms(1) True, of v] by (simp add: bf_read_def)
  next
    case False
    then have "v mod 2 ^ bf_bits b = v" using assms(4,5) by (simp add: bf_hi_def bf_lo_def)
    then show ?thesis using that(1) False by (simp add: bf_read_def uint_take_bit_word_of_int assms(2))
  qed
  with bitfield_set_get [OF assms(3,1,2), of v] show ?thesis unfolding bf_written_def by blast
qed

text \<open>The two branches of the source agree with the reference.\<close>

lemma bf_limit_store:
  assumes "0 < bf_bits b" "snd ov = snd l" "(fst ov \<noteq> 0) = (fst l \<noteq> 0)"
    and "l = bf_limit (bf_lo b) (bf_hi b) (bf_lo b + (x - bf_lo b) mod 2 ^ bf_bits b) (bf_owtype b) x"
    and "bf_lo b \<le> x \<and> x \<le> bf_hi b \<Longrightarrow> y = x"
  shows "(fst ov \<noteq> 0 \<and> bf_owtype b = BFOVERFLOW_FAIL) = (bf_store b x = None)"
    and "bf_store b x = Some v \<Longrightarrow> (if fst ov \<noteq> 0 then case snd ov of Some w \<Rightarrow> w | None \<Rightarrow> y else y) = v"
  using assms(2,3,5) bf_lo_hi(1) [OF assms(1)] unfolding assms(4)
  by (cases "bf_owtype b"; auto simp: bf_limit_def bf_store_def split: if_splits)+

lemma bitfield_incr_signed:
  assumes "bf_opcode b = BITFIELDOP_INCRBY" "bf_sign b" "0 < bf_bits b" "bf_bits b \<le> 64" "int64_range (bf_i64 b)"
    and get: "bf_read b p = Some old" "bf_lo b \<le> old" "old \<le> bf_hi b"
  shows "bitfield_set_signed b p = (case bf_store b (old + bf_i64 b) of
      None \<Rightarrow> Some (p, RNull)
    | Some v \<Rightarrow> map_option (\<lambda>p'. (p', RInt v)) (setSignedBitfield p (bf_offset b) (bf_bits b) v))"
proof -
  have pow: "(2 :: int) ^ (bf_bits b - 1) \<le> 2 ^ 63" using assms(4) by (intro power_increasing) auto
  have hi: "bf_hi b = 2 ^ (bf_bits b - 1) - 1" "bf_lo b = - (2 ^ (bf_bits b - 1))"
    using bf_lo_hi(2) assms by (auto simp: bf_lo_def)
  have rng: "int64_range old" using get pow unfolding hi int64_range_def by linarith
  let ?ov = "checkSignedBitfieldOverflow old (bf_i64 b) (bf_bits b) (bf_owtype b)"
  have ov: "?ov = bf_limit (bf_lo b) (bf_hi b) (bf_lo b + (old + bf_i64 b - bf_lo b) mod 2 ^ bf_bits b) (bf_owtype b) (old + bf_i64 b)"
    unfolding bf_lo_hi(3) [OF assms(3,2)] unfolding hi
    using checkSigned_eq [OF assms(3,4) rng assms(5)] get unfolding hi by simp
  have fit: "bf_lo b \<le> old + bf_i64 b \<and> old + bf_i64 b \<le> bf_hi b \<Longrightarrow> wrap64 (old + bf_i64 b) = old + bf_i64 b"
    using pow unfolding hi by (intro wrap64_id) (auto simp: int64_range_def)
  note st = bf_limit_store [OF assms(3) refl refl ov fit]
  define new where "new = (if fst ?ov \<noteq> 0 then case snd ?ov of Some w \<Rightarrow> w | None \<Rightarrow> wrap64 (old + bf_i64 b) else wrap64 (old + bf_i64 b))"
  have "getSignedBitfield p (bf_offset b) (bf_bits b) = Some old" using get assms(2) by (simp add: bf_read_def)
  then have "bitfield_set_signed b p = (if fst ?ov \<noteq> 0 \<and> bf_owtype b = BFOVERFLOW_FAIL then Some (p, RNull)
      else setSignedBitfield p (bf_offset b) (bf_bits b) new \<bind> (\<lambda>p'. Some (p', RInt new)))"
    using assms(1) by (auto simp: bitfield_set_signed_def Let_def case_prod_unfold new_def [symmetric])
  then show ?thesis
    using st unfolding new_def [symmetric] by (auto simp: map_option_case bind_eq_Some_conv split: option.split)
qed

lemma bitfield_incr_unsigned:
  assumes "bf_opcode b = BITFIELDOP_INCRBY" "\<not> bf_sign b" "0 < bf_bits b" "bf_bits b < 64" "int64_range (bf_i64 b)"
    and get: "bf_read b p = Some old" "old \<le> bf_hi b"
  shows "bitfield_set_unsigned b p = (case bf_store b (old + bf_i64 b) of
      None \<Rightarrow> Some (p, RNull)
    | Some v \<Rightarrow> map_option (\<lambda>p'. (p', RInt v)) (setSignedBitfield p (bf_offset b) (bf_bits b) v))"
proof -
  have pow: "(2 :: int) ^ bf_bits b \<le> 2 ^ 63" using assms(4) by (intro power_increasing) auto
  have hi: "bf_hi b = 2 ^ bf_bits b - 1" "bf_lo b = 0" using assms(2) by (simp_all add: bf_hi_def bf_lo_def)
  obtain u where u: "getUnsignedBitfield p (bf_offset b) (bf_bits b) = Some u" "old = uint u"
    using get assms(2) by (auto simp: bf_read_def)
  let ?ov = "checkUnsignedBitfieldOverflow u (bf_i64 b) (bf_bits b) (bf_owtype b)"
  let ?y = "u + word_of_int (bf_i64 b)"
  have ov: "map_prod id (map_option uint) ?ov =
      bf_limit (bf_lo b) (bf_hi b) (bf_lo b + (old + bf_i64 b - bf_lo b) mod 2 ^ bf_bits b) (bf_owtype b) (old + bf_i64 b)"
    using checkUnsigned_eq [OF assms(3,4,5)] get(2) unfolding hi u(2) by simp
  have wy: "?y = word_of_int (uint u + bf_i64 b)" by simp
  have fit: "bf_lo b \<le> old + bf_i64 b \<and> old + bf_i64 b \<le> bf_hi b \<Longrightarrow> uint ?y = old + bf_i64 b"
    using pow unfolding hi u(2) wy uint_word_of_int by simp
  note st = bf_limit_store [OF assms(3) refl refl ov fit]
  define new where "new = (if fst ?ov \<noteq> 0 then case snd ?ov of Some w \<Rightarrow> w | None \<Rightarrow> ?y else ?y)"
  have new: "uint new = (if fst (map_prod id (map_option uint) ?ov) \<noteq> 0
      then case snd (map_prod id (map_option uint) ?ov) of Some w \<Rightarrow> w | None \<Rightarrow> uint ?y else uint ?y)"
    by (simp add: new_def split: option.split)
  have fst: "fst (map_prod id (map_option uint) ?ov) = fst ?ov" by simp
  have "bitfield_set_unsigned b p = (if fst ?ov \<noteq> 0 \<and> bf_owtype b = BFOVERFLOW_FAIL then Some (p, RNull)
      else setSignedBitfield p (bf_offset b) (bf_bits b) (uint new) \<bind> (\<lambda>p'. Some (p', RInt (sint new))))"
    using assms(1) u(1)
    by (auto simp: bitfield_set_unsigned_def setSignedBitfield_def Let_def case_prod_unfold new_def [symmetric])
  moreover have "sint new = uint new" if "bf_store b (old + bf_i64 b) = Some (uint new)"
  proof -
    have "uint new < 2 ^ 63" using bf_store_range [OF assms(3) that] pow unfolding hi by linarith
    moreover have "- (2 ^ 63) \<le> uint new" using uint_ge_0 [of new] by (rule order_trans [rotated]) simp
    ultimately show ?thesis unfolding sint_uint by (simp add: signed_take_bit_int_eq_self)
  qed
  ultimately show ?thesis
    using st [folded new, unfolded fst] by (cases "bf_store b (old + bf_i64 b)") (auto simp: map_option_case split: option.split)
qed

text \<open>
  C13. \<open>INCRBY\<close> of \<open>BITFIELD\<close> is exact at every width, signed and unsigned. When the sum of the old number
  and the increment fits in the field, it is stored and replied. Otherwise the wrapping mode takes
  the number of the field with the same residue, the saturating mode the bound that was passed, and the
  failing mode replies null and leaves the string as it is. No bit outside of the field changes. The field
  lies inside of the string, as after \<open>lookupStringForBitCommand\<close>, and has a width that the parser accepts.
\<close>

theorem bitfield_incrby_exact:
  assumes "bf_opcode b = BITFIELDOP_INCRBY" "int64_range (bf_i64 b)"
    and bits: "0 < bf_bits b" "bf_bits b \<le> (if bf_sign b then 64 else 63)" "bf_offset b + bf_bits b \<le> 8 * length p"
  shows "\<exists>old. bf_read b p = Some old \<and> bf_lo b \<le> old \<and> old \<le> bf_hi b \<and>
    (case bf_store b (old + bf_i64 b) of
       None \<Rightarrow> bitfield_run c (b # ops) p s n = bitfield_run c ops p (addReply c RNull s) (n + 1)
     | Some v \<Rightarrow> \<exists>p'. bf_written b p v p' \<and>
         bitfield_run c (b # ops) p s n = bitfield_run c ops p' (addReply c (RInt v) s) (n + 1))"
proof -
  have le: "bf_bits b \<le> 64" using bits(2) by (auto split: if_splits)
  from bf_read_range [OF bits(1) le bits(3)] obtain old where
    old: "bf_read b p = Some old" "bf_lo b \<le> old" "old \<le> bf_hi b" by blast
  have set: "(if bf_sign b then bitfield_set_signed b p else bitfield_set_unsigned b p) =
      (case bf_store b (old + bf_i64 b) of
         None \<Rightarrow> Some (p, RNull)
       | Some v \<Rightarrow> map_option (\<lambda>p'. (p', RInt v)) (setSignedBitfield p (bf_offset b) (bf_bits b) v))"
    using bitfield_incr_signed [OF assms(1) _ bits(1) le assms(2) old]
      bitfield_incr_unsigned [OF assms(1) _ bits(1) _ assms(2) old(1,3)] bits(2) by (cases "bf_sign b") auto
  show ?thesis
  proof (cases "bf_store b (old + bf_i64 b)")
    case None
    then show ?thesis using old set assms(1) by (intro exI [of _ old]) simp
  next
    case (Some v)
    from bf_write [OF bits(1) le bits(3)] bf_store_range [OF bits(1) Some] obtain p' where
      "setSignedBitfield p (bf_offset b) (bf_bits b) v = Some p'" "bf_written b p v p'" by blast
    then show ?thesis using old set assms(1) Some by (intro exI [of _ old]) auto
  qed
qed

theorem bitfield_incrby_exact_witness:
  "\<exists>p'. bitfield_run 0 [\<lparr>bf_offset = 4, bf_i64 = 10, bf_opcode = BITFIELDOP_INCRBY, bf_owtype = BFOVERFLOW_SAT,
      bf_bits = 8, bf_sign = True\<rparr>] [7, 128] (sample_server [] [] []) 0 =
      Some (addReply 0 (RInt 127) (sample_server [] [] []), p', 1)"
proof -
  let ?b = "\<lparr>bf_offset = 4, bf_i64 = 10, bf_opcode = BITFIELDOP_INCRBY, bf_owtype = BFOVERFLOW_SAT,
      bf_bits = 8, bf_sign = True\<rparr>"
  have "bf_read ?b [7, 128] = Some 120" by code_simp
  moreover have "bf_store ?b 130 = Some 127" by code_simp
  ultimately show ?thesis
    using bitfield_incrby_exact [of ?b "[7, 128]" 0 "[]" "sample_server [] [] []" 0] by (auto simp: int64_range_def)
qed

end
