(* ===== verification/Multi.thy ===== *)
theory Multi
  imports Expire Bit_Commands
begin

section \<open>Transactions and the command table (\<open>multi.c\<close>, \<open>server.c\<close>)\<close>

text \<open>
  \<open>MULTI\<close>, \<open>EXEC\<close>, \<open>DISCARD\<close>, \<open>WATCH\<close> and \<open>UNWATCH\<close> of \<open>redis/redis-6.2.7/src/multi.c\<close>, the entries of
  the command table (\<open>server.c\<close>) for the commands that are modelled, and \<open>processCommand\<close>. A command
  in the queue of a transaction is the name of its table entry and its arguments.

  The parameters of the environment: the copy callbacks of modules, the address of a string, the
  access control list (the reason to deny a command, if any) and the other checks of \<open>processCommand\<close>
  (authentication, cluster redirection, memory limit, disk errors, replicas, loading, scripts) with the
  error that they reject a command with.
\<close>

record environment =
  env_mt_copy :: module_copy
  env_addr :: nat
  env_acl :: "nat \<Rightarrow> string \<Rightarrow> bytes list \<Rightarrow> string option"
  env_reject :: "nat \<Rightarrow> string \<Rightarrow> server \<Rightarrow> string option"

subsection \<open>Watched keys\<close>

definition watchForKey :: "nat \<Rightarrow> bytes \<Rightarrow> server \<Rightarrow> server" where
  "watchForKey c key s =
    (let d = c_db (sv_client s c) in
     if (d, key) \<in> set (c_watched (sv_client s c)) then s
     else
       (let clients = (case watchers_of s d key of None \<Rightarrow> [] | Some cs \<Rightarrow> cs);
            s = upd_db d (\<lambda>db. db\<lparr>db_watched_keys := fmupd key (clients @ [c]) (db_watched_keys db)\<rparr>) s
        in upd_client c (\<lambda>cl. cl\<lparr>c_watched := c_watched cl @ [(d, key)]\<rparr>) s))"

definition unwatchKey :: "nat \<Rightarrow> nat \<times> bytes \<Rightarrow> server \<Rightarrow> server option" where
  "unwatchKey c wk s =
    (case watchers_of s (fst wk) (snd wk) of
       None \<Rightarrow> None
     | Some clients \<Rightarrow>
         if c \<notin> set clients then None
         else do {
           let clients = remove1 c clients;
           let s = upd_db (fst wk) (\<lambda>db. db\<lparr>db_watched_keys :=
             (if clients = [] then fmdrop (snd wk) (db_watched_keys db)
              else fmupd (snd wk) clients (db_watched_keys db))\<rparr>) s;
           Some (upd_client c (\<lambda>cl. cl\<lparr>c_watched := remove1 wk (c_watched cl)\<rparr>) s) })"

fun unwatch_loop :: "nat \<Rightarrow> (nat \<times> bytes) list \<Rightarrow> server \<Rightarrow> server option" where
  "unwatch_loop c [] s = Some s"
| "unwatch_loop c (wk # wks) s = do { s \<leftarrow> unwatchKey c wk s; unwatch_loop c wks s }"

definition unwatchAllKeys :: "nat \<Rightarrow> server \<Rightarrow> server option" where
  "unwatchAllKeys c s = unwatch_loop c (c_watched (sv_client s c)) s"

fun isWatchedKeyExpired_loop :: "(nat \<times> bytes) list \<Rightarrow> server \<Rightarrow> bool option" where
  "isWatchedKeyExpired_loop [] s = Some False"
| "isWatchedKeyExpired_loop (wk # wks) s = do {
     e \<leftarrow> keyIsExpired (fst wk) (snd wk) s;
     if e then Some True else isWatchedKeyExpired_loop wks s }"

definition isWatchedKeyExpired :: "nat \<Rightarrow> server \<Rightarrow> bool option" where
  "isWatchedKeyExpired c s = isWatchedKeyExpired_loop (c_watched (sv_client s c)) s"

definition watchCommand :: "nat \<Rightarrow> server \<Rightarrow> server option" where
  "watchCommand c s =
    (if c_multi (sv_client s c) then Some (addReplyError c ''WATCH inside MULTI is not allowed'' s)
     else Some (addReply c ROk (fold (watchForKey c) (tl (c_argv (sv_client s c))) s)))"

definition unwatchCommand :: "nat \<Rightarrow> server \<Rightarrow> server option" where
  "unwatchCommand c s = do {
     s \<leftarrow> unwatchAllKeys c s;
     let s = upd_client c (\<lambda>cl. cl\<lparr>c_dirty_cas := False\<rparr>) s;
     Some (addReply c ROk s) }"

subsection \<open>The queue of a transaction\<close>

definition queueMultiCommand :: "nat \<Rightarrow> server \<Rightarrow> server" where
  "queueMultiCommand c s =
    (if c_dirty_exec (sv_client s c) then s
     else upd_client c (\<lambda>cl. cl\<lparr>c_commands := c_commands cl @ [(c_cmd cl, c_argv cl)]\<rparr>) s)"

definition discardTransaction :: "nat \<Rightarrow> server \<Rightarrow> server option" where
  "discardTransaction c s = do {
     let s = upd_client c (\<lambda>cl. cl\<lparr>c_commands := []\<rparr>) s;
     let s = upd_client c (\<lambda>cl. cl\<lparr>c_multi := False, c_dirty_cas := False, c_dirty_exec := False\<rparr>) s;
     unwatchAllKeys c s }"

definition flagTransaction :: "nat \<Rightarrow> server \<Rightarrow> server" where
  "flagTransaction c s =
    (if c_multi (sv_client s c) then upd_client c (\<lambda>cl. cl\<lparr>c_dirty_exec := True\<rparr>) s else s)"

definition multiCommand :: "nat \<Rightarrow> server \<Rightarrow> server option" where
  "multiCommand c s =
    (if c_multi (sv_client s c) then Some (addReplyError c ''MULTI calls can not be nested'' s)
     else Some (addReply c ROk (upd_client c (\<lambda>cl. cl\<lparr>c_multi := True\<rparr>) s)))"

definition discardCommand :: "nat \<Rightarrow> server \<Rightarrow> server option" where
  "discardCommand c s =
    (if \<not> c_multi (sv_client s c) then Some (addReplyError c ''DISCARD without MULTI'' s)
     else do { s \<leftarrow> discardTransaction c s; Some (addReply c ROk s) })"

subsection \<open>The command table\<close>

datatype cmd_flag = CMD_WRITE | CMD_READONLY | CMD_NO_FLAG

definition redisCommandTable :: "(string \<times> int \<times> cmd_flag) list" where
  "redisCommandTable =
    [(''get'', 2, CMD_READONLY), (''getex'', - 2, CMD_WRITE), (''getdel'', 2, CMD_WRITE),
     (''set'', - 3, CMD_WRITE), (''setnx'', 3, CMD_WRITE), (''setex'', 4, CMD_WRITE), (''psetex'', 4, CMD_WRITE),
     (''append'', 3, CMD_WRITE), (''strlen'', 2, CMD_READONLY), (''del'', - 2, CMD_WRITE),
     (''unlink'', - 2, CMD_WRITE), (''exists'', - 2, CMD_READONLY), (''setbit'', 4, CMD_WRITE),
     (''getbit'', 3, CMD_READONLY), (''bitfield'', - 2, CMD_WRITE), (''bitfield_ro'', - 2, CMD_READONLY),
     (''setrange'', 4, CMD_WRITE), (''getrange'', 4, CMD_READONLY), (''substr'', 4, CMD_READONLY),
     (''incr'', 2, CMD_WRITE), (''decr'', 2, CMD_WRITE), (''mget'', - 2, CMD_READONLY),
     (''incrby'', 3, CMD_WRITE), (''decrby'', 3, CMD_WRITE), (''getset'', 3, CMD_WRITE),
     (''mset'', - 3, CMD_WRITE), (''msetnx'', - 3, CMD_WRITE), (''select'', 2, CMD_NO_FLAG),
     (''swapdb'', 3, CMD_WRITE), (''move'', 3, CMD_WRITE), (''copy'', - 3, CMD_WRITE),
     (''rename'', 3, CMD_WRITE), (''renamenx'', 3, CMD_WRITE), (''expire'', 3, CMD_WRITE),
     (''expireat'', 3, CMD_WRITE), (''pexpire'', 3, CMD_WRITE), (''pexpireat'', 3, CMD_WRITE),
     (''dbsize'', 1, CMD_READONLY), (''type'', 2, CMD_READONLY), (''multi'', 1, CMD_NO_FLAG),
     (''exec'', 1, CMD_NO_FLAG), (''discard'', 1, CMD_NO_FLAG), (''flushdb'', - 1, CMD_WRITE),
     (''flushall'', - 1, CMD_WRITE), (''ttl'', 2, CMD_READONLY), (''touch'', - 2, CMD_READONLY),
     (''pttl'', 2, CMD_READONLY), (''persist'', 2, CMD_WRITE), (''watch'', - 2, CMD_NO_FLAG),
     (''unwatch'', 1, CMD_NO_FLAG), (''bitop'', - 4, CMD_WRITE), (''bitcount'', - 2, CMD_READONLY),
     (''bitpos'', - 3, CMD_READONLY)]"

text \<open>The entry of a command; the name has no zero byte.\<close>

definition lookupCommand :: "bytes \<Rightarrow> (string \<times> int \<times> cmd_flag) option" where
  "lookupCommand name = find (\<lambda>e. ci_eq name (fst e)) redisCommandTable"

definition cmd_flag_of :: "string \<Rightarrow> cmd_flag" where
  "cmd_flag_of name = (case map_of redisCommandTable name of Some (_, f) \<Rightarrow> f | None \<Rightarrow> CMD_NO_FLAG)"

text \<open>The procedures of the table, apart from those of \<open>EXEC\<close>, \<open>MULTI\<close>, \<open>DISCARD\<close> and \<open>WATCH\<close>.\<close>

definition data_procs :: "environment \<Rightarrow> (string \<times> (nat \<Rightarrow> server \<Rightarrow> server option)) list" where
  "data_procs env =
    [(''get'', getCommand), (''getex'', getexCommand), (''getdel'', getdelCommand), (''set'', setCommand),
     (''setnx'', setnxCommand), (''setex'', setexCommand), (''psetex'', psetexCommand),
     (''append'', appendCommand), (''strlen'', strlenCommand), (''del'', delGenericCommand),
     (''unlink'', delGenericCommand), (''exists'', existsCommand), (''setbit'', setbitCommand),
     (''getbit'', getbitCommand), (''bitfield'', bitfieldCommand), (''bitfield_ro'', bitfieldroCommand),
     (''setrange'', setrangeCommand), (''getrange'', getrangeCommand), (''substr'', getrangeCommand),
     (''incr'', incrCommand), (''decr'', decrCommand), (''mget'', mgetCommand), (''incrby'', incrbyCommand),
     (''decrby'', decrbyCommand), (''getset'', getsetCommand), (''mset'', msetGenericCommand False),
     (''msetnx'', msetGenericCommand True), (''select'', selectCommand), (''swapdb'', swapdbCommand),
     (''move'', moveCommand), (''copy'', copyCommand (env_mt_copy env)), (''rename'', renameGenericCommand False),
     (''renamenx'', renameGenericCommand True), (''expire'', expireCommand), (''expireat'', expireatCommand),
     (''pexpire'', pexpireCommand), (''pexpireat'', pexpireatCommand), (''dbsize'', dbsizeCommand),
     (''type'', typeCommand), (''flushdb'', flushdbCommand), (''flushall'', flushallCommand),
     (''ttl'', ttlCommand), (''touch'', touchCommand), (''pttl'', pttlCommand), (''persist'', persistCommand),
     (''unwatch'', unwatchCommand), (''bitop'', bitopCommand), (''bitcount'', bitcountCommand (env_addr env)),
     (''bitpos'', bitposCommand (env_addr env))]"

definition data_proc :: "environment \<Rightarrow> string \<Rightarrow> nat \<Rightarrow> server \<Rightarrow> server option" where
  "data_proc env name = (case map_of (data_procs env) name of Some pr \<Rightarrow> pr | None \<Rightarrow> (\<lambda>c s. None))"

text \<open>\<open>c->cmd\<close>, \<open>c->argv\<close> of the client whose request is processed.\<close>

definition set_cmd :: "nat \<Rightarrow> string \<Rightarrow> bytes list \<Rightarrow> server \<Rightarrow> server" where
  "set_cmd c name argv s =
    (upd_client c (\<lambda>cl. cl\<lparr>c_cmd := name, c_argv := argv\<rparr>) s)
      \<lparr>sv_readonly_cmd := (\<not> c_master (sv_client s c) \<and> cmd_flag_of name = CMD_READONLY)\<rparr>"

subsection \<open>EXEC\<close>

text \<open>
  Left out: the flag that denies blocking (none of the modelled commands blocks), the feed of the monitors
  after an aborted \<open>EXEC\<close>, and the \<open>EXEC\<close> that ends the backlog when the transaction turned the master into
  a replica (\<open>REPLICAOF\<close> is not among the modelled commands).
\<close>

fun exec_loop :: "environment \<Rightarrow> nat \<Rightarrow> (string \<times> bytes list) list \<Rightarrow> server \<Rightarrow> server option" where
  "exec_loop env c [] s = Some s"
| "exec_loop env c ((name, argv) # cmds) s = do {
     let s = set_cmd c name argv s;
     s \<leftarrow> (case env_acl env c name argv of
            Some reason \<Rightarrow> Some (addReplyError c (
              ''-NOPERM ACLs rules changed between the moment the transaction was accumulated and the EXEC call. '' @
              ''This command is no longer allowed for the following reason: '' @ reason) s)
          | None \<Rightarrow> call (data_proc env name) (if sv_loading s then CMD_CALL_NONE else CMD_CALL_FULL) c s);
     exec_loop env c cmds s }"

definition execCommand :: "environment \<Rightarrow> nat \<Rightarrow> server \<Rightarrow> server option" where
  "execCommand env c s =
    (if \<not> c_multi (sv_client s c) then Some (addReplyError c ''EXEC without MULTI'' s)
     else do {
       expired \<leftarrow> isWatchedKeyExpired c s;
       let s = (if expired then upd_client c (\<lambda>cl. cl\<lparr>c_dirty_cas := True\<rparr>) s else s);
       if c_dirty_cas (sv_client s c) \<or> c_dirty_exec (sv_client s c) then
         discardTransaction c
           (addReply c (if c_dirty_exec (sv_client s c)
                        then RError ''EXECABORT Transaction discarded because of previous errors.'' else RNullArray) s)
       else do {
         s \<leftarrow> unwatchAllKeys c s;
         let s = s\<lparr>sv_in_exec := True\<rparr>;
         let orig_argv = c_argv (sv_client s c);
         let orig_cmd = c_cmd (sv_client s c);
         let s = addReply c (RArrayLen (length (c_commands (sv_client s c)))) s;
         s \<leftarrow> exec_loop env c (c_commands (sv_client s c)) s;
         let s = set_cmd c orig_cmd orig_argv s;
         s \<leftarrow> discardTransaction c s;
         s \<leftarrow> (if sv_propagate_in_transaction s then afterPropagateExec (dirty_add 1 s) else Some s);
         Some (s\<lparr>sv_in_exec := False\<rparr>) } })"

subsection \<open>processCommand\<close>

definition proc_of :: "environment \<Rightarrow> string \<Rightarrow> nat \<Rightarrow> server \<Rightarrow> server option" where
  "proc_of env name =
    (if name = ''exec'' then execCommand env
     else if name = ''multi'' then multiCommand
     else if name = ''discard'' then discardCommand
     else if name = ''watch'' then watchCommand
     else data_proc env name)"

definition execCommandAbort :: "nat \<Rightarrow> string \<Rightarrow> server \<Rightarrow> server option" where
  "execCommandAbort c e s = do {
     s \<leftarrow> discardTransaction c s;
     let e = (if e \<noteq> [] \<and> hd e = CHR ''-'' then tl e else e);
     Some (addReplyError c (''-EXECABORT Transaction discarded because of: '' @ e) s) }"

definition rejectCommand :: "nat \<Rightarrow> string \<Rightarrow> string \<Rightarrow> server \<Rightarrow> server option" where
  "rejectCommand c name e s =
    (let s = flagTransaction c s in
     if name = ''exec'' then execCommandAbort c e s else Some (addReplyError c e s))"

text \<open>Whether the command, or a command in the queue that \<open>EXEC\<close> runs, is a write command.\<close>

definition is_may_replicate_command :: "nat \<Rightarrow> string \<Rightarrow> server \<Rightarrow> bool" where
  "is_may_replicate_command c name s \<longleftrightarrow>
    cmd_flag_of name = CMD_WRITE \<or>
    name = ''exec'' \<and> list_ex (\<lambda>(n, argv). cmd_flag_of n = CMD_WRITE) (c_commands (sv_client s c))"

text \<open>
  The result is \<^const>\<open>None\<close> for a failed assertion; the state is unchanged for a client that is blocked
  by a pause (its request is processed again later). The arguments of the message for an unknown
  command are left out.
\<close>

definition exec_or_queue :: "environment \<Rightarrow> nat \<Rightarrow> string \<Rightarrow> server \<Rightarrow> server option" where
  "exec_or_queue env c name s =
    (if c_multi (sv_client s c) \<and> name \<notin> {''exec'', ''discard'', ''multi'', ''watch''}
     then Some (addReply c RQueued (queueMultiCommand c s))
     else call (proc_of env name) CMD_CALL_FULL c s)"

definition processCommand :: "environment \<Rightarrow> nat \<Rightarrow> bytes list \<Rightarrow> server \<Rightarrow> server option" where
  "processCommand env c argv s0 =
    (if sv_propagate_in_transaction s0 \<or> sv_in_exec s0 then None
     else
       (let s = upd_client c (\<lambda>cl. cl\<lparr>c_argv := argv\<rparr>) s0 in
        if ci_eq (hd argv) ''quit'' then Some (addReply c ROk s)
        else case lookupCommand (hd argv) of
            None \<Rightarrow> rejectCommand c '''' ''unknown command'' s
          | Some (name, arity, flag) \<Rightarrow>
              (let s = set_cmd c name argv s in
               if arity > 0 \<and> arity \<noteq> int (length argv) \<or> int (length argv) < - arity
               then rejectCommand c name (''wrong number of arguments for '' @ CHR 0x27 # name @ CHR 0x27 # '' command'') s
               else case env_reject env c name s of
                   Some e \<Rightarrow> rejectCommand c name e s
                 | None \<Rightarrow>
                     if sv_pause_type s = CLIENT_PAUSE_ALL \<or>
                        sv_pause_type s = CLIENT_PAUSE_WRITE \<and> is_may_replicate_command c name s
                     then Some s0
                     else exec_or_queue env c name s)))"

end
