(* ===== verification/Multi_Proofs.thy ===== *)
theory Multi_Proofs
  imports Multi
begin

section \<open>Requests keep the server in order\<close>

text \<open>
  The invariant of the server between two requests: the databases are well-formed, the lists of
  watched keys of the clients and of the databases agree, and every queued command can be run. The
  relation \<open>evolves\<close> says what a request does: the invariant holds again, every change of a key marks
  the clients that watch it, and every change is recorded for replication.
\<close>

subsection \<open>The table of commands\<close>

text \<open>The number of arguments fits the table entry; the positions that \<open>SETRANGE\<close> writes are representable.\<close>

definition arity_ok :: "string \<Rightarrow> bytes list \<Rightarrow> bool" where
  "arity_ok name argv \<longleftrightarrow>
    (case map_of redisCommandTable name of
       None \<Rightarrow> False
     | Some (arity, _) \<Rightarrow> \<not> (arity > 0 \<and> arity \<noteq> int (length argv) \<or> int (length argv) < - arity))"

definition no_overflow :: "string \<Rightarrow> bytes list \<Rightarrow> bool" where
  "no_overflow name argv \<longleftrightarrow>
    name = ''setrange'' \<longrightarrow>
    (case getLongLongArg (argv ! 2) of
       None \<Rightarrow> True
     | Some offset \<Rightarrow> offset + int (length (argv ! 3)) < 2 ^ 63)"

definition entry_ok :: "string \<times> (nat \<Rightarrow> server \<Rightarrow> server option) \<Rightarrow> bool" where
  "entry_ok e \<longleftrightarrow>
    fst e = ''unwatch'' \<or>
    (\<forall>c s. srv_ok s \<longrightarrow> arity_ok (fst e) (c_argv (sv_client s c)) \<longrightarrow> no_overflow (fst e) (c_argv (sv_client s c)) \<longrightarrow>
      (if cmd_flag_of (fst e) = CMD_WRITE then runs s (snd e c s) else reads s (snd e c s)))"

lemma entry_reads: "(\<And>c s. srv_ok s \<Longrightarrow> reads s (pr c s)) \<Longrightarrow> entry_ok (name, pr)"
  by (simp add: entry_ok_def reads_runs)

lemma entry_runs: "cmd_flag_of name = CMD_WRITE \<Longrightarrow> (\<And>c s. srv_ok s \<Longrightarrow> runs s (pr c s)) \<Longrightarrow> entry_ok (name, pr)"
  by (simp add: entry_ok_def)

lemma cmd_flags:
  "list_all (\<lambda>name. cmd_flag_of name = CMD_WRITE)
    [''getex'', ''getdel'', ''set'', ''setnx'', ''setex'', ''psetex'', ''append'', ''del'', ''unlink'', ''setbit'',
     ''bitfield'', ''setrange'', ''incr'', ''decr'', ''incrby'', ''decrby'', ''getset'', ''mset'', ''msetnx'', ''swapdb'',
     ''move'', ''copy'', ''rename'', ''renamenx'', ''expire'', ''expireat'', ''pexpire'', ''pexpireat'', ''flushdb'',
     ''flushall'', ''persist'', ''bitop'']"
  by code_simp

lemmas write_flags = cmd_flags [unfolded list.pred_inject, simplified]

lemma wrapper_runs:
  assumes "srv_ok s"
  shows "runs s (setCommand c s)" "runs s (setnxCommand c s)" "runs s (setexCommand c s)" "runs s (psetexCommand c s)"
    "runs s (incrCommand c s)" "runs s (decrCommand c s)" "runs s (incrbyCommand c s)" "runs s (decrbyCommand c s)"
    "runs s (expireCommand c s)" "runs s (expireatCommand c s)" "runs s (pexpireCommand c s)" "runs s (pexpireatCommand c s)"
    "reads s (ttlCommand c s)" "reads s (pttlCommand c s)"
  using assms
  by (auto simp: setCommand_def setnxCommand_def setexCommand_def psetexCommand_def incrCommand_def decrCommand_def
      incrbyCommand_def decrbyCommand_def expireCommand_def expireatCommand_def pexpireCommand_def pexpireatCommand_def
      ttlCommand_def pttlCommand_def setGeneric_runs incrDecr_runs expireGeneric_runs ttl_reads
      intro!: tracked_intro split: option.splits)

lemma arity_mset:
  "arity_ok ''mset'' argv \<Longrightarrow> 3 \<le> length argv" "arity_ok ''msetnx'' argv \<Longrightarrow> 3 \<le> length argv"
proof -
  have "map_of redisCommandTable ''mset'' = Some (- 3, CMD_WRITE)" by code_simp
  moreover have "map_of redisCommandTable ''msetnx'' = Some (- 3, CMD_WRITE)" by code_simp
  ultimately show "arity_ok ''mset'' argv \<Longrightarrow> 3 \<le> length argv" "arity_ok ''msetnx'' argv \<Longrightarrow> 3 \<le> length argv"
    by (simp_all add: arity_ok_def)
qed

lemmas command_runs = wrapper_runs
  get_reads getex_runs getdel_runs append_runs strlen_reads del_runs exists_reads setbit_runs getbit_reads bitfield_runs
  bitfieldro_reads getrange_reads mget_reads getset_runs select_reads swapdb_runs move_runs copy_runs rename_runs
  dbsize_reads type_reads flushdb_runs flushall_runs touch_reads persist_runs bitop_runs bitcount_reads bitpos_reads

lemma entry_mset: "entry_ok (''mset'', msetGenericCommand False)" "entry_ok (''msetnx'', msetGenericCommand True)"
  by (auto simp: entry_ok_def write_flags intro!: mset_runs dest: arity_mset)

lemma entry_setrange: "entry_ok (''setrange'', setrangeCommand)"
  by (auto simp: entry_ok_def write_flags no_overflow_def intro!: setrange_runs)

lemma entry_unwatch: "entry_ok (''unwatch'', pr)"
  by (simp add: entry_ok_def)

lemma entries: "list_all entry_ok (data_procs env)"
  unfolding data_procs_def
  by (simp add: entry_mset entry_setrange entry_unwatch entry_reads entry_runs write_flags command_runs)

definition cmd_ok :: "string \<Rightarrow> bytes list \<Rightarrow> bool" where
  "cmd_ok name argv \<longleftrightarrow>
    arity_ok name argv \<and> no_overflow name argv \<and> name \<notin> {''exec'', ''discard'', ''multi'', ''watch''}"

lemma data_proc_names: "map fst (data_procs env) = filter (\<lambda>n. n \<notin> {''exec'', ''discard'', ''multi'', ''watch''}) (map fst redisCommandTable)"
proof -
  have "map fst (data_procs env) =
    [''get'', ''getex'', ''getdel'', ''set'', ''setnx'', ''setex'', ''psetex'', ''append'', ''strlen'', ''del'',
     ''unlink'', ''exists'', ''setbit'', ''getbit'', ''bitfield'', ''bitfield_ro'', ''setrange'', ''getrange'', ''substr'',
     ''incr'', ''decr'', ''mget'', ''incrby'', ''decrby'', ''getset'', ''mset'', ''msetnx'', ''select'', ''swapdb'',
     ''move'', ''copy'', ''rename'', ''renamenx'', ''expire'', ''expireat'', ''pexpire'', ''pexpireat'', ''dbsize'',
     ''type'', ''flushdb'', ''flushall'', ''ttl'', ''touch'', ''pttl'', ''persist'', ''unwatch'', ''bitop'', ''bitcount'',
     ''bitpos'']"
    unfolding data_procs_def list.map fst_conv ..
  also have "\<dots> = filter (\<lambda>n. n \<notin> {''exec'', ''discard'', ''multi'', ''watch''}) (map fst redisCommandTable)"
    by code_simp
  finally show ?thesis .
qed

lemma data_proc_entry:
  assumes "cmd_ok name argv"
  shows "\<exists>pr. map_of (data_procs env) name = Some pr"
proof -
  have "map_of redisCommandTable name \<noteq> None"
    using assms unfolding cmd_ok_def arity_ok_def by (auto split: option.splits)
  then have "name \<in> set (map fst redisCommandTable)" unfolding map_of_eq_None_iff set_map not_not .
  then have "name \<in> set (map fst (data_procs env))"
    using assms unfolding data_proc_names set_filter cmd_ok_def by blast
  then have "map_of (data_procs env) name \<noteq> None" unfolding map_of_eq_None_iff set_map not_not .
  then show ?thesis by simp
qed

lemma data_proc_runs:
  assumes "srv_ok s" and "cmd_ok name (c_argv (sv_client s c))" and "name \<noteq> ''unwatch''"
  shows "runs s (data_proc env name c s)"
    and "cmd_flag_of name \<noteq> CMD_WRITE \<Longrightarrow> reads s (data_proc env name c s)"
proof -
  have args: "arity_ok name (c_argv (sv_client s c))" "no_overflow name (c_argv (sv_client s c))"
    using assms(2) by (simp_all only: cmd_ok_def)
  obtain pr where pr: "map_of (data_procs env) name = Some pr" using data_proc_entry [OF assms(2)] by blast
  have "entry_ok (name, pr)" using entries [of env] map_of_SomeD [OF pr] by (simp only: list_all_iff)
  then have "\<forall>c s. srv_ok s \<longrightarrow> arity_ok name (c_argv (sv_client s c)) \<longrightarrow> no_overflow name (c_argv (sv_client s c)) \<longrightarrow>
      (if cmd_flag_of name = CMD_WRITE then runs s (pr c s) else reads s (pr c s))"
    using assms(3) by (simp only: entry_ok_def fst_conv snd_conv simp_thms)
  then have "if cmd_flag_of name = CMD_WRITE then runs s (pr c s) else reads s (pr c s)"
    using assms(1) args by blast
  then show "runs s (data_proc env name c s)" "cmd_flag_of name \<noteq> CMD_WRITE \<Longrightarrow> reads s (data_proc env name c s)"
    unfolding data_proc_def pr option.case by (simp_all add: reads_runs split: if_splits)
qed

subsection \<open>The invariant\<close>

definition watch_ok :: "server \<Rightarrow> bool" where
  "watch_ok s \<longleftrightarrow>
    (\<forall>c. distinct (c_watched (sv_client s c)) \<and> (\<forall>(d, k) \<in> set (c_watched (sv_client s c)). d < length (sv_db s))) \<and>
    (\<forall>d < length (sv_db s). \<forall>k.
      (\<forall>cs. watchers_of s d k = Some cs \<longrightarrow> cs \<noteq> [] \<and> distinct cs) \<and>
      (\<forall>c. c \<in> watching s d k \<longleftrightarrow> (d, k) \<in> set (c_watched (sv_client s c))))"

definition queue_ok :: "server \<Rightarrow> bool" where
  "queue_ok s \<longleftrightarrow> (\<forall>c. \<forall>(name, argv) \<in> set (c_commands (sv_client s c)). cmd_ok name argv)"

definition server_inv :: "server \<Rightarrow> bool" where
  "server_inv s \<longleftrightarrow> srv_ok s \<and> watch_ok s \<and> queue_ok s"

lemma watch_okD:
  assumes "watch_ok s"
  shows "distinct (c_watched (sv_client s c))"
    and "(d, k) \<in> set (c_watched (sv_client s c)) \<Longrightarrow> d < length (sv_db s)"
    and "(d, k) \<in> set (c_watched (sv_client s c)) \<Longrightarrow> c \<in> watching s d k"
    and "d < length (sv_db s) \<Longrightarrow> c \<in> watching s d k \<Longrightarrow> (d, k) \<in> set (c_watched (sv_client s c))"
    and "d < length (sv_db s) \<Longrightarrow> watchers_of s d k = Some cs \<Longrightarrow> distinct cs"
    and "d < length (sv_db s) \<Longrightarrow> watchers_of s d k = Some cs \<Longrightarrow> cs \<noteq> []"
  using assms unfolding watch_ok_def by fastforce+

lemma inv_cong:
  assumes "server_inv s0" and "srv_ok s" and "length (sv_db s) = length (sv_db s0)"
    and "\<And>d. d < length (sv_db s0) \<Longrightarrow> db_watched_keys (sv_db s ! d) = db_watched_keys (sv_db s0 ! d)"
    and "\<And>c. c_watched (sv_client s c) = c_watched (sv_client s0 c)"
    and "\<And>c. c_commands (sv_client s c) = c_commands (sv_client s0 c)"
  shows "server_inv s"
proof -
  have "watching s d k = watching s0 d k" if "d < length (sv_db s0)" for d k
    using assms(4) [OF that] by (rule watching_cong)
  then show ?thesis using assms by (simp add: server_inv_def watch_ok_def queue_ok_def)
qed

subsection \<open>The change of the state by a request\<close>

text \<open>
  What every part of a request guarantees; the clients in \<open>X\<close> may give up their watched keys.
\<close>

definition evolves :: "nat set \<Rightarrow> server \<Rightarrow> server \<Rightarrow> bool" where
  "evolves X s0 s \<longleftrightarrow>
    server_inv s \<and> length (sv_db s) = length (sv_db s0) \<and> sv_pause_type s = sv_pause_type s0 \<and> sv_loading s = sv_loading s0 \<and>
    sv_dirty s0 \<le> sv_dirty s \<and> prefix (sv_propagated s0) (sv_propagated s) \<and>
    (\<forall>d k. changed s0 s d k \<longrightarrow> recorded s0 s) \<and>
    (\<forall>c. c \<notin> X \<longrightarrow>
      set (c_watched (sv_client s0 c)) \<subseteq> set (c_watched (sv_client s c)) \<and>
      (c_dirty_cas (sv_client s0 c) \<longrightarrow> c_dirty_cas (sv_client s c)) \<and>
      (\<forall>(d, k) \<in> set (c_watched (sv_client s0 c)). changed s0 s d k \<longrightarrow> c_dirty_cas (sv_client s c)))"

lemma evolves_inv: "evolves X s0 s \<Longrightarrow> server_inv s"
  by (simp add: evolves_def)

lemma evolvesD:
  assumes "evolves X s0 s"
  shows "length (sv_db s) = length (sv_db s0)" and "sv_pause_type s = sv_pause_type s0" and "sv_loading s = sv_loading s0"
    and "sv_dirty s0 \<le> sv_dirty s" and "length (sv_propagated s0) \<le> length (sv_propagated s)"
  using assms by (simp_all add: evolves_def prefix_length_le)

lemma evolves_trans:
  assumes 1: "evolves X s0 s" and 2: "evolves X s s'"
  shows "evolves X s0 s'"
proof -
  have len: "length (sv_db s) = length (sv_db s0)" using 1 by (simp add: evolves_def)
  have ch: "changed s s' d k \<or> changed s0 s d k \<and> content s' d k = content s d k" if "changed s0 s' d k" for d k
    using that len by (auto simp: changed_def)
  have "recorded s0 s'" if "changed s0 s' d k" for d k
  proof -
    have "recorded s s' \<or> recorded s0 s" using ch [OF that] 1 2 unfolding evolves_def by blast
    moreover have "sv_dirty s0 \<le> sv_dirty s" "sv_dirty s \<le> sv_dirty s'"
      "length (sv_propagated s0) \<le> length (sv_propagated s)" "length (sv_propagated s) \<le> length (sv_propagated s')"
      using 1 2 by (simp_all add: evolves_def prefix_length_le)
    ultimately show ?thesis unfolding recorded_def by linarith
  qed
  moreover have "c_dirty_cas (sv_client s' c)"
    if "c \<notin> X" "(d, k) \<in> set (c_watched (sv_client s0 c))" "changed s0 s' d k" for c d k
    using ch [OF that(3)] 1 2 that(1,2) unfolding evolves_def by blast
  moreover have "prefix (sv_propagated s0) (sv_propagated s')"
    using 1 2 unfolding evolves_def by (meson prefix_order.trans)
  moreover have "set (c_watched (sv_client s0 c)) \<subseteq> set (c_watched (sv_client s' c))"
    "c_dirty_cas (sv_client s0 c) \<longrightarrow> c_dirty_cas (sv_client s' c)" if "c \<notin> X" for c
    using 1 2 that unfolding evolves_def by blast+
  ultimately show ?thesis using 1 2 unfolding evolves_def by (auto 0 4)
qed

lemma evolves_mono: "evolves X s0 s \<Longrightarrow> X \<subseteq> Y \<Longrightarrow> evolves Y s0 s"
  unfolding evolves_def by blast

lemma tracked_evolves:
  assumes t: "tracked s0 {} False s" and server_inv: "server_inv s0"
  shows "evolves X s0 s"
proof -
  have eq: "c_watched (sv_client s c) = c_watched (sv_client s0 c)" "c_commands (sv_client s c) = c_commands (sv_client s0 c)" for c
    using t by (simp_all add: tracked_def txn_def)
  have "server_inv s" by (rule inv_cong [OF server_inv]) (use t eq in \<open>simp_all add: tracked_def\<close>)
  moreover have "c_dirty_cas (sv_client s c)" if "(d, k) \<in> set (c_watched (sv_client s0 c))" "changed s0 s d k" for c d k
    using tracked_changed [OF t that(2)] watch_okD(3) [OF _ that(1)] server_inv by (auto simp: server_inv_def)
  moreover have "prefix (sv_propagated s0) (sv_propagated s)" using tracked_stream [OF t] by (simp add: stream_def)
  ultimately show ?thesis using t eq by (auto simp: evolves_def tracked_def conf_def)
qed

text \<open>A change that concerns neither the databases nor the watched keys.\<close>

lemma evolves_idle:
  assumes "server_inv s0" and "sv_db s = sv_db s0" and "sv_pause_type s = sv_pause_type s0" and "sv_loading s = sv_loading s0"
    and "sv_dirty s0 \<le> sv_dirty s" and "prefix (sv_propagated s0) (sv_propagated s)"
    and "\<And>c. c_watched (sv_client s c) = c_watched (sv_client s0 c)"
    and "\<And>c. c_db (sv_client s c) = c_db (sv_client s0 c)"
    and "\<And>c. set (c_commands (sv_client s c)) \<subseteq> set (c_commands (sv_client s0 c)) \<union> {(n, a). cmd_ok n a}"
    and "\<And>c. c \<notin> X \<Longrightarrow> c_dirty_cas (sv_client s0 c) \<Longrightarrow> c_dirty_cas (sv_client s c)"
  shows "evolves X s0 s"
proof -
  have "srv_ok s" using assms by (simp add: server_inv_def srv_ok_def)
  moreover have "watch_ok s" using assms by (simp add: server_inv_def watch_ok_def watching_def)
  moreover have "queue_ok s" using assms(1,9) unfolding server_inv_def queue_ok_def by blast
  ultimately show ?thesis using assms by (auto simp: evolves_def server_inv_def changed_def content_def)
qed

lemma evolves_refl: "server_inv s \<Longrightarrow> evolves X s s"
  by (rule evolves_idle) auto

subsection \<open>Watching and unwatching\<close>

text \<open>The same data, settings and clients, except for the watched keys of one client.\<close>

definition rewatch :: "nat \<Rightarrow> (nat \<times> bytes) list \<Rightarrow> server \<Rightarrow> server \<Rightarrow> bool" where
  "rewatch c wks s s' \<longleftrightarrow>
    s'\<lparr>sv_db := sv_db s, sv_client := sv_client s\<rparr> = s \<and> length (sv_db s') = length (sv_db s) \<and>
    (\<forall>d. db_dict (sv_db s' ! d) = db_dict (sv_db s ! d) \<and> db_expires (sv_db s' ! d) = db_expires (sv_db s ! d)) \<and>
    sv_client s' = (sv_client s)(c := (sv_client s c)\<lparr>c_watched := wks\<rparr>)"

lemma rewatch_trans:
  assumes 1: "rewatch c wks s s'" and 2: "rewatch c wks' s' s''"
  shows "rewatch c wks' s s''"
proof -
  have 3: "s'\<lparr>sv_db := sv_db s, sv_client := sv_client s\<rparr> = s" "s''\<lparr>sv_db := sv_db s', sv_client := sv_client s'\<rparr> = s'"
    using 1 2 by (simp_all only: rewatch_def)
  have "s''\<lparr>sv_db := sv_db s, sv_client := sv_client s\<rparr> =
      (s''\<lparr>sv_db := sv_db s', sv_client := sv_client s'\<rparr>)\<lparr>sv_db := sv_db s, sv_client := sv_client s\<rparr>" by simp
  also have "\<dots> = s" by (simp only: 3)
  finally show ?thesis using 1 2 by (simp add: rewatch_def)
qed

lemma rewatch_simps:
  assumes "rewatch c wks s s'"
  shows "conf s' = conf s" "sv_dirty s' = sv_dirty s" "sv_propagated s' = sv_propagated s"
    "sv_propagate_in_transaction s' = sv_propagate_in_transaction s" "length (sv_db s') = length (sv_db s)"
    "content s' d k = content s d k" "sv_client s' = (sv_client s)(c := (sv_client s c)\<lparr>c_watched := wks\<rparr>)"
    "srv_ok s' = srv_ok s"
proof -
  have s: "s = s'\<lparr>sv_db := sv_db s, sv_client := sv_client s\<rparr>" using assms by (simp add: rewatch_def)
  show "conf s' = conf s" by (subst s) (simp add: conf_def)
  show "sv_dirty s' = sv_dirty s" "sv_propagated s' = sv_propagated s"
    "sv_propagate_in_transaction s' = sv_propagate_in_transaction s" by (subst s, simp)+
qed (use assms in \<open>auto simp: rewatch_def content_def srv_ok_def list_all_length db_ok_def\<close>)

lemma rewatch_evolves:
  assumes "rewatch c wks s s'" and "server_inv s" and "watch_ok s'"
    and "c \<notin> X \<Longrightarrow> set (c_watched (sv_client s c)) \<subseteq> set wks"
  shows "evolves X s s'"
proof -
  note eqs = rewatch_simps [OF assms(1)]
  have "c_commands (sv_client s' c') = c_commands (sv_client s c')" for c' by (simp add: eqs(7))
  then have "server_inv s'" using assms(2,3) eqs(8) by (simp add: server_inv_def queue_ok_def)
  moreover have "\<not> changed s s' d k" for d k by (simp add: changed_def eqs(6))
  ultimately show ?thesis using eqs assms(4) by (auto simp: evolves_def conf_def)
qed

lemma unwatchKey_ok:
  assumes ok: "watch_ok s" and wks: "c_watched (sv_client s c) = (d, k) # wks"
  shows "\<exists>s'. unwatchKey c (d, k) s = Some s' \<and> watch_ok s' \<and> rewatch c wks s s'"
proof -
  have d: "d < length (sv_db s)" and c: "c \<in> watching s d k" and notin: "(d, k) \<notin> set wks"
    using watch_okD(1) [OF ok, of c] watch_okD(2,3) [OF ok, of d k c] wks by auto
  then obtain cs where cs: "watchers_of s d k = Some cs" "c \<in> set cs" by (auto simp: watching_def split: option.splits)
  have dist: "distinct cs" by (rule watch_okD(5) [OF ok d cs(1)])
  define g where "g = (\<lambda>db :: redisDb. db\<lparr>db_watched_keys :=
    (if remove1 c cs = [] then fmdrop k (db_watched_keys db) else fmupd k (remove1 c cs) (db_watched_keys db))\<rparr>)"
  define s' where "s' = upd_client c (\<lambda>cl. cl\<lparr>c_watched := wks\<rparr>) (upd_db d g s)"
  have eq: "unwatchKey c (d, k) s = Some s'"
    using cs wks by (simp add: unwatchKey_def s'_def g_def upd_client_def upd_db_def Let_def)
  have re: "rewatch c wks s s'"
    by (auto simp: rewatch_def s'_def upd_client_def upd_db_nth g_def) (simp_all add: upd_db_def)
  have w: "watchers_of s' d' k' = (if d' = d \<and> k' = k then if remove1 c cs = [] then None else Some (remove1 c cs)
      else watchers_of s d' k')" for d' k'
    using d by (auto simp: s'_def upd_db_nth g_def)
  have "watching s' d' k' = (if d' = d \<and> k' = k then watching s d k - {c} else watching s d' k')" for d' k'
  proof (cases "d' = d \<and> k' = k")
    case True
    have "set (remove1 c cs) = set cs - {c}" using dist by simp
    then show ?thesis using True w [of d k] cs(1) by (cases "remove1 c cs") (auto simp: watching_def)
  next
    case False
    then show ?thesis unfolding watching_def w [of d' k'] by (simp only: if_False)
  qed
  moreover have "set (c_watched (sv_client s' c')) =
      (if c' = c then set (c_watched (sv_client s c)) - {(d, k)} else set (c_watched (sv_client s c')))" for c'
    using notin wks by (auto simp: s'_def)
  ultimately have "c' \<in> watching s' d' k' \<longleftrightarrow> (d', k') \<in> set (c_watched (sv_client s' c'))"
    if "d' < length (sv_db s)" for c' d' k'
    using that ok by (auto simp: watch_ok_def)
  moreover have "distinct (c_watched (sv_client s' c'))" for c'
    using watch_okD(1) [OF ok, of c'] wks by (auto simp: s'_def)
  moreover have "d' < length (sv_db s)" if "(d', k') \<in> set (c_watched (sv_client s' c'))" for c' d' k'
    using that watch_okD(2) [OF ok, of d' k' c'] wks by (auto simp: s'_def split: if_splits)
  moreover have "xs \<noteq> [] \<and> distinct xs" if "d' < length (sv_db s)" "watchers_of s' d' k' = Some xs" for d' k' xs
    using that(2) watch_okD(5,6) [OF ok that(1), of k' xs] dist by (auto simp: w split: if_splits)
  moreover have "length (sv_db s') = length (sv_db s)" by (simp add: s'_def)
  ultimately have "watch_ok s'" by (auto simp: watch_ok_def)
  then show ?thesis using eq re by blast
qed

lemma unwatch_loop_ok:
  assumes "watch_ok s" and "c_watched (sv_client s c) = wks"
  shows "\<exists>s'. unwatch_loop c wks s = Some s' \<and> watch_ok s' \<and> rewatch c [] s s'"
  using assms
proof (induction wks arbitrary: s)
  case Nil
  then show ?case by (auto simp: rewatch_def)
next
  case (Cons wk wks)
  obtain d k where wk: "wk = (d, k)" by (cases wk)
  obtain s1 where s1: "unwatchKey c (d, k) s = Some s1" "watch_ok s1" "rewatch c wks s s1"
    using unwatchKey_ok [of s c d k wks] Cons.prems wk by auto
  then have "c_watched (sv_client s1 c) = wks" using rewatch_simps(7) [OF s1(3)] by simp
  then show ?case using Cons.IH [of s1] s1 wk rewatch_trans [OF s1(3)] by auto
qed

lemma unwatchAllKeys_ok:
  assumes "server_inv s"
  shows "\<exists>s'. unwatchAllKeys c s = Some s' \<and> evolves {c} s s' \<and> rewatch c [] s s'"
proof -
  obtain s' where "unwatchAllKeys c s = Some s'" "watch_ok s'" "rewatch c [] s s'"
    using unwatch_loop_ok [OF _ refl, of s c] assms by (auto simp: server_inv_def unwatchAllKeys_def)
  then show ?thesis using rewatch_evolves [OF _ assms, of c "[]" s' "{c}"] by auto
qed

lemma watchForKey_ok:
  assumes "server_inv s"
  shows "evolves X s (watchForKey c k s)"
proof (cases "(c_db (sv_client s c), k) \<in> set (c_watched (sv_client s c))")
  case True
  then show ?thesis using assms by (simp add: watchForKey_def evolves_refl)
next
  case False
  define d where "d = c_db (sv_client s c)"
  define cs where "cs = (case watchers_of s d k of None \<Rightarrow> [] | Some cs \<Rightarrow> cs)"
  define s' where "s' = watchForKey c k s"
  let ?wks = "c_watched (sv_client s c) @ [(d, k)]"
  have ok: "watch_ok s" and d: "d < length (sv_db s)" using assms by (simp_all add: server_inv_def d_def)
  have s': "s' = upd_client c (\<lambda>cl. cl\<lparr>c_watched := ?wks\<rparr>)
      (upd_db d (\<lambda>db. db\<lparr>db_watched_keys := fmupd k (cs @ [c]) (db_watched_keys db)\<rparr>) s)"
    using False by (simp add: s'_def watchForKey_def d_def cs_def upd_client_def upd_db_def Let_def)
  have re: "rewatch c ?wks s s'"
    by (auto simp: rewatch_def s' upd_client_def upd_db_nth) (simp_all add: upd_db_def)
  have w: "watchers_of s' d' k' = (if d' = d \<and> k' = k then Some (cs @ [c]) else watchers_of s d' k')" for d' k'
    using d by (auto simp: s' upd_db_nth)
  have set_cs: "set cs = watching s d k" by (auto simp: cs_def watching_def split: option.splits)
  then have "c \<notin> set cs" using False watch_okD(4) [OF ok d, of c k] by (auto simp: d_def)
  moreover have "distinct cs" using watch_okD(5) [OF ok d, of k] by (auto simp: cs_def split: option.splits)
  ultimately have "distinct (cs @ [c])" by simp
  moreover have "watching s' d' k' = (if d' = d \<and> k' = k then insert c (watching s d k) else watching s d' k')" for d' k'
    using w [of d' k'] by (auto simp: set_cs watching_def [of s'] watching_def [of s d' k'])
  moreover have "set (c_watched (sv_client s' c')) =
      (if c' = c then insert (d, k) (set (c_watched (sv_client s c))) else set (c_watched (sv_client s c')))" for c'
    by (simp add: s')
  moreover have "distinct (c_watched (sv_client s' c'))" for c'
    using watch_okD(1) [OF ok, of c'] False by (auto simp: s' d_def)
  moreover have "length (sv_db s') = length (sv_db s)" by (simp add: s')
  ultimately have "watch_ok s'"
    using ok d by (auto simp: watch_ok_def w split: if_splits)
  then show ?thesis using rewatch_evolves [OF re assms, of X] by (auto simp: s'_def)
qed

lemma watch_loop_ok: "server_inv s \<Longrightarrow> evolves X s (fold (watchForKey c) ks s)"
proof (induction ks arbitrary: s)
  case (Cons k ks)
  have "evolves X s (watchForKey c k s)" by (rule watchForKey_ok [OF Cons.prems])
  then show ?case using Cons.IH [OF evolves_inv] evolves_trans by fastforce
qed (simp add: evolves_refl)

lemma stream_steps:
  assumes "stream s0 s" and "stream s s'" and "sv_in_exec s = sv_in_exec s0" and "sv_pause_type s = sv_pause_type s0"
  shows "stream s0 s'"
  using assms by (auto simp: stream_def prefix_def split: if_splits)

subsection \<open>The end of a transaction\<close>

abbreviation (input) end_txn :: "client \<Rightarrow> client" where
  "end_txn cl \<equiv> cl\<lparr>c_commands := [], c_multi := False, c_dirty_cas := False, c_dirty_exec := False, c_watched := []\<rparr>"

definition settled :: "nat \<Rightarrow> server \<Rightarrow> server \<Rightarrow> bool" where
  "settled c s s' \<longleftrightarrow>
    evolves {c} s s' \<and> conf s' = conf s \<and> sv_dirty s' = sv_dirty s \<and> sv_propagated s' = sv_propagated s \<and>
    sv_propagate_in_transaction s' = sv_propagate_in_transaction s \<and> content s' = content s \<and>
    sv_client s' = (sv_client s)(c := end_txn (sv_client s c))"

lemma discardTransaction_ok:
  assumes "server_inv s"
  shows "\<exists>s'. discardTransaction c s = Some s' \<and> settled c s s'"
proof -
  define s1 where "s1 = upd_client c (\<lambda>cl. cl\<lparr>c_commands := [], c_multi := False, c_dirty_cas := False, c_dirty_exec := False\<rparr>) s"
  have 1: "evolves {c} s s1" using assms by (rule evolves_idle) (auto simp: s1_def upd_client_def)
  obtain s' where s': "unwatchAllKeys c s1 = Some s'" "evolves {c} s1 s'" "rewatch c [] s1 s'"
    using unwatchAllKeys_ok [OF evolves_inv [OF 1], of c] by blast
  have "discardTransaction c s = Some s'"
    using s'(1) by (simp add: discardTransaction_def s1_def upd_client_def Let_def)
  moreover have "settled c s s'"
    using evolves_trans [OF 1 s'(2)] rewatch_simps [OF s'(3)]
    by (simp add: settled_def s1_def fun_eq_iff content_def)
  ultimately show ?thesis by blast
qed

lemma isWatchedKeyExpired_eq:
  assumes "server_inv s"
  shows "isWatchedKeyExpired c s = Some (\<exists>(d, k) \<in> set (c_watched (sv_client s c)). expired d k s)"
proof -
  have "isWatchedKeyExpired_loop wks s = Some (\<exists>(d, k) \<in> set wks. expired d k s)"
    if "set wks \<subseteq> set (c_watched (sv_client s c))" for wks
    using that
  proof (induction wks)
    case (Cons wk wks)
    obtain d k where wk: "wk = (d, k)" by (cases wk)
    have "srv_ok s" "d < length (sv_db s)"
      using assms Cons.prems watch_okD(2) [of s d k c] wk by (auto simp: server_inv_def)
    then show ?case using Cons wk by (simp add: keyIsExpired_eq)
  qed simp
  then show ?thesis by (simp add: isWatchedKeyExpired_def)
qed

subsection \<open>The call of a command\<close>

abbreviation (input) fixed_time :: "server \<Rightarrow> server" where
  "fixed_time s \<equiv> (if sv_in_exec s then s else s\<lparr>sv_mstime := sv_clock s\<rparr>)"

lemma evolves_fixed_time: "server_inv s \<Longrightarrow> evolves X s (fixed_time s)"
  by (rule evolves_idle) auto

lemma evolves_reply: "server_inv s \<Longrightarrow> evolves X s (addReply c r s)"
  by (rule tracked_evolves) (simp_all add: server_inv_def tracked_intro)

lemma evolves_prop_st: "server_inv s \<Longrightarrow> evolves X s (prop_st d argv s)"
  by (rule tracked_evolves [OF prop_st.tracked_quiet]) (simp_all add: server_inv_def tracked_intro)

lemma evolves_set_cmd: "server_inv s \<Longrightarrow> evolves X s (set_cmd c name argv s)"
  by (rule evolves_idle) (auto simp: set_cmd_def upd_client_def)

lemma set_cmd_simps [simp]:
  "sv_in_exec (set_cmd c name argv s) = sv_in_exec s" "sv_pause_type (set_cmd c name argv s) = sv_pause_type s"
  "sv_loading (set_cmd c name argv s) = sv_loading s" "sv_dirty (set_cmd c name argv s) = sv_dirty s"
  "sv_propagated (set_cmd c name argv s) = sv_propagated s"
  "sv_propagate_in_transaction (set_cmd c name argv s) = sv_propagate_in_transaction s"
  "sv_db (set_cmd c name argv s) = sv_db s" "sv_clock (set_cmd c name argv s) = sv_clock s"
  "sv_mstime (set_cmd c name argv s) = sv_mstime s"
  "sv_client (set_cmd c name argv s) = (sv_client s)(c := (sv_client s c)\<lparr>c_cmd := name, c_argv := argv\<rparr>)"
  by (simp_all add: set_cmd_def upd_client_def)

text \<open>\<open>call\<close> propagates a command that has counted a change.\<close>

lemma call_eq:
  assumes "pr c (fixed_time s) = Some s'" and "sv_dirty s < sv_dirty s' \<Longrightarrow> \<not> sv_paused s'"
  shows "call pr flags c s =
    Some (if flags = CMD_CALL_FULL \<and> sv_dirty s < sv_dirty s'
          then prop_st (c_db (sv_client s' c)) (c_argv (sv_client s' c)) s' else s')"
  using assms by (cases "sv_in_exec s") (simp_all add: call_def call_propagate_def propagate_eq Let_def)

text \<open>What the call of a command guarantees; \<open>X\<close> as for \<^const>\<open>evolves\<close>.\<close>

definition call_ok :: "nat set \<Rightarrow> call_flags \<Rightarrow> server \<Rightarrow> server \<Rightarrow> bool" where
  "call_ok X flags s s' \<longleftrightarrow>
    evolves X s s' \<and> stream s s' \<and> sv_in_exec s' = sv_in_exec s \<and>
    (sv_paused s \<longrightarrow> sv_dirty s' = sv_dirty s) \<and>
    (flags = CMD_CALL_FULL \<longrightarrow> sv_dirty s < sv_dirty s' \<longrightarrow> length (sv_propagated s) < length (sv_propagated s'))"

lemma call_ok_trans:
  assumes "call_ok X f s0 s" and "call_ok X f s s'"
  shows "call_ok X f s0 s'"
proof -
  have "evolves X s0 s" "evolves X s s'" using assms by (simp_all add: call_ok_def)
  then show ?thesis
    using assms stream_steps [of s0 s s'] evolves_trans [of X s0 s s'] evolvesD(2,4,5) [of X s0 s] evolvesD(4,5) [of X s s']
    unfolding call_ok_def by fastforce
qed

lemma call_returns:
  assumes inv: "server_inv s" and pr: "pr c (fixed_time s) = Some s1"
    and ev: "evolves X (fixed_time s) s1" and st: "stream (fixed_time s) s1" and ex: "sv_in_exec s1 = sv_in_exec s"
    and pause: "sv_paused s \<Longrightarrow> sv_dirty s1 = sv_dirty s"
  shows "\<exists>s'. call pr flags c s = Some s' \<and> call_ok X flags s s'"
proof -
  let ?p = "prop_st (c_db (sv_client s1 c)) (c_argv (sv_client s1 c)) s1"
  define s' where "s' = (if flags = CMD_CALL_FULL \<and> sv_dirty s < sv_dirty s1 then ?p else s1)"
  have pt: "sv_pause_type s1 = sv_pause_type s" using ev by (auto simp: evolves_def split: if_splits)
  have eq: "call pr flags c s = Some s'"
    unfolding s'_def by (rule call_eq [where pr = pr and c = c and s = s, OF pr]) (use pause pt in auto)
  have e1: "evolves X s s1" using evolves_trans [OF evolves_fixed_time [OF inv] ev] .
  then have "evolves X s s'"
    using evolves_trans [OF e1 evolves_prop_st [OF evolves_inv [OF e1]]] by (simp add: s'_def)
  moreover have st1: "stream s s1" using st by (auto simp: stream_def)
  moreover have "stream s s'"
    using st1 stream_steps [OF st1 prop_st.propagated ex pt] by (simp add: s'_def)
  moreover have "length (sv_propagated s) < length (sv_propagated s')"
    if "flags = CMD_CALL_FULL" "sv_dirty s < sv_dirty s'"
  proof -
    have d: "sv_dirty s < sv_dirty s1" using that by (simp add: s'_def split: if_splits)
    then have "\<not> sv_paused s1" using pause pt by auto
    from le_less_trans [OF stream_length [OF st1] prop_st_simps(2) [OF this]] show ?thesis
      using d that(1) by (simp add: s'_def)
  qed
  moreover have "sv_in_exec s' = sv_in_exec s" "sv_dirty s' = sv_dirty s1"
    using ex by (simp_all add: s'_def)
  ultimately have "call_ok X flags s s'" using pause unfolding call_ok_def by simp
  then show ?thesis using eq by blast
qed

lemma runs_evolves:
  assumes "server_inv s" and "runs s m"
  shows "\<exists>s'. m = Some s' \<and> evolves X s s' \<and> stream s s' \<and> sv_in_exec s' = sv_in_exec s"
  using assms tracked_evolves tracked_stream tracked_in_exec unfolding runs_def by blast

lemma unwatchCommand_ok:
  assumes "server_inv s"
  shows "\<exists>s'. unwatchCommand c s = Some s' \<and> evolves {c} s s' \<and> stream s s' \<and> sv_in_exec s' = sv_in_exec s \<and>
    sv_dirty s' = sv_dirty s"
proof -
  obtain s1 where s1: "unwatchAllKeys c s = Some s1" "evolves {c} s s1" "rewatch c [] s s1"
    using unwatchAllKeys_ok [OF assms, of c] by blast
  define s2 where "s2 = upd_client c (\<lambda>cl. cl\<lparr>c_dirty_cas := False\<rparr>) s1"
  have 2: "evolves {c} s1 s2" using evolves_inv [OF s1(2)] by (rule evolves_idle) (auto simp: s2_def upd_client_def)
  note 3 = evolves_trans [OF s1(2) 2]
  have "evolves {c} s (addReply c ROk s2)" using evolves_trans [OF 3 evolves_reply [OF evolves_inv [OF 3]]] .
  moreover have "stream s (addReply c ROk s2)" "sv_in_exec s2 = sv_in_exec s"
    using rewatch_simps(1,3,4) [OF s1(3)] by (auto simp: s2_def addReply_def stream_same conf_def upd_client_def)
  ultimately show ?thesis
    using s1(1) rewatch_simps(2) [OF s1(3)] by (simp add: unwatchCommand_def s2_def Let_def)
qed

text \<open>The commands that may drop the watched keys of the client that calls them.\<close>

definition unwatching :: "string \<Rightarrow> nat \<Rightarrow> nat set" where
  "unwatching name c = (if name \<in> {''exec'', ''discard'', ''unwatch''} then {c} else {})"

lemma data_proc_ok:
  assumes inv: "server_inv s" and cmd: "cmd_ok name (c_argv (sv_client s c))"
  shows "\<exists>s'. data_proc env name c s = Some s' \<and> evolves (unwatching name c) s s' \<and> stream s s' \<and>
    sv_in_exec s' = sv_in_exec s \<and> (cmd_flag_of name \<noteq> CMD_WRITE \<longrightarrow> sv_dirty s' = sv_dirty s)"
proof (cases "name = ''unwatch''")
  case True
  have "map_of (data_procs env) ''unwatch'' = Some unwatchCommand" by (simp add: data_procs_def)
  then have "data_proc env name c s = unwatchCommand c s" using True by (simp add: data_proc_def)
  moreover have "unwatching name c = {c}" using True by (simp add: unwatching_def)
  ultimately show ?thesis using unwatchCommand_ok [OF inv, of c] by auto
next
  case False
  have ok: "srv_ok s" using inv by (simp add: server_inv_def)
  obtain s' where s': "data_proc env name c s = Some s'" "evolves (unwatching name c) s s'" "stream s s'"
    "sv_in_exec s' = sv_in_exec s"
    using runs_evolves [OF inv data_proc_runs(1) [OF ok cmd False]] by blast
  then show ?thesis using data_proc_runs(2) [OF ok cmd False, of env] by auto
qed

lemma data_call_ok:
  assumes inv: "server_inv s" and cmd: "cmd_ok name (c_argv (sv_client s c))"
    and pause: "sv_paused s \<Longrightarrow> cmd_flag_of name \<noteq> CMD_WRITE"
  shows "\<exists>s'. call (data_proc env name) flags c s = Some s' \<and> call_ok (unwatching name c) flags s s'"
proof -
  have "server_inv (fixed_time s)" using evolves_inv [OF evolves_fixed_time [OF inv]] .
  moreover have "cmd_ok name (c_argv (sv_client (fixed_time s) c))" using cmd by simp
  ultimately obtain s1 where s1: "data_proc env name c (fixed_time s) = Some s1"
    "evolves (unwatching name c) (fixed_time s) s1" "stream (fixed_time s) s1" "sv_in_exec s1 = sv_in_exec (fixed_time s)"
    "cmd_flag_of name \<noteq> CMD_WRITE \<longrightarrow> sv_dirty s1 = sv_dirty (fixed_time s)"
    using data_proc_ok by blast
  show ?thesis by (rule call_returns [where pr = "data_proc env name" and c = c and s = s, OF inv s1(1-3)]) (use s1(4,5) pause in auto)
qed

subsection \<open>EXEC\<close>

lemma call_ok_mono: "call_ok X f s s' \<Longrightarrow> X \<subseteq> Y \<Longrightarrow> call_ok Y f s s'"
  unfolding call_ok_def using evolves_mono by blast

lemma call_ok_set_cmd: "server_inv s \<Longrightarrow> call_ok X f s (set_cmd c name argv s)"
  by (simp add: call_ok_def evolves_set_cmd stream_same)

lemma call_ok_reply: "server_inv s \<Longrightarrow> call_ok X f s (addReply c r s)"
  using addReply.propagated by (simp add: call_ok_def evolves_reply)

lemma call_ok_refl: "server_inv s \<Longrightarrow> call_ok X f s s"
  by (simp add: call_ok_def evolves_refl stream_same)

lemma exec_loop_ok:
  assumes "server_inv s" and "\<forall>(n, a) \<in> set cmds. cmd_ok n a"
    and "sv_paused s \<Longrightarrow> \<forall>(n, a) \<in> set cmds. cmd_flag_of n \<noteq> CMD_WRITE"
    and "f = (if sv_loading s then CMD_CALL_NONE else CMD_CALL_FULL)"
  shows "\<exists>s'. exec_loop env c cmds s = Some s' \<and> call_ok {c} f s s'"
  using assms
proof (induction cmds arbitrary: s)
  case Nil
  then show ?case by (simp add: call_ok_refl)
next
  case (Cons cmd cmds)
  obtain n a where na: "cmd = (n, a)" by (cases cmd)
  let ?s = "set_cmd c n a s"
  have 1: "call_ok {c} f s ?s" by (rule call_ok_set_cmd [OF Cons.prems(1)])
  then have inv: "server_inv ?s" by (simp add: call_ok_def evolves_def)
  define m where "m = (case env_acl env c n a of
      Some reason \<Rightarrow> Some (addReplyError c (
        ''-NOPERM ACLs rules changed between the moment the transaction was accumulated and the EXEC call. '' @
        ''This command is no longer allowed for the following reason: '' @ reason) ?s)
    | None \<Rightarrow> call (data_proc env n) f c ?s)"
  have "\<exists>s1. m = Some s1 \<and> call_ok {c} f ?s s1"
  proof (cases "env_acl env c n a")
    case None
    have "cmd_ok n (c_argv (sv_client ?s c))" using Cons.prems(2) na by simp
    then show ?thesis
      using data_call_ok [OF inv, of n c env f] Cons.prems(3) na None call_ok_mono [of "unwatching n c" f ?s _ "{c}"]
      by (auto simp: m_def unwatching_def)
  qed (simp add: m_def call_ok_reply inv)
  then obtain s1 where s1: "m = Some s1" "call_ok {c} f s s1" using call_ok_trans [OF 1] by blast
  then have "server_inv s1" "sv_pause_type s1 = sv_pause_type s" "sv_loading s1 = sv_loading s"
    by (simp_all add: call_ok_def evolves_def)
  then obtain s' where "exec_loop env c cmds s1 = Some s'" "call_ok {c} f s1 s'"
    using Cons.IH [of s1] Cons.prems by (auto simp: na)
  moreover have "exec_loop env c (cmd # cmds) s = m \<bind> exec_loop env c cmds"
    by (simp only: na m_def Cons.prems(4) exec_loop.simps Let_def set_cmd_simps)
  ultimately show ?case using s1 call_ok_trans by auto
qed

text \<open>
  \<open>EXEC\<close>: the state is settled again; unless it propagates nothing and counts no change, what it
  propagates starts with \<open>MULTI\<close>, and it counts a change itself so that \<open>call\<close> propagates \<open>EXEC\<close>.
\<close>

definition exec_ok :: "nat \<Rightarrow> server \<Rightarrow> server \<Rightarrow> bool" where
  "exec_ok c s s' \<longleftrightarrow>
    evolves {c} s s' \<and> \<not> sv_in_exec s' \<and> \<not> sv_propagate_in_transaction s' \<and>
    (sv_paused s \<longrightarrow> sv_dirty s' = sv_dirty s \<and> sv_propagated s' = sv_propagated s) \<and>
    c_argv (sv_client s' c) = c_argv (sv_client s c) \<and>
    (sv_propagated s' = sv_propagated s \<and> (sv_loading s \<or> sv_dirty s' = sv_dirty s) \<or>
     (\<exists>d xs. sv_propagated s' = sv_propagated s @ (d, [asc ''MULTI'']) # xs) \<and> sv_dirty s < sv_dirty s')"

text \<open>The steps of \<open>EXEC\<close> before and after the loop.\<close>

lemma exec_begin:
  assumes inv: "server_inv s"
  shows "\<exists>s'. unwatchAllKeys c s = Some s' \<and> evolves {c} s s' \<and> conf s' = conf s \<and> sv_dirty s' = sv_dirty s \<and>
    sv_propagated s' = sv_propagated s \<and> sv_propagate_in_transaction s' = sv_propagate_in_transaction s \<and>
    sv_client s' = (sv_client s)(c := (sv_client s c)\<lparr>c_watched := []\<rparr>)"
proof -
  obtain s' where s': "unwatchAllKeys c s = Some s'" "evolves {c} s s'" "rewatch c [] s s'"
    using unwatchAllKeys_ok [OF inv] by blast
  show ?thesis using s'(1,2) rewatch_simps [OF s'(3)] by blast
qed

definition exec_end :: "nat \<Rightarrow> string \<Rightarrow> bytes list \<Rightarrow> server \<Rightarrow> server option" where
  "exec_end c cmd argv s = do {
     let s = set_cmd c cmd argv s;
     s \<leftarrow> discardTransaction c s;
     s \<leftarrow> (if sv_propagate_in_transaction s then afterPropagateExec (dirty_add 1 s) else Some s);
     Some (s\<lparr>sv_in_exec := False\<rparr>) }"

lemma exec_end_ok:
  assumes inv: "server_inv s"
  shows "\<exists>s'. exec_end c cmd argv s = Some s' \<and> evolves {c} s s' \<and> \<not> sv_in_exec s' \<and> \<not> sv_propagate_in_transaction s' \<and>
    sv_propagated s' = sv_propagated s \<and> c_argv (sv_client s' c) = argv \<and>
    sv_dirty s' = (if sv_propagate_in_transaction s then sv_dirty s + 1 else sv_dirty s)"
proof -
  let ?s = "set_cmd c cmd argv s"
  have 1: "evolves {c} s ?s" by (rule evolves_set_cmd [OF inv])
  obtain s1 where s1: "discardTransaction c ?s = Some s1" "settled c ?s s1"
    using discardTransaction_ok [OF evolves_inv [OF 1]] by blast
  then have 2: "evolves {c} s s1" using evolves_trans [OF 1] by (simp add: settled_def)
  define s' where "s' = (if sv_propagate_in_transaction s1 then dirty_add 1 s1 else s1)
    \<lparr>sv_propagate_in_transaction := False, sv_in_exec := False\<rparr>"
  have "exec_end c cmd argv s = Some s'"
    using s1(1) by (simp add: exec_end_def afterPropagateExec_def s'_def Let_def)
  moreover have "evolves {c} s1 s'"
    using evolves_inv [OF 2] by (rule evolves_idle) (auto simp: s'_def dirty_add_def)
  ultimately show ?thesis
    using evolves_trans [OF 2] s1(2) by (auto simp: settled_def s'_def dirty_add_def)
qed

lemma exec_run_ok:
  fixes env :: environment
  assumes inv: "server_inv s" and pit: "\<not> sv_propagate_in_transaction s"
    and pause: "sv_paused s \<Longrightarrow> \<forall>(n, a) \<in> set (c_commands (sv_client s c)). cmd_flag_of n \<noteq> CMD_WRITE"
  defines "m \<equiv> do {
      s1 \<leftarrow> unwatchAllKeys c s;
      let s2 = addReply c (RArrayLen (length (c_commands (sv_client s1 c)))) (s1\<lparr>sv_in_exec := True\<rparr>);
      s3 \<leftarrow> exec_loop env c (c_commands (sv_client s2 c)) s2;
      exec_end c (c_cmd (sv_client s1 c)) (c_argv (sv_client s1 c)) s3 }"
  shows "\<exists>s'. m = Some s' \<and> exec_ok c s s'"
proof -
  obtain s1 where s1: "unwatchAllKeys c s = Some s1" "evolves {c} s s1" "conf s1 = conf s" "sv_dirty s1 = sv_dirty s"
    "sv_propagated s1 = sv_propagated s" "sv_propagate_in_transaction s1 = sv_propagate_in_transaction s"
    "sv_client s1 = (sv_client s)(c := (sv_client s c)\<lparr>c_watched := []\<rparr>)"
    using exec_begin [OF inv, of c] by blast
  define t where "t = s1\<lparr>sv_in_exec := True\<rparr>"
  define s2 where "s2 = addReply c (RArrayLen (length (c_commands (sv_client s1 c)))) t"
  have "evolves {c} s1 t" using evolves_inv [OF s1(2)] by (rule evolves_idle) (auto simp: t_def)
  note e_t = evolves_trans [OF s1(2) this]
  note e2 = evolves_trans [OF e_t evolves_reply [OF evolves_inv [OF e_t]], of c "RArrayLen (length (c_commands (sv_client s1 c)))", folded s2_def]
  have cmds: "c_commands (sv_client s2 c) = c_commands (sv_client s c)" using s1(7) by (simp add: s2_def t_def)
  have eq2: "sv_dirty s2 = sv_dirty s" "sv_propagated s2 = sv_propagated s" "\<not> sv_propagate_in_transaction s2" "sv_in_exec s2"
    "sv_pause_type s2 = sv_pause_type s" "sv_loading s2 = sv_loading s"
    using s1(3-6) pit by (simp_all add: s2_def t_def conf_def)
  define f where "f = (if sv_loading s2 then CMD_CALL_NONE else CMD_CALL_FULL)"
  have "\<forall>(n, a) \<in> set (c_commands (sv_client s2 c)). cmd_ok n a"
    using evolves_inv [OF e2] unfolding server_inv_def queue_ok_def by blast
  moreover have "sv_paused s2 \<Longrightarrow> \<forall>(n, a) \<in> set (c_commands (sv_client s2 c)). cmd_flag_of n \<noteq> CMD_WRITE"
    using pause eq2(5) cmds by simp
  ultimately obtain s3 where s3: "exec_loop env c (c_commands (sv_client s2 c)) s2 = Some s3" "call_ok {c} f s2 s3"
    using exec_loop_ok [OF evolves_inv [OF e2] _ _ f_def] by blast
  have e3: "evolves {c} s s3" using evolves_trans [OF e2] s3(2) by (simp add: call_ok_def)
  have st: "stream s2 s3" using s3(2) by (simp add: call_ok_def)
  obtain s' where s': "exec_end c (c_cmd (sv_client s1 c)) (c_argv (sv_client s1 c)) s3 = Some s'" "evolves {c} s3 s'"
    "\<not> sv_in_exec s'" "\<not> sv_propagate_in_transaction s'" "sv_propagated s' = sv_propagated s3"
    "c_argv (sv_client s' c) = c_argv (sv_client s1 c)"
    "sv_dirty s' = (if sv_propagate_in_transaction s3 then sv_dirty s3 + 1 else sv_dirty s3)"
    using exec_end_ok [OF evolves_inv [OF e3]] by blast
  have m: "m = Some s'"
    using s1(1) s3(1) s'(1) by (simp add: m_def Let_def s2_def t_def)
  have dirty3: "sv_dirty s \<le> sv_dirty s3" using evolvesD(4) [OF e3] .
  show ?thesis
  proof (cases "sv_propagate_in_transaction s3")
    case True
    then have "\<exists>d xs. sv_propagated s3 = sv_propagated s @ (d, [asc ''MULTI'']) # xs" "\<not> sv_paused s"
      using st eq2 by (auto simp: stream_def)
    then have "exec_ok c s s'"
      using evolves_trans [OF e3 s'(2)] s' True dirty3 s1(7) by (auto simp: exec_ok_def)
    then show ?thesis using m by blast
  next
    case False
    then have "sv_propagated s3 = sv_propagated s" using st eq2 by (auto simp: stream_def)
    moreover have "sv_dirty s3 = sv_dirty s" if "sv_paused s \<or> \<not> sv_loading s"
      using that s3(2) eq2 dirty3 calculation by (auto simp: call_ok_def f_def)
    ultimately have "exec_ok c s s'"
      using evolves_trans [OF e3 s'(2)] s' False s1(7) by (auto simp: exec_ok_def)
    then show ?thesis using m by blast
  qed
qed

lemma exec_ok_idle:
  assumes "evolves {c} s s'" and "conf s' = conf s" and "sv_dirty s' = sv_dirty s" and "sv_propagated s' = sv_propagated s"
    and "c_argv (sv_client s' c) = c_argv (sv_client s c)" and "\<not> sv_in_exec s" and "\<not> sv_propagate_in_transaction s'"
  shows "exec_ok c s s'"
  using assms by (simp add: exec_ok_def conf_def)

lemma exec_abort_ok:
  fixes b :: bool and c :: nat
  assumes inv: "server_inv s" and "\<not> sv_propagate_in_transaction s" "\<not> sv_in_exec s"
  defines "t \<equiv> if b then upd_client c (\<lambda>cl. cl\<lparr>c_dirty_cas := True\<rparr>) s else s"
  shows "\<exists>s'. discardTransaction c (addReply c r t) = Some s' \<and> exec_ok c s s' \<and> content s' = content s \<and>
    c_reply (sv_client s' c) = c_reply (sv_client s c) @ [r] \<and> sv_propagated s' = sv_propagated s \<and>
    sv_dirty s' = sv_dirty s"
proof -
  have "evolves {c} s t" using inv by (rule evolves_idle) (auto simp: t_def upd_client_def)
  note 1 = evolves_trans [OF this evolves_reply [OF evolves_inv [OF this], of _ c r]]
  obtain s' where s': "discardTransaction c (addReply c r t) = Some s'" "settled c (addReply c r t) s'"
    using discardTransaction_ok [OF evolves_inv [OF 1]] by blast
  have eqs: "conf t = conf s" "sv_dirty t = sv_dirty s" "sv_propagated t = sv_propagated s"
    "sv_propagate_in_transaction t = sv_propagate_in_transaction s" "content t = content s"
    "c_reply (sv_client t c) = c_reply (sv_client s c)" "c_argv (sv_client t c) = c_argv (sv_client s c)"
    by (auto simp: t_def fun_eq_iff content_def)
  have "exec_ok c s s'"
    by (rule exec_ok_idle) (use evolves_trans [OF 1] s'(2) eqs assms in \<open>auto simp: settled_def\<close>)
  moreover have "c_reply (sv_client s' c) = c_reply (sv_client s c) @ [r]"
    using s'(2) eqs(6) by (simp add: settled_def addReply_def)
  moreover have "content s' = content s"
    using s'(2) eqs(5) by (simp add: settled_def addReply_def fun_eq_iff content_def)
  ultimately show ?thesis using s' eqs by (auto simp: settled_def)
qed

lemma execCommand_split:
  assumes "server_inv s" and "c_multi (sv_client s c)"
  defines "e \<equiv> \<exists>(d, k) \<in> set (c_watched (sv_client s c)). expired d k s"
  shows "execCommand env c s =
    (if e \<or> c_dirty_cas (sv_client s c) \<or> c_dirty_exec (sv_client s c)
     then discardTransaction c (addReply c (if c_dirty_exec (sv_client s c)
         then RError ''EXECABORT Transaction discarded because of previous errors.'' else RNullArray)
       (if e then upd_client c (\<lambda>cl. cl\<lparr>c_dirty_cas := True\<rparr>) s else s))
     else do {
       s1 \<leftarrow> unwatchAllKeys c s;
       let s2 = addReply c (RArrayLen (length (c_commands (sv_client s1 c)))) (s1\<lparr>sv_in_exec := True\<rparr>);
       s3 \<leftarrow> exec_loop env c (c_commands (sv_client s2 c)) s2;
       exec_end c (c_cmd (sv_client s1 c)) (c_argv (sv_client s1 c)) s3 })"
  using assms(1,2) isWatchedKeyExpired_eq [OF assms(1), of c]
  by (auto simp: execCommand_def e_def exec_end_def Let_def)

text \<open>The transaction of a client that is marked is discarded.\<close>

lemma exec_discards:
  assumes inv: "server_inv s" and idle: "\<not> sv_propagate_in_transaction s" "\<not> sv_in_exec s"
    and multi: "c_multi (sv_client s c)" and marked: "c_dirty_cas (sv_client s c)"
  shows "\<exists>s' r. execCommand env c s = Some s' \<and> content s' = content s \<and> sv_dirty s' = sv_dirty s \<and>
    sv_propagated s' = sv_propagated s \<and> c_reply (sv_client s' c) = c_reply (sv_client s c) @ [r] \<and>
    r \<in> {RNullArray, RError ''EXECABORT Transaction discarded because of previous errors.''}"
proof -
  define r where "r = (if c_dirty_exec (sv_client s c)
    then RError ''EXECABORT Transaction discarded because of previous errors.'' else RNullArray)"
  let ?e = "\<exists>(d, k) \<in> set (c_watched (sv_client s c)). expired d k s"
  have cond: "?e \<or> c_dirty_cas (sv_client s c) \<or> c_dirty_exec (sv_client s c)" using marked by blast
  have eq: "execCommand env c s =
      discardTransaction c (addReply c r (if ?e then upd_client c (\<lambda>cl. cl\<lparr>c_dirty_cas := True\<rparr>) s else s))"
    unfolding execCommand_split [OF inv multi] if_P [OF cond] r_def ..
  have "r \<in> {RNullArray, RError ''EXECABORT Transaction discarded because of previous errors.''}" by (simp only: r_def) simp
  then show ?thesis unfolding eq using exec_abort_ok [OF inv idle, of c r ?e] by blast
qed

lemma execCommand_ok:
  assumes inv: "server_inv s" and pit: "\<not> sv_propagate_in_transaction s" and ex: "\<not> sv_in_exec s"
    and pause: "sv_paused s \<Longrightarrow> \<forall>(n, a) \<in> set (c_commands (sv_client s c)). cmd_flag_of n \<noteq> CMD_WRITE"
  shows "\<exists>s'. execCommand env c s = Some s' \<and> exec_ok c s s'"
proof (cases "c_multi (sv_client s c)")
  case True
  let ?e = "\<exists>(d, k) \<in> set (c_watched (sv_client s c)). expired d k s"
  show ?thesis
  proof (cases "?e \<or> c_dirty_cas (sv_client s c) \<or> c_dirty_exec (sv_client s c)")
    case True
    show ?thesis
      unfolding execCommand_split [OF inv \<open>c_multi _\<close>] if_P [OF True]
      using exec_abort_ok [OF inv pit ex] by blast
  next
    case False
    show ?thesis
      unfolding execCommand_split [OF inv \<open>c_multi _\<close>] if_not_P [OF False]
      by (rule exec_run_ok [OF inv pit pause])
  qed
next
  case False
  then show ?thesis
    using exec_ok_idle [of c s "addReplyError c ''EXEC without MULTI'' s"] evolves_reply [OF inv] pit ex
    by (simp add: execCommand_def)
qed

subsection \<open>Requests\<close>

definition quiescent :: "server \<Rightarrow> bool" where
  "quiescent s \<longleftrightarrow> server_inv s \<and> \<not> sv_in_exec s \<and> \<not> sv_propagate_in_transaction s"

definition request_ok :: "nat set \<Rightarrow> server \<Rightarrow> server \<Rightarrow> bool" where
  "request_ok X s s' \<longleftrightarrow>
    evolves X s s' \<and> quiescent s' \<and>
    (\<forall>d k. changed s s' d k \<longrightarrow> length (sv_propagated s) < length (sv_propagated s'))"

lemma call_request:
  assumes "quiescent s" and "call_ok X CMD_CALL_FULL s s'"
  shows "request_ok X s s'"
proof -
  have "evolves X s s'" "stream s s'" "sv_in_exec s' = sv_in_exec s"
    "sv_dirty s < sv_dirty s' \<longrightarrow> length (sv_propagated s) < length (sv_propagated s')"
    using assms(2) by (simp_all add: call_ok_def)
  moreover have "recorded s s'" if "changed s s' d k" for d k
    using \<open>evolves X s s'\<close> that unfolding evolves_def by blast
  ultimately show ?thesis
    using assms(1) evolves_inv [of X s s'] by (auto simp: request_ok_def quiescent_def stream_def recorded_def)
qed

text \<open>A command that concerns the transaction of the client only.\<close>

definition txn_ok :: "nat set \<Rightarrow> server \<Rightarrow> server option \<Rightarrow> bool" where
  "txn_ok X s m \<longleftrightarrow>
    (\<exists>s'. m = Some s' \<and> evolves X s s' \<and> conf s' = conf s \<and> sv_dirty s' = sv_dirty s \<and>
      sv_propagated s' = sv_propagated s \<and> sv_propagate_in_transaction s' = sv_propagate_in_transaction s)"

lemma txn_call_ok:
  assumes q: "quiescent s" and pr: "\<And>t. server_inv t \<Longrightarrow> txn_ok X t (pr c t)"
  shows "\<exists>s'. call pr CMD_CALL_FULL c s = Some s' \<and> call_ok X CMD_CALL_FULL s s'"
proof -
  have inv: "server_inv s" and ex: "\<not> sv_in_exec s" using q by (simp_all add: quiescent_def)
  let ?t = "fixed_time s"
  obtain s1 where s1: "pr c ?t = Some s1" "evolves X ?t s1" "conf s1 = conf ?t" "sv_dirty s1 = sv_dirty ?t"
    "sv_propagated s1 = sv_propagated ?t" "sv_propagate_in_transaction s1 = sv_propagate_in_transaction ?t"
    using pr [OF evolves_inv [OF evolves_fixed_time [OF inv]]] unfolding txn_ok_def by blast
  show ?thesis
  proof (rule call_returns [where pr = pr and c = c and s = s, OF inv s1(1,2)])
    show "stream ?t s1" by (rule stream_same [OF s1(5,6)])
    show "sv_in_exec s1 = sv_in_exec s" using s1(3) ex by (simp add: conf_def)
    show "sv_paused s \<Longrightarrow> sv_dirty s1 = sv_dirty s" using s1(4) ex by simp
  qed
qed

lemma upd_client_evolves:
  assumes "server_inv s" and "\<And>cl. c_watched (f cl) = c_watched cl" and "\<And>cl. c_db (f cl) = c_db cl"
    and "\<And>cl. c_dirty_cas (f cl) = c_dirty_cas cl"
    and "set (c_commands (f (sv_client s c))) \<subseteq> set (c_commands (sv_client s c)) \<union> {(n, a). cmd_ok n a}"
  shows "evolves X s (upd_client c f s)"
  using assms(1) by (rule evolves_idle) (use assms(2-5) in \<open>auto simp: upd_client_def\<close>)

lemma multi_ok:
  assumes "server_inv s"
  shows "txn_ok X s (multiCommand c s)"
proof -
  have 1: "evolves X s (upd_client c (\<lambda>cl. cl\<lparr>c_multi := True\<rparr>) s)"
    using assms by (rule upd_client_evolves) auto
  show ?thesis
    using evolves_trans [OF 1 evolves_reply [OF evolves_inv [OF 1]]] evolves_reply [OF assms]
    by (auto simp: multiCommand_def txn_ok_def)
qed

lemma discard_ok:
  assumes "server_inv s"
  shows "txn_ok {c} s (discardCommand c s)"
proof -
  obtain s1 where s1: "discardTransaction c s = Some s1" "settled c s s1" using discardTransaction_ok [OF assms] by blast
  then have "evolves {c} s s1" by (simp add: settled_def)
  then show ?thesis
    using s1 evolves_trans [OF _ evolves_reply [OF evolves_inv], of "{c}" s s1] evolves_reply [OF assms]
    by (auto simp: discardCommand_def settled_def txn_ok_def)
qed

lemma watch_loop_same:
  fixes s :: server and c :: nat and ks :: "bytes list"
  defines "t \<equiv> fold (watchForKey c) ks s"
  shows "conf t = conf s" "sv_dirty t = sv_dirty s" "sv_propagated t = sv_propagated s"
    "sv_propagate_in_transaction t = sv_propagate_in_transaction s"
proof -
  have 1: "conf (watchForKey c k s) = conf s" "sv_dirty (watchForKey c k s) = sv_dirty s"
    "sv_propagated (watchForKey c k s) = sv_propagated s"
    "sv_propagate_in_transaction (watchForKey c k s) = sv_propagate_in_transaction s" for k s
    by (simp_all add: watchForKey_def Let_def)
  show "conf t = conf s" "sv_dirty t = sv_dirty s" "sv_propagated t = sv_propagated s"
    "sv_propagate_in_transaction t = sv_propagate_in_transaction s"
    unfolding t_def by (induction ks arbitrary: s) (simp_all add: 1)
qed

lemma watchCommand_ok:
  assumes "server_inv s"
  shows "txn_ok X s (watchCommand c s)"
proof -
  have 1: "evolves X s (fold (watchForKey c) (tl (c_argv (sv_client s c))) s)" by (rule watch_loop_ok [OF assms])
  show ?thesis
    using evolves_trans [OF 1 evolves_reply [OF evolves_inv [OF 1]]] evolves_reply [OF assms]
    by (auto simp: watchCommand_def watch_loop_same txn_ok_def)
qed

lemma exec_call_ok:
  assumes q: "quiescent s"
    and pause: "sv_paused s \<Longrightarrow> \<forall>(n, a) \<in> set (c_commands (sv_client s c)). cmd_flag_of n \<noteq> CMD_WRITE"
  shows "\<exists>s'. call (execCommand env) CMD_CALL_FULL c s = Some s' \<and> call_ok {c} CMD_CALL_FULL s s'"
proof -
  have inv: "server_inv s" and ex: "\<not> sv_in_exec s" using q by (simp_all add: quiescent_def)
  have "server_inv (fixed_time s)" by (rule evolves_inv [OF evolves_fixed_time [OF inv]])
  then obtain s1 where s1: "execCommand env c (fixed_time s) = Some s1" "exec_ok c (fixed_time s) s1"
    using execCommand_ok [of "fixed_time s" c env] q pause ex by (auto simp: quiescent_def)
  show ?thesis
  proof (rule call_returns [where pr = "execCommand env" and c = c and s = s, OF inv s1(1)])
    show "evolves {c} (fixed_time s) s1" using s1(2) by (simp add: exec_ok_def)
    then show "stream (fixed_time s) s1" using s1(2) q by (auto simp: exec_ok_def stream_def evolves_def quiescent_def)
  qed (use s1(2) ex in \<open>auto simp: exec_ok_def\<close>)
qed

lemma proc_call_ok:
  assumes q: "quiescent s" and args: "arity_ok name (c_argv (sv_client s c))" "no_overflow name (c_argv (sv_client s c))"
    and pause: "sv_paused s \<Longrightarrow> \<not> is_may_replicate_command c name s"
  shows "\<exists>s'. call (proc_of env name) CMD_CALL_FULL c s = Some s' \<and> request_ok (unwatching name c) s s'"
proof -
  have inv: "server_inv s" using q by (simp add: quiescent_def)
  consider "name = ''exec''" | "name = ''multi''" | "name = ''discard''" | "name = ''watch''"
    | "name \<notin> {''exec'', ''discard'', ''multi'', ''watch''}" by blast
  then have "\<exists>s'. call (proc_of env name) CMD_CALL_FULL c s = Some s' \<and> call_ok (unwatching name c) CMD_CALL_FULL s s'"
  proof cases
    case 1
    then have "sv_paused s \<Longrightarrow> \<forall>(n, a) \<in> set (c_commands (sv_client s c)). cmd_flag_of n \<noteq> CMD_WRITE"
      using pause by (auto simp: is_may_replicate_command_def list_ex_iff)
    from exec_call_ok [OF q this] show ?thesis using 1 by (simp add: proc_of_def unwatching_def)
  next
    case 2
    then show ?thesis using txn_call_ok [OF q multi_ok] by (simp add: proc_of_def unwatching_def)
  next
    case 3
    then show ?thesis using txn_call_ok [OF q discard_ok] by (simp add: proc_of_def unwatching_def)
  next
    case 4
    then show ?thesis using txn_call_ok [OF q watchCommand_ok] by (simp add: proc_of_def unwatching_def)
  next
    case 5
    then have "cmd_ok name (c_argv (sv_client s c))" using args by (simp add: cmd_ok_def)
    moreover have "sv_paused s \<Longrightarrow> cmd_flag_of name \<noteq> CMD_WRITE" using pause by (auto simp: is_may_replicate_command_def)
    moreover have "proc_of env name = data_proc env name" using 5 by (simp add: proc_of_def)
    ultimately show ?thesis using data_call_ok [OF inv] by simp
  qed
  then show ?thesis using call_request [OF q] by blast
qed

text \<open>The table has one entry for each name.\<close>

lemma distinct_names: "distinct (map fst redisCommandTable)"
  by code_simp

lemma lookupCommand_map_of:
  assumes "lookupCommand x = Some (name, arity, flag)"
  shows "map_of redisCommandTable name = Some (arity, flag)"
proof -
  have "(name, arity, flag) \<in> set redisCommandTable"
    using assms by (simp only: lookupCommand_def) (metis find_Some_iff nth_mem)
  then show ?thesis by (rule map_of_is_SomeI [OF distinct_names])
qed

text \<open>A request that is rejected.\<close>

lemma quiescent_evolves:
  assumes "quiescent s" and "evolves X s s'" and "sv_in_exec s' = sv_in_exec s" and "sv_db s' = sv_db s"
    and "sv_propagate_in_transaction s' = sv_propagate_in_transaction s"
  shows "request_ok X s s'"
  using assms evolves_inv [OF assms(2)] by (simp add: request_ok_def quiescent_def changed_def content_def)

lemma request_trans:
  assumes "request_ok X s0 s" and "request_ok X s s'"
  shows "request_ok X s0 s'"
proof -
  have e: "evolves X s0 s" "evolves X s s'" using assms by (simp_all add: request_ok_def)
  have "changed s0 s d k \<or> changed s s' d k" if "changed s0 s' d k" for d k
    using that evolvesD(1) [OF e(1)] by (auto simp: changed_def)
  then show ?thesis
    using assms evolves_trans [OF e] evolvesD(5) [OF e(1)] evolvesD(5) [OF e(2)] unfolding request_ok_def by fastforce
qed

lemma flag_ok: "quiescent s \<Longrightarrow> request_ok X s (flagTransaction c s)"
proof (rule quiescent_evolves)
  assume "quiescent s"
  then have inv: "server_inv s" by (simp add: quiescent_def)
  have "evolves X s (upd_client c (\<lambda>cl. cl\<lparr>c_dirty_exec := True\<rparr>) s)" using inv by (rule upd_client_evolves) auto
  then show "evolves X s (flagTransaction c s)" using evolves_refl [OF inv] by (simp add: flagTransaction_def)
qed (simp_all add: flagTransaction_def upd_client_def)

lemma reply_ok: "quiescent s \<Longrightarrow> request_ok X s (addReply c r s)"
  by (rule quiescent_evolves) (simp_all add: quiescent_def evolves_reply)

lemma reject_ok:
  assumes q: "quiescent s"
  shows "\<exists>s'. rejectCommand c name e s = Some s' \<and> request_ok (unwatching name c) s s'"
proof (cases "name = ''exec''")
  case True
  let ?s = "flagTransaction c s"
  have 1: "request_ok {c} s ?s" by (rule flag_ok [OF q])
  then have inv: "server_inv ?s" by (simp add: request_ok_def quiescent_def)
  obtain s1 where s1: "discardTransaction c ?s = Some s1" "settled c ?s s1" using discardTransaction_ok [OF inv] by blast
  then have "quiescent s1" using 1 evolves_inv [of "{c}" ?s s1]
    by (simp add: settled_def request_ok_def quiescent_def conf_def)
  moreover have "request_ok {c} ?s s1"
    using calculation s1(2) by (simp add: request_ok_def settled_def changed_def)
  ultimately have "request_ok {c} s (addReply c r s1)" for r using request_trans [OF 1] request_trans reply_ok by blast
  then show ?thesis using True s1(1) by (simp add: rejectCommand_def execCommandAbort_def unwatching_def Let_def)
next
  case False
  have 1: "request_ok (unwatching name c) s (flagTransaction c s)" by (rule flag_ok [OF q])
  then have "quiescent (flagTransaction c s)" by (simp add: request_ok_def)
  from request_trans [OF 1 reply_ok [OF this]] show ?thesis using False by (simp add: rejectCommand_def Let_def)
qed

definition request_name :: "bytes list \<Rightarrow> string" where
  "request_name argv = (case lookupCommand (hd argv) of None \<Rightarrow> '''' | Some (name, _) \<Rightarrow> name)"

definition safe_request :: "bytes list \<Rightarrow> bool" where
  "safe_request argv \<longleftrightarrow> no_overflow (request_name argv) argv"

lemma queue_request:
  assumes q: "quiescent s" and cmd: "cmd_ok (c_cmd (sv_client s c)) (c_argv (sv_client s c))"
  shows "request_ok X s (addReply c RQueued (queueMultiCommand c s))"
proof -
  have inv: "server_inv s" using q by (simp add: quiescent_def)
  have "evolves X s (upd_client c (\<lambda>cl. cl\<lparr>c_commands := c_commands cl @ [(c_cmd cl, c_argv cl)]\<rparr>) s)"
    using inv by (rule upd_client_evolves) (use cmd in auto)
  then have "evolves X s (queueMultiCommand c s)" using evolves_refl [OF inv] by (simp add: queueMultiCommand_def)
  then have 1: "request_ok X s (queueMultiCommand c s)"
    by (rule quiescent_evolves [OF q]) (simp_all add: queueMultiCommand_def upd_client_def)
  then show ?thesis using request_trans [OF 1 reply_ok] by (simp add: request_ok_def)
qed

lemma set_cmd_request: "quiescent s \<Longrightarrow> request_ok X s (set_cmd c name argv s)"
  by (rule quiescent_evolves) (simp_all add: quiescent_def evolves_set_cmd)

lemma argv_request: "quiescent s \<Longrightarrow> request_ok X s (upd_client c (\<lambda>cl. cl\<lparr>c_argv := argv\<rparr>) s)"
proof (rule quiescent_evolves)
  assume "quiescent s"
  then have "server_inv s" by (simp add: quiescent_def)
  then show "evolves X s (upd_client c (\<lambda>cl. cl\<lparr>c_argv := argv\<rparr>) s)" by (rule upd_client_evolves) auto
qed (simp_all add: upd_client_def)

lemma exec_or_queue_ok:
  assumes q: "quiescent s" and args: "arity_ok name (c_argv (sv_client s c))" "no_overflow name (c_argv (sv_client s c))"
    and cmd: "c_cmd (sv_client s c) = name"
    and pause: "sv_paused s \<Longrightarrow> \<not> is_may_replicate_command c name s"
  shows "\<exists>s'. exec_or_queue env c name s = Some s' \<and> request_ok (unwatching name c) s s'"
proof (cases "c_multi (sv_client s c) \<and> name \<notin> {''exec'', ''discard'', ''multi'', ''watch''}")
  case True
  then have "cmd_ok (c_cmd (sv_client s c)) (c_argv (sv_client s c))" using args cmd by (simp add: cmd_ok_def)
  from queue_request [OF q this] show ?thesis unfolding exec_or_queue_def if_P [OF True] by blast
next
  case False
  show ?thesis unfolding exec_or_queue_def if_not_P [OF False] by (rule proc_call_ok [OF q args pause])
qed

text \<open>The part of \<open>processCommand\<close> after the lookup of the command; \<open>t\<close> is the state in which it runs.\<close>

lemma known_command_ok:
  assumes q: "quiescent s" and t: "request_ok (unwatching name c) s t"
    and cmd: "c_cmd (sv_client t c) = name" "c_argv (sv_client t c) = argv"
    and entry: "map_of redisCommandTable name = Some (arity, flag)" and safe: "no_overflow name argv"
  shows "\<exists>s'.
    (if arity > 0 \<and> arity \<noteq> int (length argv) \<or> int (length argv) < - arity then rejectCommand c name r t
     else case env_reject env c name t of
         Some e \<Rightarrow> rejectCommand c name e t
       | None \<Rightarrow>
           if sv_pause_type t = CLIENT_PAUSE_ALL \<or> sv_pause_type t = CLIENT_PAUSE_WRITE \<and> is_may_replicate_command c name t
           then Some s else exec_or_queue env c name t) = Some s' \<and> request_ok (unwatching name c) s s'"
proof -
  have qt: "quiescent t" using t by (simp add: request_ok_def)
  have reject: "\<exists>s'. rejectCommand c name r t = Some s' \<and> request_ok (unwatching name c) s s'" for r
    using reject_ok [OF qt, of c name r] request_trans [OF t] by blast
  have stay: "request_ok (unwatching name c) s s"
    by (rule quiescent_evolves [OF q]) (use q in \<open>simp_all add: quiescent_def evolves_refl\<close>)
  show ?thesis
  proof (cases "arity > 0 \<and> arity \<noteq> int (length argv) \<or> int (length argv) < - arity")
    case True
    show ?thesis unfolding if_P [OF True] by (rule reject)
  next
    case False
    then have "arity_ok name argv" using entry by (simp add: arity_ok_def)
    then have "\<exists>s'. exec_or_queue env c name t = Some s' \<and> request_ok (unwatching name c) s s'"
      if "sv_paused t \<Longrightarrow> \<not> is_may_replicate_command c name t"
      using exec_or_queue_ok [OF qt, of name c env] that cmd safe request_trans [OF t] by auto
    then show ?thesis unfolding if_not_P [OF False]
      using reject stay by (cases "sv_pause_type t") (auto split: option.splits)
  qed
qed

lemma processCommand_ok:
  assumes q: "quiescent s" and safe: "safe_request argv"
  shows "\<exists>s'. processCommand env c argv s = Some s' \<and> request_ok (unwatching (request_name argv) c) s s'"
proof -
  define s1 where "s1 = upd_client c (\<lambda>cl. cl\<lparr>c_argv := argv\<rparr>) s"
  have 1: "request_ok X s s1" for X unfolding s1_def by (rule argv_request [OF q])
  then have q1: "quiescent s1" by (simp add: request_ok_def)
  have idle: "\<not> (sv_propagate_in_transaction s \<or> sv_in_exec s)" using q by (simp add: quiescent_def)
  consider (quit) "ci_eq (hd argv) ''quit''"
    | (unknown) "\<not> ci_eq (hd argv) ''quit''" "lookupCommand (hd argv) = None"
    | (known) name arity flag where "\<not> ci_eq (hd argv) ''quit''" "lookupCommand (hd argv) = Some (name, arity, flag)"
    by (metis option.exhaust prod_cases3)
  then show ?thesis
  proof cases
    case quit
    then show ?thesis
      using request_trans [OF 1 reply_ok [OF q1]] idle by (simp add: processCommand_def s1_def Let_def)
  next
    case unknown
    have "processCommand env c argv s = rejectCommand c '''' ''unknown command'' s1"
      using unknown idle by (simp add: processCommand_def s1_def Let_def)
    then show ?thesis
      using reject_ok [OF q1, of c "''''" "''unknown command''"] request_trans [OF 1] unknown(2)
      by (auto simp: request_name_def)
  next
    case known
    then have name: "request_name argv = name" by (simp add: request_name_def)
    have "request_ok (unwatching name c) s (set_cmd c name argv s1)" by (rule request_trans [OF 1 set_cmd_request [OF q1]])
    then show ?thesis
      unfolding processCommand_def Let_def if_not_P [OF idle] if_not_P [OF known(1)] known(2) option.case prod.case name
        s1_def [symmetric]
      by (rule known_command_ok [OF q _ _ _ lookupCommand_map_of [OF known(2)]])
        (use safe name in \<open>simp_all add: safe_request_def\<close>)
  qed
qed

end
