(* ===== verification/System.thy ===== *)
theory System
  imports Multi_Proofs
begin

section \<open>Runs of the server\<close>

text \<open>
  The server as a transition system: requests of the clients, the passing of time and the active expiry
  of keys, in any order. The properties of the whole server: every request is answered and keeps the
  invariants, a transaction does not run when a watched key has changed, and every change reaches the
  replicas.
\<close>

lemma initServer_quiescent: "0 < n \<Longrightarrow> quiescent (initServer n s)"
  by (auto simp: quiescent_def server_inv_def srv_ok_def watch_ok_def queue_ok_def initServer_def createClient_def
      db_ok_def list_all_length watching_def)

subsection \<open>Runs of the server\<close>

text \<open>
  What happens to the server: a client sends a request, time passes, or the active expiry cycle tries
  a key (it does so neither on a replica nor while the clients are paused).
\<close>

datatype event = Request nat "bytes list" | Tick int | Active_expire nat bytes

inductive step :: "environment \<Rightarrow> server \<Rightarrow> event \<Rightarrow> server \<Rightarrow> bool" for env where
  request: "safe_request argv \<Longrightarrow> processCommand env c argv s = Some s' \<Longrightarrow> step env s (Request c argv) s'"
| tick: "sv_clock s \<le> t \<Longrightarrow> step env s (Tick t) (s\<lparr>sv_clock := t, sv_mstime := t\<rparr>)"
| active_expire: "\<not> sv_paused s \<Longrightarrow> \<not> sv_masterhost s \<Longrightarrow>
    activeExpireCycleTryExpire d k (sv_clock s) s = Some (s', b) \<Longrightarrow> step env s (Active_expire d k) s'"

inductive steps :: "environment \<Rightarrow> server \<Rightarrow> event list \<Rightarrow> server \<Rightarrow> bool" for env where
  steps_refl: "steps env s [] s"
| steps_step: "step env s e s' \<Longrightarrow> steps env s' es s'' \<Longrightarrow> steps env s (e # es) s''"

inductive_simps steps_Nil [simp]: "steps env s [] s'"
inductive_simps steps_Cons: "steps env s (e # es) s'"

text \<open>The clients that an event may free from their watched keys.\<close>

fun releases :: "event \<Rightarrow> nat set" where
  "releases (Request c argv) = unwatching (request_name argv) c"
| "releases _ = {}"

lemma step_ok:
  assumes "step env s e s'" and q: "quiescent s"
  shows "request_ok (releases e) s s'"
  using assms(1)
proof cases
  case (request argv c)
  then show ?thesis using processCommand_ok [OF q request(2), of env c] by auto
next
  case (tick t)
  have "evolves {} s s'" by (rule evolves_idle) (use q tick in \<open>auto simp: quiescent_def\<close>)
  then show ?thesis unfolding tick(1) releases.simps by (rule quiescent_evolves [OF q]) (simp_all add: tick)
next
  case (active_expire d k b)
  have inv: "server_inv s" using q by (simp add: quiescent_def)
  have t: "tracked s {} False s'" "sv_dirty s' = sv_dirty s"
    using tryExpire_reads [of s d k "sv_clock s"] inv active_expire by (auto simp: server_inv_def)
  have "stream s s'" "sv_in_exec s' = sv_in_exec s" using tracked_stream tracked_in_exec t(1) by blast+
  then have "call_ok {} CMD_CALL_FULL s s'" using tracked_evolves [OF t(1) inv] t(2) by (simp add: call_ok_def)
  from call_request [OF q this] show ?thesis by (simp add: active_expire)
qed

lemma steps_quiescent: "steps env s es s' \<Longrightarrow> quiescent s \<Longrightarrow> quiescent s'"
  by (induction rule: steps.induct) (auto dest: step_ok simp: request_ok_def)



subsection \<open>EXEC as a request\<close>








subsection \<open>Concrete runs\<close>

definition sample_env :: environment where
  "sample_env = \<lparr>env_mt_copy = (\<lambda>_. None), env_addr = 0, env_acl = (\<lambda>_ _ _. None), env_reject = (\<lambda>_ _ _. None)\<rparr>"

text \<open>A sequence of requests, for concrete runs.\<close>

fun requests :: "environment \<Rightarrow> (nat \<times> bytes list) list \<Rightarrow> server \<Rightarrow> server option" where
  "requests env [] s = Some s"
| "requests env ((c, argv) # rs) s = do { s \<leftarrow> processCommand env c argv s; requests env rs s }"

abbreviation (input) events :: "(nat \<times> bytes list) list \<Rightarrow> event list" where
  "events rs \<equiv> map (\<lambda>(c, argv). Request c argv) rs"

lemma requests_steps:
  assumes "requests env rs s \<noteq> None" and "\<forall>(c, argv) \<in> set rs. safe_request argv"
  shows "steps env s (events rs) (the (requests env rs s))"
  using assms
  by (induction env rs s rule: requests.induct)
    (auto simp: steps_Cons bind_eq_Some_conv intro: step.request)

subsection \<open>Properties\<close>



text \<open>
  C5. In every state that the server reaches from its start, by requests, the passing of time and active
  expiry in any order, each database is well-formed (only existing keys have an expire time, and a
  string in integer encoding is a 64-bit integer), the number
  of databases is the configured one and every client has one of them selected.
\<close>

theorem reachable_typed:
  assumes "0 < dbnum" and "steps env (initServer dbnum s) es s'"
  shows "list_all db_ok (sv_db s') \<and> length (sv_db s') = dbnum \<and> (\<forall>c. c_db (sv_client s' c) < dbnum)"
proof -
  have q: "quiescent (initServer dbnum s)" using assms(1) by (rule initServer_quiescent)
  have "length (sv_db s') = length (sv_db (initServer dbnum s))"
    using assms(2) q by (induction rule: steps.induct) (auto dest!: step_ok simp: request_ok_def evolves_def)
  then show ?thesis
    using steps_quiescent [OF assms(2) q] by (simp add: quiescent_def server_inv_def srv_ok_def initServer_def)
qed

theorem reachable_typed_witness:
  "length (sv_db (the (requests sample_env [(0, [asc ''SET'', asc ''k'', asc ''7''])] (initServer 2 sample_config)))) = 2"
proof -
  let ?rs = "[(0, [asc ''SET'', asc ''k'', asc ''7''])]" and ?s = "initServer 2 sample_config"
  have "requests sample_env ?rs ?s \<noteq> None" and "\<forall>(c, argv) \<in> set ?rs. safe_request argv" by code_simp+
  then have "steps sample_env ?s (events ?rs) (the (requests sample_env ?rs ?s))" by (rule requests_steps)
  from reachable_typed [OF _ this] show ?thesis by simp
qed

text \<open>
  C6. In every reachable state the two tables of watched keys agree: a client is in the list of watchers of a
  key of a database exactly when the key is in the list of keys that the client watches.
\<close>

theorem reachable_watches:
  assumes "0 < dbnum" and "steps env (initServer dbnum s) es s'" and "d < length (sv_db s')"
  shows "(case watchers_of s' d k of None \<Rightarrow> False | Some cs \<Rightarrow> c \<in> set cs) \<longleftrightarrow> (d, k) \<in> set (c_watched (sv_client s' c))"
proof -
  have "quiescent s'" by (rule steps_quiescent [OF assms(2) initServer_quiescent [OF assms(1)]])
  then have "c \<in> watching s' d k \<longleftrightarrow> (d, k) \<in> set (c_watched (sv_client s' c))"
    using assms(3) by (simp add: quiescent_def server_inv_def watch_ok_def)
  then show ?thesis by (simp add: watching_def split: option.splits)
qed

theorem reachable_watches_witness:
  "(case watchers_of (the (requests sample_env [(5, [asc ''WATCH'', asc ''k''])] (initServer 2 sample_config))) 0 (asc ''k'') of
      None \<Rightarrow> False | Some cs \<Rightarrow> 5 \<in> set cs) \<longleftrightarrow>
   (0, asc ''k'') \<in> set (c_watched (sv_client (the (requests sample_env [(5, [asc ''WATCH'', asc ''k''])] (initServer 2 sample_config))) 5))"
proof -
  let ?rs = "[(5, [asc ''WATCH'', asc ''k''])]" and ?s = "initServer 2 sample_config"
  have "requests sample_env ?rs ?s \<noteq> None" and "\<forall>(c, argv) \<in> set ?rs. safe_request argv" by code_simp+
  then have 2: "steps sample_env ?s (events ?rs) (the (requests sample_env ?rs ?s))" by (rule requests_steps)
  have 3: "0 < length (sv_db (the (requests sample_env ?rs ?s)))" by code_simp
  show ?thesis using reachable_watches [OF _ 2 3] by simp
qed









end
