(* ===== verification/Spec2Isabelle.thy ===== *)
theory Spec2Isabelle
  imports Intset System
begin

text \<open>
  A verification of the data structures and of the string, keyspace, expiry, bitmap and transaction
  commands of the Redis 6.2.7 server, whose sources are in \<open>src/redis/redis-6.2.7/src\<close>. All file
  names below are relative to this directory.

  \<^bold>\<open>The program.\<close> A client sends a request, a vector of byte strings. \<open>processCommand\<close> (\<open>server.c\<close>) looks the command
  up in the command table, checks it, and either queues it (inside of \<open>MULTI\<close>) or runs it through \<open>call\<close>,
  which propagates the command to the replicas and the append-only file if it changed anything. The
  procedures of the commands work on the keyspace (\<open>db.c\<close>), an array of databases with a dictionary of
  values and one of expire times (\<open>dict.c\<close>), whose keys are hashed with SipHash (\<open>siphash.c\<close>). Values are
  objects (\<open>object.c\<close>); small sets of integers are stored as intsets (\<open>intset.c\<close>). A client can watch keys, and
  every change of a key marks the clients that watch it, whose transaction is then not run (\<open>multi.c\<close>).

  \<^bold>\<open>The theories\<close>, from the bottom to the top.
  \<^item> \<open>Prelude\<close>: byte strings, reads and writes of buffers with their bounds, little-endian integers.
  \<^item> \<open>Interfaces\<close>: the locales \<open>set_store\<close> and \<open>map_store\<close>, the contracts of a set and of a map with the laws
    that their users rely on. \<open>Intset\<close> and \<open>Dict_Types\<close> interpret them.
  \<^item> \<open>Util\<close> (\<open>util.c\<close>): decimal conversion in both directions and glob matching, against a grammar of numerals
    and a language of patterns.
  \<^item> \<open>Intset\<close> (\<open>intset.c\<close>): the byte-level operations refine operations on finite sets of integers, stay in their
    block and terminate; the validation of untrusted blobs.
  \<^item> \<open>Hashes\<close> (\<open>siphash.c\<close>, \<open>crc16.c\<close>, \<open>crc64.c\<close>, \<open>crcspeed.c\<close>, \<open>endianconv.c\<close>, \<open>keyHashSlot\<close> of \<open>cluster.c\<close>): equivalence
    of the table-driven and word-wise routines with their references.
  \<^item> \<open>Dict\<close>, \<open>Dict_Proofs\<close>, \<open>Dict_Scan\<close> (\<open>dict.c\<close>, \<open>dict.h\<close>): hash tables with incremental rehashing. The locale
    \<open>dict_type\<close> states what a type of keys has to provide, and \<open>dict_api\<close> derives \<open>map_store\<close> from it. The
    cursor iteration is complete under resizing, and ends on a dictionary that does not change.
  \<^item> \<open>Dict_Types\<close> (\<open>server.c\<close>): the hash and compare functions of the server's dictionaries, with an interpretation
    of \<open>dict_api\<close> for each kind of key.
  \<^item> \<open>Server\<close> (\<open>server.h\<close>, \<open>server.c\<close>, \<open>object.c\<close>, \<open>networking.c\<close>): the records of the server, the databases and
    the clients, the string encodings, replies, propagation, \<open>call\<close>, and the initial state.
  \<^item> \<open>Db\<close> (\<open>db.c\<close>): lookup, insertion, deletion and expiry of keys, and the keyspace commands.
  \<^item> \<open>Db_Logic\<close>: the invariant \<open>srv_ok\<close>, and the relation \<open>tracked\<close> between the states before and during a
    command: every key that changed is either signalled or still to be signalled, and what was
    propagated stays. The locales \<open>frame\<close>, \<open>quiet\<close> and \<open>keyspace_frame\<close> say which parts of the state an
    operation leaves alone; they are interpreted on each operation, and the proofs about commands apply
    their rules in the order of the source.
  \<^item> \<open>T_String\<close> (\<open>t_string.c\<close>), \<open>Expire\<close> (\<open>expire.c\<close>), \<open>Bitops\<close> and \<open>Bit_Commands\<close> (\<open>bitops.c\<close>): the commands, each
    one definition with all its branches and a lemma that it returns and tracks its changes. \<open>Bitops\<close>
    has the primitives on bits (population count, search, bit fields and their overflow checks).
  \<^item> \<open>Multi\<close> (\<open>multi.c\<close>, \<open>server.c\<close>): transactions, watched keys, the table of the 53 modelled commands and
    \<open>processCommand\<close>. \<open>Multi_Proofs\<close>: the invariant of the server between requests and its preservation.
  \<^item> \<open>System\<close>: the server as a transition system with requests of any client, time and active expiry in any
    order, and the properties of its runs.

  \<^bold>\<open>How code is rendered.\<close> Structures are records, enumerations are datatypes, and byte buffers are lists of
  8-bit words. The operations return an option where the source can fail: \<^const>\<open>None\<close> is a failed assertion, a
  panic, a failed allocation or an access outside of a buffer, so that a theorem that an operation returns
  also says that it does none of these. Errors that the server replies are values of the type of replies.
  64-bit machine integers are words where they are used bitwise or as unsigned numbers; signed ones are
  integers with \<open>wrap64\<close> where the source can overflow. Loops are structurally recursive functions or functions with
  a termination proof; there is no fuel except in \<open>dictRehashMilliseconds\<close>, where it stands for the readings of
  the clock, and its property says how many rounds suffice. The dictionaries of the keyspace are finite maps in
  \<open>Server\<close>: \<open>Dict_Types\<close> shows that the hash tables of the code implement such a map.

  \<^bold>\<open>Parameters.\<close> What is not in the sources or decided outside of the modelled part is a parameter without
  assumptions: the seed of the hash, the success of an allocation, the readings of the clock, the address
  of a string (which decides about alignment), the decisions of the access control list, the further checks
  of \<open>processCommand\<close> (authentication, cluster redirection, memory limit, disk errors, replicas, loading,
  scripts) and the copy callback of modules.

  \<^bold>\<open>Bounds.\<close> The 32-bit types of the code are kept where they are stored (the header of an intset, the
  table index of a rehash). Lengths that the code passes as \<open>int\<close> are unbounded in the model, which agrees with
  the code below \<open>2 ^ 31\<close>: the length of a hashed or compared key, the position in an intset (4 GiB blobs), the
  steps of \<open>dictRehash\<close>. \<open>stringmatchlen\<close> may read the zero byte behind its pattern, which every sds has. Keys
  are compared by content; the source compares pointers first, which only saves time. A dictionary has fewer
  than \<open>2 ^ 60\<close> entries where a property says so. Signed overflow is rendered as it is compiled, in two's
  complement; the properties of the bit fields do not depend on it.

  \<^bold>\<open>Not modelled.\<close> The aggregate types (lists, sets apart from the intset, hashes, sorted sets, streams) and
  their encodings: their values are opaque objects that the keyspace commands move, copy and delete. Input and output:
  connections, the protocol, output buffers, persistence, the transfer to replicas, cluster and sentinel
  protocols. Lua scripts and modules, which run foreign code. Eviction, client-side caching, publish and
  subscribe, monitors, statistics and access times, which do not influence the modelled replies. Commands
  that block, \<open>SCAN\<close>, \<open>KEYS\<close> and \<open>RANDOMKEY\<close> (the cursor iteration and the glob matching beneath them are
  modelled), \<open>INCRBYFLOAT\<close> and \<open>STRALGO\<close>. Which keys the active expiry cycle samples is left open: in a run it
  may try any key at any time.
\<close>

end
